(* ===== verification/Prelude.thy ===== *)
theory Prelude
  imports Main "HOL-Library.Word" "HOL-Library.Monad_Syntax"
begin

text \<open>
  Shared vocabulary of the development: the machine types of the C sources, the result of an
  operation that may wait on a condition variable, a bounded FIFO interface (as a locale) with
  the client lemmas every queue of the program reuses, and the lemmas on circular arrays that
  the ring buffers of \<^verbatim>\<open>queue_op.c\<close>, \<^verbatim>\<open>bqueue_op.c\<close> and \<^verbatim>\<open>buffer.c\<close> share.
\<close>

named_theorems ring_simps \<open>facts about circular arrays\<close>
named_theorems model_defs \<open>definitions of model operations that proofs unfold together\<close>

type_synonym byte = "8 word"
type_synonym uint32 = "32 word"
type_synonym uint64 = "64 word"

text \<open>
  A blocking operation re-checks its condition each time it is woken. One pass over its loop
  either returns a value or goes (back) to waiting on the condition variable; both leave a state.
\<close>

datatype ('r, 's) outcome = Returns 'r 's | Waits 's

text \<open>The largest message (\<^verbatim>\<open>defs.h\<close>).\<close>

definition OS_MAXSTR :: nat where "OS_MAXSTR = 65536"

text \<open>Addition of \<^verbatim>\<open>size_t\<close> values wraps at \<open>2\<^sup>6\<^sup>4\<close>.\<close>

definition size_add :: "nat \<Rightarrow> nat \<Rightarrow> nat" where
  "size_add a b = unat (of_nat a + of_nat b :: uint64)"

text \<open>
  The elements of a circular array \<open>buf\<close> from index \<open>start\<close> on, \<open>n\<close> of them.
\<close>

definition ring_list :: "'a list \<Rightarrow> nat \<Rightarrow> nat \<Rightarrow> 'a list" where
  "ring_list buf start n = map (\<lambda>k. buf ! ((start + k) mod length buf)) [0..<n]"

text \<open>The number of elements between a read index \<open>e\<close> and a write index \<open>b\<close>.\<close>

definition ring_count :: "nat \<Rightarrow> nat \<Rightarrow> nat \<Rightarrow> nat" where
  "ring_count b e l = (b + l - e) mod l"

text \<open>A run of pushes and pops: the elements accepted, the elements delivered, the final state.\<close>

datatype 'a fifo_op = Push 'a | Pop

fun fifo_run :: "('a \<Rightarrow> 'q \<Rightarrow> 'q option) \<Rightarrow> ('q \<Rightarrow> ('a \<times> 'q) option) \<Rightarrow> 'a fifo_op list \<Rightarrow> 'q
    \<Rightarrow> 'a list \<times> 'a list \<times> 'q" where
  "fifo_run push pop [] q = ([], [], q)"
| "fifo_run push pop (Push x # ops) q =
     (case push x q of
        None \<Rightarrow> fifo_run push pop ops q
      | Some q' \<Rightarrow> (case fifo_run push pop ops q' of (ins, outs, r) \<Rightarrow> (x # ins, outs, r)))"
| "fifo_run push pop (Pop # ops) q =
     (case pop q of
        None \<Rightarrow> fifo_run push pop ops q
      | Some (x, q') \<Rightarrow> (case fifo_run push pop ops q' of (ins, outs, r) \<Rightarrow> (ins, x # outs, r)))"

text \<open>A sequence of steps that may fail, with what they put out.\<close>

fun run_steps :: "('o \<Rightarrow> 's \<Rightarrow> ('x list \<times> 's) option) \<Rightarrow> 'o list \<Rightarrow> 's \<Rightarrow> ('x list \<times> 's) option" where
  "run_steps step [] s = Some ([], s)"
| "run_steps step (op # ops) s =
     do { (o1, s1) \<leftarrow> step op s; (o2, s2) \<leftarrow> run_steps step ops s1; Some (o1 @ o2, s2) }"

text \<open>
  A run over a byte stream: writes of whole blocks, and transmissions that look at up to \<open>n\<close> bytes
  and remove the \<open>k\<close> of them that the network took. The run collects the blocks accepted and the
  bytes transmitted.
\<close>

datatype stream_op = Put "byte list" | Transmit nat nat

fun stream_run :: "(byte list \<Rightarrow> 'q \<Rightarrow> 'q option) \<Rightarrow> (nat \<Rightarrow> 'q \<Rightarrow> byte list) \<Rightarrow> (nat \<Rightarrow> 'q \<Rightarrow> 'q option)
    \<Rightarrow> stream_op list \<Rightarrow> 'q \<Rightarrow> byte list list \<times> byte list \<times> 'q" where
  "stream_run put peek consume [] q = ([], [], q)"
| "stream_run put peek consume (Put bs # ops) q =
     (case put bs q of
        None \<Rightarrow> stream_run put peek consume ops q
      | Some q' \<Rightarrow> (case stream_run put peek consume ops q' of (ins, outs, r) \<Rightarrow> (bs # ins, outs, r)))"
| "stream_run put peek consume (Transmit n k # ops) q =
     (let out = take k (peek n q) in
      case (if out = [] then None else consume (length out) q) of
        None \<Rightarrow> stream_run put peek consume ops q
      | Some q' \<Rightarrow> (case stream_run put peek consume ops q' of (ins, outs, r) \<Rightarrow> (ins, out @ outs, r)))"

lemma size_add_mod: "size_add a b = (a + b) mod 2 ^ 64"
  by (simp add: size_add_def unat_of_nat take_bit_eq_mod flip: of_nat_add)

lemma size_add_small [simp]: "a + b < 2 ^ 64 \<Longrightarrow> size_add a b = a + b"
  by (simp add: size_add_mod)

subsection \<open>Slices of lists\<close>

lemma take_join: "a \<le> b \<Longrightarrow> take a xs @ take (b - a) (drop a xs) = take b xs"
  by (metis le_add_diff_inverse take_add)

lemma slice_join:
  assumes "h \<le> n" "n \<le> t"
  shows "take (n - h) (drop h xs) @ take (t - n) (drop n xs) = take (t - h) (drop h xs)"
  using take_join[of "n - h" "t - h" "drop h xs"] assms by simp

subsection \<open>Circular arrays\<close>

lemma length_ring_list [simp, ring_simps]: "length (ring_list buf s n) = n"
  by (simp add: ring_list_def)

lemma ring_list_0 [simp, ring_simps]: "ring_list buf s 0 = []"
  by (simp add: ring_list_def)

lemma ring_list_Suc_back:
  "ring_list buf s (Suc n) = ring_list buf s n @ [buf ! ((s + n) mod length buf)]"
  by (simp add: ring_list_def)

lemma nth_ring_list [simp, ring_simps]:
  "k < n \<Longrightarrow> ring_list buf s n ! k = buf ! ((s + k) mod length buf)"
  by (simp add: ring_list_def)

lemma ring_list_front:
  assumes "s < length buf"
  shows "ring_list buf s (Suc n) = buf ! s # ring_list buf (Suc s mod length buf) n"
proof (rule nth_equalityI)
  fix i assume "i < length (ring_list buf s (Suc n))"
  then show "ring_list buf s (Suc n) ! i
      = (buf ! s # ring_list buf (Suc s mod length buf) n) ! i"
    using assms by (cases i) (simp_all add: mod_add_left_eq)
qed simp

lemma ring_list_cong:
  assumes "length b1 = length b2"
    and "\<And>k. k < n \<Longrightarrow> b1 ! ((s + k) mod length b1) = b2 ! ((s + k) mod length b2)"
  shows "ring_list b1 s n = ring_list b2 s n"
  using assms by (simp add: ring_list_def)

lemma mod_slot_distinct:
  assumes "k < n" "n < (l::nat)"
  shows "(s + k) mod l \<noteq> (s + n) mod l"
proof
  assume "(s + k) mod l = (s + n) mod l"
  then have "l dvd (s + n) - (s + k)" using assms by (metis add_le_cancel_left less_imp_le mod_eq_dvd_iff_nat)
  then have "l dvd n - k" by simp
  with assms show False by (metis dvd_imp_le less_imp_diff_less not_less zero_less_diff)
qed

lemma ring_list_update_outside:
  assumes "n < length buf"
  shows "ring_list (buf[(s + n) mod length buf := x]) s n = ring_list buf s n"
proof (rule ring_list_cong)
  fix k assume "k < n"
  then have "(s + n) mod length buf \<noteq> (s + k) mod length buf"
    using assms mod_slot_distinct[of k n "length buf" s] by simp
  then show "buf[(s + n) mod length buf := x] ! ((s + k) mod length (buf[(s + n) mod length buf := x]))
      = buf ! ((s + k) mod length buf)" by simp
qed simp

lemma ring_list_push:
  assumes "n < length buf"
  shows "ring_list (buf[(s + n) mod length buf := x]) s (Suc n) = ring_list buf s n @ [x]"
proof -
  have "(s + n) mod length buf < length buf" using assms by (metis mod_less_divisor not_less0 neq0_conv)
  then show ?thesis
    using assms by (simp add: ring_list_Suc_back ring_list_update_outside)
qed

lemma ring_list_linear:
  assumes "s + n \<le> length buf"
  shows "ring_list buf s n = take n (drop s buf)"
  using assms by (intro nth_equalityI) auto

lemma ring_list_append:
  "ring_list buf s (m + n) = ring_list buf s m @ ring_list buf ((s + m) mod length buf) n"
proof (rule nth_equalityI)
  fix i assume i: "i < length (ring_list buf s (m + n))"
  show "ring_list buf s (m + n) ! i
      = (ring_list buf s m @ ring_list buf ((s + m) mod length buf) n) ! i"
  proof (cases "i < m")
    case False
    then obtain j where "i = m + j" using le_Suc_ex not_less by blast
    then have "((s + m) mod length buf + (i - m)) mod length buf = (s + i) mod length buf"
      by (simp add: mod_add_left_eq add.assoc)
    with False i show ?thesis by (simp add: nth_append)
  qed (use i in \<open>simp add: nth_append\<close>)
qed simp

lemma ring_list_wrapped:
  assumes "s \<le> length buf" "n \<le> length buf" "length buf \<le> s + n"
  shows "ring_list buf s n = drop s buf @ take (s + n - length buf) buf"
proof (rule nth_equalityI)
  fix i assume i: "i < length (ring_list buf s n)"
  show "ring_list buf s n ! i = (drop s buf @ take (s + n - length buf) buf) ! i"
  proof (cases "s + i < length buf")
    case False
    then have "(s + i) mod length buf = s + i - length buf"
      using assms i by (simp add: le_mod_geq mod_if)
    with False i assms show ?thesis by (auto simp: nth_append add.commute)
  qed (use i assms in \<open>auto simp: nth_append less_diff_conv\<close>)
qed (use assms in simp)

subsection \<open>Counting a ring's elements\<close>

lemma ring_count_same [simp, ring_simps]: "ring_count e e l = 0"
  by (simp add: ring_count_def)

lemma ring_count_less: "0 < l \<Longrightarrow> ring_count b e l < l"
  by (simp add: ring_count_def)

lemma ring_count_le: "e \<le> b \<Longrightarrow> b < l \<Longrightarrow> ring_count b e l = b - e"
  by (simp add: ring_count_def mod_if)

lemma ring_count_gt: "b < e \<Longrightarrow> e < l \<Longrightarrow> ring_count b e l = b + l - e"
  by (simp add: ring_count_def)

lemmas ring_count_cases = ring_count_le ring_count_gt

lemma ring_count_0_iff: "b < l \<Longrightarrow> e < l \<Longrightarrow> ring_count b e l = 0 \<longleftrightarrow> b = e"
  by (cases "e \<le> b") (auto simp: ring_count_cases)

lemma ring_count_end: "b < l \<Longrightarrow> e < l \<Longrightarrow> (e + ring_count b e l) mod l = b"
  by (cases "e \<le> b") (auto simp: ring_count_cases)

lemma ring_count_unique:
  assumes "b < l" "e < l" "n < l" "(e + n) mod l = b"
  shows "ring_count b e l = n"
proof (cases "e + n < l")
  case False
  then have "(e + n) mod l = e + n - l" using assms(1-3) by (simp add: mod_if)
  with assms False show ?thesis by (simp add: ring_count_gt)
qed (use assms in \<open>auto simp: ring_count_le\<close>)

lemma ring_count_push:
  assumes "b < l" "e < l" "Suc b mod l \<noteq> e"
  shows "ring_count (Suc b mod l) e l = Suc (ring_count b e l)"
proof -
  have end_eq: "(e + Suc (ring_count b e l)) mod l = Suc b mod l"
    using ring_count_end[OF assms(1,2)] by (metis add_Suc_right mod_Suc_eq)
  have "Suc (ring_count b e l) \<noteq> l"
  proof
    assume "Suc (ring_count b e l) = l"
    then have "Suc b mod l = e" using end_eq assms(2) by simp
    with assms(3) show False by simp
  qed
  moreover have "ring_count b e l < l" using assms by (simp add: ring_count_less)
  ultimately have small: "Suc (ring_count b e l) < l" by simp
  show ?thesis
    by (rule ring_count_unique[OF _ assms(2) small end_eq]) (use assms in simp)
qed

lemma ring_count_pop:
  assumes "b < l" "e < l" "b \<noteq> e"
  shows "Suc (ring_count b (Suc e mod l) l) = ring_count b e l"
proof -
  obtain m where m: "ring_count b e l = Suc m"
    using assms ring_count_0_iff[OF assms(1,2)] by (cases "ring_count b e l") auto
  have "(Suc e mod l + m) mod l = b"
    using ring_count_end[OF assms(1,2)] m by (simp add: mod_add_left_eq)
  moreover have "m < l" using ring_count_less[of l b e] assms m by simp
  ultimately have "ring_count b (Suc e mod l) l = m"
    using assms by (intro ring_count_unique) auto
  with m show ?thesis by simp
qed

lemma ring_count_full:
  assumes "b < l" "e < l"
  shows "Suc b mod l = e \<longleftrightarrow> Suc (ring_count b e l) = l"
proof
  assume full: "Suc b mod l = e"
  show "Suc (ring_count b e l) = l"
  proof (cases "Suc b < l")
    case True
    with full have "e = Suc b" by simp
    with True show ?thesis by (simp add: ring_count_gt)
  next
    case False
    with assms have "Suc b = l" by simp
    with full have "e = 0" by simp
    with \<open>Suc b = l\<close> assms show ?thesis by (simp add: ring_count_le)
  qed
next
  assume "Suc (ring_count b e l) = l"
  then have "Suc b mod l = (e + l) mod l"
    using ring_count_end[OF assms] by (metis add_Suc_right mod_Suc_eq)
  with assms show "Suc b mod l = e" by simp
qed

subsection \<open>Bounded first-in first-out queues\<close>

text \<open>
  What a client of a queue relies on: a push on a queue with room appends, a push on a full one
  is refused, a pop takes the oldest element. The laws speak of the list of stored elements.
\<close>

locale bounded_fifo =
  fixes push :: "'a \<Rightarrow> 'q \<Rightarrow> 'q option"
    and pop :: "'q \<Rightarrow> ('a \<times> 'q) option"
    and contents :: "'q \<Rightarrow> 'a list"
    and capacity :: "'q \<Rightarrow> nat"
    and inv :: "'q \<Rightarrow> bool"
  assumes push_room: "inv q \<Longrightarrow> length (contents q) < capacity q \<Longrightarrow>
      \<exists>q'. push x q = Some q' \<and> inv q' \<and> contents q' = contents q @ [x] \<and> capacity q' = capacity q"
    and push_full: "inv q \<Longrightarrow> capacity q \<le> length (contents q) \<Longrightarrow> push x q = None"
    and pop_empty: "inv q \<Longrightarrow> contents q = [] \<Longrightarrow> pop q = None"
    and pop_first: "inv q \<Longrightarrow> contents q = x # xs \<Longrightarrow>
      \<exists>q'. pop q = Some (x, q') \<and> inv q' \<and> contents q' = xs \<and> capacity q' = capacity q"
begin

lemma push_Some:
  assumes "inv q" "push x q = Some q'"
  shows "inv q' \<and> contents q' = contents q @ [x] \<and> capacity q' = capacity q
    \<and> length (contents q) < capacity q"
proof -
  have room: "length (contents q) < capacity q"
    using assms push_full[of q x] by (cases "length (contents q) < capacity q") (auto simp: not_less)
  show ?thesis using push_room[OF assms(1) room, of x] assms(2) room by auto
qed

lemma pop_Some:
  assumes "inv q" "pop q = Some (x, q')"
  shows "inv q' \<and> contents q = x # contents q' \<and> capacity q' = capacity q"
proof (cases "contents q")
  case Nil
  with assms pop_empty[of q] show ?thesis by simp
next
  case (Cons y ys)
  with assms pop_first[OF assms(1) Cons] show ?thesis by auto
qed

text \<open>Nothing is lost, duplicated or reordered, and the bound is kept, over any run.\<close>

lemma run_fifo:
  assumes "inv q" "length (contents q) \<le> capacity q"
    "fifo_run push pop ops q = (ins, outs, q')"
  shows "inv q' \<and> contents q @ ins = outs @ contents q' \<and> capacity q' = capacity q
    \<and> length (contents q') \<le> capacity q"
  using assms
proof (induction ops arbitrary: q ins outs)
  case Nil
  then show ?case by simp
next
  case (Cons a ops)
  show ?case
  proof (cases a)
    case (Push x)
    show ?thesis
    proof (cases "push x q")
      case None
      with Push Cons.prems Cons.IH[of q] show ?thesis by simp
    next
      case (Some r)
      from push_Some[OF Cons.prems(1) Some] have r: "inv r" "contents r = contents q @ [x]"
        "capacity r = capacity q" "length (contents r) \<le> capacity r" by auto
      from Cons.prems(3) Push Some obtain ins' where
        ih: "fifo_run push pop ops r = (ins', outs, q')" "ins = x # ins'"
        by (auto split: prod.splits)
      from Cons.IH[OF r(1,4) ih(1)] r ih(2) show ?thesis by simp
    qed
  next
    case Pop
    show ?thesis
    proof (cases "pop q")
      case None
      with Pop Cons.prems Cons.IH[of q] show ?thesis by simp
    next
      case (Some p)
      then obtain x r where p: "pop q = Some (x, r)" by (cases p) auto
      from pop_Some[OF Cons.prems(1) p] have r: "inv r" "contents q = x # contents r"
        "capacity r = capacity q" by auto
      from Cons.prems(3) Pop p obtain outs' where
        ih: "fifo_run push pop ops r = (ins, outs', q')" "outs = x # outs'"
        by (auto split: prod.splits)
      have "length (contents r) \<le> capacity r" using r Cons.prems(2) by simp
      from Cons.IH[OF r(1) this ih(1)] r ih(2) show ?thesis by simp
    qed
  qed
qed

end

subsection \<open>Bounded byte streams\<close>

text \<open>
  What the network code relies on from a byte queue: a block is stored whole or refused, bytes are
  seen in order, and consuming removes exactly what was asked.
\<close>

locale byte_stream =
  fixes put :: "byte list \<Rightarrow> 'q \<Rightarrow> 'q option"
    and peek :: "nat \<Rightarrow> 'q \<Rightarrow> byte list"
    and consume :: "nat \<Rightarrow> 'q \<Rightarrow> 'q option"
    and stream :: "'q \<Rightarrow> byte list"
    and limit :: "'q \<Rightarrow> nat"
    and inv :: "'q \<Rightarrow> bool"
  assumes put_fits: "inv q \<Longrightarrow> length bs + length (stream q) < limit q \<Longrightarrow>
      \<exists>q'. put bs q = Some q' \<and> inv q' \<and> stream q' = stream q @ bs \<and> limit q' = limit q"
    and put_refused: "inv q \<Longrightarrow> limit q \<le> length bs + length (stream q) \<Longrightarrow> put bs q = None"
    and peek_take: "inv q \<Longrightarrow> peek n q = take n (stream q)"
    and consume_drop: "inv q \<Longrightarrow> 0 < n \<Longrightarrow> n \<le> length (stream q) \<Longrightarrow>
      \<exists>q'. consume n q = Some q' \<and> inv q' \<and> stream q' = drop n (stream q) \<and> limit q' = limit q"
begin

lemma put_Some:
  assumes "inv q" "put bs q = Some q'"
  shows "inv q' \<and> stream q' = stream q @ bs \<and> limit q' = limit q
    \<and> length bs + length (stream q) < limit q"
proof -
  have "length bs + length (stream q) < limit q"
    using assms put_refused[of q bs] by (cases "limit q \<le> length bs + length (stream q)") auto
  with put_fits[OF assms(1) this] assms(2) show ?thesis by auto
qed

lemma transmit_Some:
  assumes "inv q" "out = take k (peek n q)" "out \<noteq> []"
  shows "\<exists>q'. consume (length out) q = Some q' \<and> inv q' \<and> stream q = out @ stream q' \<and> limit q' = limit q"
proof -
  have out: "out = take (length out) (stream q)" "length out \<le> length (stream q)"
    using assms by (auto simp: peek_take min_def)
  obtain q' where "consume (length out) q = Some q'" "inv q'"
      "stream q' = drop (length out) (stream q)" "limit q' = limit q"
    using consume_drop[OF assms(1) _ out(2)] assms(3) by auto
  with out(1) show ?thesis by (metis append_take_drop_id)
qed

text \<open>The bytes transmitted, followed by those still queued, are the accepted blocks in order.\<close>

lemma run_stream:
  assumes "inv q" "stream_run put peek consume ops q = (ins, outs, q')"
  shows "inv q' \<and> stream q @ concat ins = outs @ stream q' \<and> limit q' = limit q"
  using assms
proof (induction ops arbitrary: q ins outs)
  case Nil
  then show ?case by simp
next
  case (Cons a ops)
  show ?case
  proof (cases a)
    case (Put bs)
    show ?thesis
    proof (cases "put bs q")
      case None
      with Put Cons.prems Cons.IH[of q] show ?thesis by simp
    next
      case (Some r)
      from Cons.prems(2) Put Some obtain ins' where
        ih: "stream_run put peek consume ops r = (ins', outs, q')" "ins = bs # ins'"
        by (auto split: prod.splits)
      from put_Some[OF Cons.prems(1) Some] Cons.IH[OF _ ih(1)] ih(2) show ?thesis by simp
    qed
  next
    case (Transmit n k)
    define out where "out = take k (peek n q)"
    show ?thesis
    proof (cases "out = []")
      case True
      with Transmit Cons.prems Cons.IH[of q] show ?thesis by (simp add: out_def Let_def)
    next
      case False
      from transmit_Some[OF Cons.prems(1) out_def False] obtain r where
        r: "consume (length out) q = Some r" "inv r" "stream q = out @ stream r" "limit r = limit q"
        by auto
      have "(case stream_run put peek consume ops r of (ins, outs, r) \<Rightarrow> (ins, out @ outs, r)) = (ins, outs, q')"
        using Cons.prems(2) Transmit r(1) False unfolding out_def by (simp add: Let_def)
      then obtain outs' where
        ih: "stream_run put peek consume ops r = (ins, outs', q')" "outs = out @ outs'"
        by (auto split: prod.splits)
      from Cons.IH[OF r(2) ih(1)] r ih(2) show ?thesis by simp
    qed
  qed
qed

end

end
