(* ===== verification/Ring_Queue.thy ===== *)
theory Ring_Queue
  imports Prelude
begin

text \<open>
  The pointer ring \<^verbatim>\<open>w_queue_t\<close> of \<^verbatim>\<open>src/src/shared/src/queue_op.c\<close> and the received-message
  queue that \<^verbatim>\<open>src/src/remoted/src/queue.c\<close> builds on it. A cell holds a pointer, \<open>None\<close>
  standing for NULL. Every operation runs under the queue's mutex and is one atomic function;
  an operation with a wait loop is one pass of that loop (\<^typ>\<open>('r, 's) outcome\<close>), and the
  condition variables it signals are part of its result.
\<close>

subsection \<open>queue\_op.c\<close>

record 'a w_queue =
  q_data :: "'a option list"
  q_begin :: nat
  q_end :: nat
  q_size :: nat
  q_elements :: uint32

datatype q_cond = Available | Available_not_empty

definition queue_init :: "nat \<Rightarrow> 'a w_queue" where
  "queue_init sz =
     \<lparr>q_data = replicate sz None, q_begin = 0, q_end = 0, q_size = sz, q_elements = 0\<rparr>"

definition queue_full :: "'a w_queue \<Rightarrow> bool" where
  "queue_full q \<longleftrightarrow> (q_begin q + 1) mod q_size q = q_end q"

definition queue_empty :: "'a w_queue \<Rightarrow> bool" where
  "queue_empty q \<longleftrightarrow> q_begin q = q_end q"

definition queue_push :: "'a w_queue \<Rightarrow> 'a option \<Rightarrow> int \<times> 'a w_queue" where
  "queue_push q d =
     (if queue_full q then (- 1, q)
      else (0, q\<lparr>q_data := (q_data q)[q_begin q := d],
                 q_begin := (q_begin q + 1) mod q_size q,
                 q_elements := q_elements q + 1\<rparr>))"

definition queue_push_ex :: "'a w_queue \<Rightarrow> 'a option \<Rightarrow> int \<times> 'a w_queue \<times> q_cond list" where
  "queue_push_ex q d =
     (case queue_push q d of (result, q') \<Rightarrow>
        (result, q', if result = 0 then [Available] else []))"

definition queue_push_ex_block ::
    "'a w_queue \<Rightarrow> 'a option \<Rightarrow> (int, 'a w_queue) outcome \<times> q_cond list" where
  "queue_push_ex_block q d =
     (if queue_full q then (Waits q, [])
      else case queue_push q d of (result, q') \<Rightarrow>
        (Returns result q', [Available_not_empty, Available]))"

definition queue_pop :: "'a w_queue \<Rightarrow> 'a option \<times> 'a w_queue" where
  "queue_pop q =
     (if queue_empty q then (None, q)
      else (q_data q ! q_end q,
            q\<lparr>q_end := (q_end q + 1) mod q_size q, q_elements := q_elements q - 1\<rparr>))"

definition queue_pop_ex :: "'a w_queue \<Rightarrow> ('a, 'a w_queue) outcome \<times> q_cond list" where
  "queue_pop_ex q =
     (case queue_pop q of
        (None, q') \<Rightarrow> (Waits q', [])
      | (Some d, q') \<Rightarrow> (Returns d q', [Available_not_empty]))"

text \<open>
  \<open>timeout\<close> is whether \<^verbatim>\<open>pthread_cond_timedwait\<close> fails (the deadline has passed) when the pass
  finds nothing to return; then the operation returns NULL.
\<close>

definition queue_pop_ex_timedwait ::
    "'a w_queue \<Rightarrow> bool \<Rightarrow> ('a option, 'a w_queue) outcome \<times> q_cond list" where
  "queue_pop_ex_timedwait q timeout =
     (case queue_pop q of
        (None, q') \<Rightarrow> (if timeout then Returns None q' else Waits q', [])
      | (Some d, q') \<Rightarrow> (Returns (Some d) q', [Available_not_empty]))"

definition try_queue_pop_ex :: "'a w_queue \<Rightarrow> 'a option \<times> 'a w_queue \<times> q_cond list" where
  "try_queue_pop_ex q =
     (case queue_pop q of (d, q') \<Rightarrow> (d, q', if d \<noteq> None then [Available_not_empty] else []))"

subsection \<open>remoted/queue.c\<close>

record message =
  msg_buffer :: "byte list"
  msg_size :: uint32
  msg_addr :: nat
  msg_sock :: int
  msg_counter :: nat

record rem_state =
  rem_queue :: "message w_queue"
  global_counter :: nat
  recv_discarded :: nat
  reported :: bool

definition rem_msginit :: "nat \<Rightarrow> rem_state" where
  "rem_msginit sz =
     \<lparr>rem_queue = queue_init sz, global_counter = 0, recv_discarded = 0, reported = False\<rparr>"

definition rem_msgpush :: "rem_state \<Rightarrow> byte list \<Rightarrow> nat \<Rightarrow> nat \<Rightarrow> int \<Rightarrow> int \<times> rem_state" where
  "rem_msgpush st buf sz addr sock =
     (let counter = size_add (global_counter st) 1;
          m = \<lparr>msg_buffer = take sz buf, msg_size = of_nat sz, msg_addr = addr,
               msg_sock = sock, msg_counter = counter\<rparr>
      in case queue_push (rem_queue st) (Some m) of (result, q') \<Rightarrow>
           let st' = st\<lparr>rem_queue := q', global_counter := counter\<rparr>
           in (result,
               if result < 0
               then st'\<lparr>recv_discarded := recv_discarded st' + 1, reported := True\<rparr>
               else st'))"

definition rem_get_qsize :: "rem_state \<Rightarrow> nat" where
  "rem_get_qsize st =
     (let q = rem_queue st in (q_begin q + q_size q - q_end q) mod q_size q)"

definition rem_msgpop :: "rem_state \<Rightarrow> (message, rem_state) outcome" where
  "rem_msgpop st =
     (case queue_pop (rem_queue st) of
        (None, q') \<Rightarrow> Waits (st\<lparr>rem_queue := q'\<rparr>)
      | (Some m, q') \<Rightarrow> Returns m (st\<lparr>rem_queue := q'\<rparr>))"

subsection \<open>Abstraction and invariant\<close>

definition queue_used :: "'a w_queue \<Rightarrow> nat" where
  "queue_used q = ring_count (q_begin q) (q_end q) (q_size q)"

definition queue_cells :: "'a w_queue \<Rightarrow> 'a option list" where
  "queue_cells q = ring_list (q_data q) (q_end q) (queue_used q)"

definition queue_list :: "'a w_queue \<Rightarrow> 'a list" where
  "queue_list q = map the (queue_cells q)"

definition queue_shape :: "'a w_queue \<Rightarrow> bool" where
  "queue_shape q \<longleftrightarrow> length (q_data q) = q_size q \<and> q_begin q < q_size q \<and> q_end q < q_size q
     \<and> q_elements q = of_nat (queue_used q)"

text \<open>The invariant: a well-shaped ring whose stored pointers are all non-NULL.\<close>

definition queue_inv :: "'a w_queue \<Rightarrow> bool" where
  "queue_inv q \<longleftrightarrow> queue_shape q \<and> None \<notin> set (queue_cells q)"

definition queue_put :: "'a \<Rightarrow> 'a w_queue \<Rightarrow> 'a w_queue option" where
  "queue_put x q = (case queue_push q (Some x) of (r, q') \<Rightarrow> if r = 0 then Some q' else None)"

definition queue_take :: "'a w_queue \<Rightarrow> ('a \<times> 'a w_queue) option" where
  "queue_take q = (case queue_pop q of (None, _) \<Rightarrow> None | (Some x, q') \<Rightarrow> Some (x, q'))"

text \<open>
  A run of the receive side: sockets push messages, the message handlers pop them (a pop on an
  empty queue waits). The run keeps the messages handed to the handlers so far.
\<close>

datatype rem_op = Rem_push "byte list" nat nat int | Rem_pop

fun rem_step :: "rem_op \<Rightarrow> message list \<times> rem_state \<Rightarrow> message list \<times> rem_state" where
  "rem_step (Rem_push b sz addr sock) (outs, st) = (outs, snd (rem_msgpush st b sz addr sock))"
| "rem_step Rem_pop (outs, st) =
     (case rem_msgpop st of Returns m st' \<Rightarrow> (outs @ [m], st') | Waits st' \<Rightarrow> (outs, st'))"

definition rem_pushes :: "rem_op list \<Rightarrow> nat" where
  "rem_pushes ops = length (filter (\<lambda>op. op \<noteq> Rem_pop) ops)"

text \<open>
  What a run keeps: messages come out and lie in the queue in strictly increasing order of their
  counters, and every message ever pushed is delivered, queued or counted as discarded.
\<close>

definition rem_run_inv :: "message list \<Rightarrow> rem_state \<Rightarrow> bool" where
  "rem_run_inv outs st \<longleftrightarrow> queue_inv (rem_queue st)
     \<and> sorted_wrt (<) (map msg_counter (outs @ queue_list (rem_queue st)))
     \<and> (\<forall>m \<in> set (outs @ queue_list (rem_queue st)). msg_counter m \<le> global_counter st)
     \<and> length outs + queue_used (rem_queue st) + recv_discarded st = global_counter st"

lemmas queue_ops = queue_push_def queue_pop_def queue_full_def queue_empty_def
lemmas queue_views = queue_used_def queue_cells_def queue_list_def queue_shape_def queue_inv_def

lemma queue_init_inv:
  "0 < n \<Longrightarrow> queue_inv (queue_init n :: 'a w_queue) \<and> queue_list (queue_init n :: 'a w_queue) = []"
  by (simp add: queue_init_def queue_views)

lemma queue_full_iff:
  "queue_shape q \<Longrightarrow> queue_full q \<longleftrightarrow> Suc (queue_used q) = q_size q"
  by (simp add: queue_shape_def queue_full_def queue_used_def ring_count_full)

lemma queue_empty_iff: "queue_shape q \<Longrightarrow> queue_empty q \<longleftrightarrow> queue_used q = 0"
  by (auto simp: queue_shape_def queue_empty_def queue_used_def ring_count_0_iff)

lemma queue_used_less: "queue_shape q \<Longrightarrow> queue_used q < q_size q"
  by (simp add: queue_shape_def queue_used_def ring_count_less)

lemma length_queue_list [simp]: "length (queue_list q) = queue_used q"
  by (simp add: queue_list_def queue_cells_def)

lemma queue_push_cells:
  assumes "queue_shape q" "\<not> queue_full q" "queue_push q d = (r, q')"
  shows "r = 0 \<and> queue_shape q' \<and> queue_cells q' = queue_cells q @ [d] \<and> q_size q' = q_size q"
proof -
  let ?n = "queue_used q"
  from assms have shape: "length (q_data q) = q_size q" "q_begin q < q_size q" "q_end q < q_size q"
    "q_elements q = of_nat ?n" by (auto simp: queue_shape_def)
  have notfull: "Suc (q_begin q) mod q_size q \<noteq> q_end q" using assms(2) by (simp add: queue_full_def)
  have used: "ring_count (Suc (q_begin q) mod q_size q) (q_end q) (q_size q) = Suc ?n"
    using ring_count_push[OF shape(2,3) notfull] by (simp add: queue_used_def)
  have slot: "(q_end q + ?n) mod q_size q = q_begin q"
    using ring_count_end[OF shape(2,3)] by (simp add: queue_used_def)
  have n: "?n < length (q_data q)" using queue_used_less[OF assms(1)] shape(1) by simp
  have "ring_list ((q_data q)[q_begin q := d]) (q_end q) (Suc ?n)
      = ring_list (q_data q) (q_end q) ?n @ [d]"
    using ring_list_push[OF n, of "q_end q" d] slot shape(1) by simp
  then show ?thesis
    using assms shape used by (auto simp: queue_push_def queue_shape_def queue_cells_def queue_used_def)
qed

lemma queue_pop_cells:
  assumes "queue_shape q" "\<not> queue_empty q" "queue_pop q = (d, q')"
  shows "queue_shape q' \<and> queue_cells q = d # queue_cells q' \<and> q_size q' = q_size q"
proof -
  from assms have shape: "length (q_data q) = q_size q" "q_begin q < q_size q" "q_end q < q_size q"
    "q_elements q = of_nat (queue_used q)" by (auto simp: queue_shape_def)
  have ne: "q_begin q \<noteq> q_end q" using assms(2) by (simp add: queue_empty_def)
  have used: "queue_used q = Suc (ring_count (q_begin q) (Suc (q_end q) mod q_size q) (q_size q))"
    using ring_count_pop[OF shape(2,3) ne] by (simp add: queue_used_def)
  show ?thesis
    using assms shape used ring_list_front[of "q_end q" "q_data q"]
    by (auto simp: queue_pop_def queue_shape_def queue_cells_def queue_used_def)
qed

interpretation rq: bounded_fifo queue_put queue_take queue_list "\<lambda>q. q_size q - 1" queue_inv
proof unfold_locales
  fix q :: "'a w_queue" and x :: 'a
  assume q: "queue_inv q" and room: "length (queue_list q) < q_size q - 1"
  then have shape: "queue_shape q" and nf: "\<not> queue_full q"
    by (auto simp: queue_inv_def queue_full_iff)
  obtain r q' where p: "queue_push q (Some x) = (r, q')" by fastforce
  from queue_push_cells[OF shape nf p] q p
  show "\<exists>q'. queue_put x q = Some q' \<and> queue_inv q' \<and> queue_list q' = queue_list q @ [x]
      \<and> q_size q' - 1 = q_size q - 1"
    by (auto simp: queue_put_def queue_inv_def queue_list_def)
next
  fix q :: "'a w_queue" and x :: 'a
  assume "queue_inv q" "q_size q - 1 \<le> length (queue_list q)"
  moreover then have "queue_full q"
    using queue_used_less[of q] by (auto simp: queue_inv_def queue_full_iff)
  ultimately show "queue_put x q = None" by (simp add: queue_put_def queue_push_def)
next
  fix q :: "'a w_queue"
  assume "queue_inv q" "queue_list q = []"
  moreover then have "queue_used q = 0" using length_queue_list[of q] by simp
  ultimately have "queue_empty q" by (simp add: queue_inv_def queue_empty_iff)
  then show "queue_take q = None" by (simp add: queue_take_def queue_pop_def)
next
  fix q :: "'a w_queue" and x xs
  assume q: "queue_inv q" and xs: "queue_list q = x # xs"
  then have shape: "queue_shape q" and ne: "\<not> queue_empty q"
    using length_queue_list[of q] by (auto simp: queue_inv_def queue_empty_iff)
  obtain d q' where p: "queue_pop q = (d, q')" by fastforce
  from queue_pop_cells[OF shape ne p] q xs p
  show "\<exists>q'. queue_take q = Some (x, q') \<and> queue_inv q' \<and> queue_list q' = xs
      \<and> q_size q' - 1 = q_size q - 1"
    by (cases d) (auto simp: queue_take_def queue_inv_def queue_list_def)
qed

subsection \<open>Properties of the pointer ring\<close>

lemma queue_push_result:
  assumes "queue_inv q" "queue_push q (Some x) = (r, q')"
  shows "r = (if queue_used q = q_size q - 1 then - 1 else 0)
    \<and> queue_list q' = (if r = 0 then queue_list q @ [x] else queue_list q)
    \<and> queue_inv q' \<and> q_size q' = q_size q"
proof (cases "queue_full q")
  case True
  then have "queue_used q = q_size q - 1" using assms(1) by (auto simp: queue_inv_def queue_full_iff)
  with True assms show ?thesis by (auto simp: queue_push_def)
next
  case False
  have shape: "queue_shape q" using assms(1) by (simp add: queue_inv_def)
  have "queue_used q \<noteq> q_size q - 1"
    using False queue_full_iff[OF shape] queue_used_less[OF shape] by auto
  with queue_push_cells[OF shape False assms(2)] assms(1) show ?thesis
    by (auto simp: queue_inv_def queue_list_def)
qed

lemma queue_pop_result:
  assumes "queue_inv q"
  shows "case queue_list q of
      [] \<Rightarrow> queue_pop q = (None, q)
    | x # xs \<Rightarrow> \<exists>q'. queue_pop q = (Some x, q') \<and> queue_inv q' \<and> queue_list q' = xs
        \<and> q_size q' = q_size q"
proof (cases "queue_empty q")
  case True
  then have "queue_used q = 0" using assms queue_empty_iff[of q] by (simp add: queue_inv_def)
  then have "queue_list q = []" by (simp add: queue_list_def queue_cells_def)
  with True show ?thesis by (simp add: queue_pop_def)
next
  case False
  have shape: "queue_shape q" using assms by (simp add: queue_inv_def)
  obtain d q' where p: "queue_pop q = (d, q')" by fastforce
  from queue_pop_cells[OF shape False p] assms p show ?thesis
    by (cases d) (auto simp: queue_inv_def queue_list_def)
qed

text \<open>
  C10: over any sequence of pushes and pops on a fresh ring of size \<open>n\<close>, the elements accepted are
  exactly the elements delivered followed by those still stored, in order; the ring never holds
  more than \<open>n - 1\<close> elements and its element counter is exact modulo \<open>2\<^sup>3\<^sup>2\<close>.
\<close>

theorem queue_run_fifo:
  assumes "0 < n" and "fifo_run queue_put queue_take ops (queue_init n) = (ins, outs, q)"
  shows "ins = outs @ queue_list q \<and> length (queue_list q) \<le> n - 1
    \<and> q_elements q = of_nat (length (queue_list q)) \<and> queue_inv q"
proof -
  have init: "queue_inv (queue_init n :: 'a w_queue)" "queue_list (queue_init n :: 'a w_queue) = []"
    using queue_init_inv[OF assms(1)] by blast+
  have "length (queue_list (queue_init n :: 'a w_queue)) \<le> q_size (queue_init n :: 'a w_queue) - 1"
    unfolding init by simp
  from rq.run_fifo[OF init(1) this assms(2)] init(2) show ?thesis
    by (auto simp: queue_init_def queue_inv_def queue_shape_def)
qed

theorem queue_run_fifo_witness:
  "fifo_run queue_put queue_take [Push (7::nat), Push 8, Pop, Push 9, Pop, Push 10, Push 11, Push 12]
     (queue_init 4) = ([7, 8, 9, 10, 11], [7, 8],
       \<lparr>q_data = [Some 11, Some 8, Some 9, Some 10], q_begin = 1, q_end = 2, q_size = 4, q_elements = 3\<rparr>)
   \<and> [7, 8, 9, 10, 11] = [7, 8] @ queue_list
       \<lparr>q_data = [Some 11, Some 8, Some 9, Some (10::nat)], q_begin = 1, q_end = 2, q_size = 4, q_elements = 3\<rparr>"
proof -
  have run: "fifo_run queue_put queue_take
      [Push (7::nat), Push 8, Pop, Push 9, Pop, Push 10, Push 11, Push 12] (queue_init 4)
    = ([7, 8, 9, 10, 11], [7, 8],
       \<lparr>q_data = [Some 11, Some 8, Some 9, Some 10], q_begin = 1, q_end = 2, q_size = 4, q_elements = 3\<rparr>)"
    by code_simp
  show ?thesis using run queue_run_fifo[OF _ run] by simp
qed

text \<open>
  The blocking push never fails. It waits exactly while the ring is full, and otherwise
  returns 0 with the element appended; the blocking pop waits exactly while the ring is empty,
  and otherwise returns the oldest element.
\<close>

theorem queue_blocking_ops:
  assumes "queue_inv q"
  shows "(case queue_push_ex_block q (Some x) of
            (Waits q', sg) \<Rightarrow> q' = q \<and> sg = [] \<and> queue_used q = q_size q - 1
          | (Returns r q', sg) \<Rightarrow> r = 0 \<and> queue_inv q' \<and> queue_list q' = queue_list q @ [x]
              \<and> Available \<in> set sg)
       \<and> (case queue_pop_ex q of
            (Waits q', sg) \<Rightarrow> q' = q \<and> sg = [] \<and> queue_list q = []
          | (Returns d q', sg) \<Rightarrow> queue_inv q' \<and> queue_list q = d # queue_list q'
              \<and> Available_not_empty \<in> set sg)"
proof
  have shape: "queue_shape q" using assms by (simp add: queue_inv_def)
  show "case queue_push_ex_block q (Some x) of
            (Waits q', sg) \<Rightarrow> q' = q \<and> sg = [] \<and> queue_used q = q_size q - 1
          | (Returns r q', sg) \<Rightarrow> r = 0 \<and> queue_inv q' \<and> queue_list q' = queue_list q @ [x]
              \<and> Available \<in> set sg"
  proof (cases "queue_full q")
    case True
    then show ?thesis
      using queue_full_iff[OF shape] by (auto simp: queue_push_ex_block_def)
  next
    case False
    obtain r q' where p: "queue_push q (Some x) = (r, q')" by fastforce
    have "queue_used q \<noteq> q_size q - 1"
      using False queue_full_iff[OF shape] queue_used_less[OF shape] by auto
    with queue_push_result[OF assms p] p False show ?thesis
      by (simp add: queue_push_ex_block_def)
  qed
  show "case queue_pop_ex q of
            (Waits q', sg) \<Rightarrow> q' = q \<and> sg = [] \<and> queue_list q = []
          | (Returns d q', sg) \<Rightarrow> queue_inv q' \<and> queue_list q = d # queue_list q'
              \<and> Available_not_empty \<in> set sg"
    using queue_pop_result[OF assms]
    by (cases "queue_list q") (auto simp: queue_pop_ex_def)
qed

theorem queue_blocking_ops_witness:
  "queue_inv (queue_init 2 :: nat w_queue)
   \<and> queue_push_ex_block (queue_init 2) (Some (5::nat))
     = (Returns 0 \<lparr>q_data = [Some 5, None], q_begin = 1, q_end = 0, q_size = 2, q_elements = 1\<rparr>,
        [Available_not_empty, Available])
   \<and> queue_pop_ex (queue_init 2 :: nat w_queue) = (Waits (queue_init 2), [])"
proof -
  have inv: "queue_inv (queue_init 2 :: nat w_queue)" using queue_init_inv[of 2, where 'a = nat] by simp
  have push: "queue_push_ex_block (queue_init 2) (Some (5::nat))
     = (Returns 0 \<lparr>q_data = [Some 5, None], q_begin = 1, q_end = 0, q_size = 2, q_elements = 1\<rparr>,
        [Available_not_empty, Available])"
    by code_simp
  show ?thesis
    using inv push queue_blocking_ops[OF inv, of 5] by (auto simp: queue_pop_ex_def queue_ops queue_init_def)
qed

subsection \<open>Properties of the received-message queue\<close>

lemma rem_push_inv:
  assumes "rem_run_inv outs st" "global_counter st + 1 < 2 ^ 64"
  shows "rem_run_inv outs (snd (rem_msgpush st b sz addr sock))
    \<and> global_counter (snd (rem_msgpush st b sz addr sock)) = global_counter st + 1"
proof -
  let ?m = "\<lparr>msg_buffer = take sz b, msg_size = of_nat sz, msg_addr = addr, msg_sock = sock,
     msg_counter = global_counter st + 1\<rparr>"
  obtain r q' where p: "queue_push (rem_queue st) (Some ?m) = (r, q')" by fastforce
  have inv: "queue_inv (rem_queue st)" using assms(1) by (simp add: rem_run_inv_def)
  note res = queue_push_result[OF inv p]
  have len: "length (queue_list q') = queue_used q'" by simp
  define st' where "st' = snd (rem_msgpush st b sz addr sock)"
  show ?thesis
  proof (cases "r = 0")
    case True
    then have st': "st' = st\<lparr>rem_queue := q', global_counter := global_counter st + 1\<rparr>"
      using p assms(2) by (simp add: st'_def rem_msgpush_def Let_def)
    from True res have lst: "queue_list q' = queue_list (rem_queue st) @ [?m]" "queue_inv q'" by auto
    then have "queue_used q' = Suc (queue_used (rem_queue st))" using len by simp
    with lst assms(1) have "rem_run_inv outs st'"
      unfolding rem_run_inv_def st' by (force simp: sorted_wrt_append)
    with st' show ?thesis by (simp add: st'_def)
  next
    case False
    with res have r: "r = - 1" by presburger
    with p have "q' = rem_queue st" by (auto simp: queue_push_def split: if_splits)
    with r p have st': "st' = st\<lparr>global_counter := global_counter st + 1,
        recv_discarded := recv_discarded st + 1, reported := True\<rparr>"
      using assms(2) by (simp add: st'_def rem_msgpush_def Let_def)
    have "rem_run_inv outs st'"
      using assms(1) unfolding rem_run_inv_def st' by force
    with st' show ?thesis by (simp add: st'_def)
  qed
qed

lemma rem_pop_inv:
  assumes "rem_run_inv outs st" "rem_step Rem_pop (outs, st) = (outs', st')"
  shows "rem_run_inv outs' st' \<and> global_counter st' = global_counter st"
proof -
  have inv: "queue_inv (rem_queue st)" using assms(1) by (simp add: rem_run_inv_def)
  show ?thesis
  proof (cases "queue_list (rem_queue st)")
    case Nil
    with queue_pop_result[OF inv] have "queue_pop (rem_queue st) = (None, rem_queue st)" by simp
    with assms show ?thesis by (simp add: rem_msgpop_def)
  next
    case (Cons m ms)
    with queue_pop_result[OF inv] obtain q' where
      q': "queue_pop (rem_queue st) = (Some m, q')" "queue_inv q'" "queue_list q' = ms" by auto
    have "queue_used (rem_queue st) = Suc (length ms)" "queue_used q' = length ms"
      using length_queue_list[of "rem_queue st"] length_queue_list[of q'] Cons q'(3) by simp_all
    moreover have "outs' = outs @ [m]" "st' = st\<lparr>rem_queue := q'\<rparr>"
      using q'(1) assms(2) by (simp_all add: rem_msgpop_def)
    ultimately show ?thesis using Cons q' assms(1) by (simp add: rem_run_inv_def)
  qed
qed

lemma rem_fold_inv:
  "rem_run_inv outs st \<Longrightarrow> global_counter st + rem_pushes ops < 2 ^ 64 \<Longrightarrow>
   fold rem_step ops (outs, st) = (outs', st') \<Longrightarrow>
   rem_run_inv outs' st' \<and> global_counter st' = global_counter st + rem_pushes ops"
proof (induction ops arbitrary: outs st)
  case Nil
  then show ?case by (simp add: rem_pushes_def)
next
  case (Cons op ops)
  obtain outs1 st1 where step: "rem_step op (outs, st) = (outs1, st1)" by fastforce
  have run: "fold rem_step ops (outs1, st1) = (outs', st')" using Cons.prems(3) step by simp
  show ?case
  proof (cases op)
    case (Rem_push b sz addr sock)
    with rem_push_inv[OF Cons.prems(1), of b sz addr sock] step Cons.prems(2)
    have "rem_run_inv outs1 st1" "global_counter st1 = global_counter st + 1"
      by (auto simp: rem_pushes_def)
    with Cons.IH[OF _ _ run] Cons.prems(2) Rem_push show ?thesis by (simp add: rem_pushes_def)
  next
    case Rem_pop
    with rem_pop_inv[OF Cons.prems(1)] step
    have "rem_run_inv outs1 st1" "global_counter st1 = global_counter st" by auto
    with Cons.IH[OF _ _ run] Cons.prems(2) Rem_pop show ?thesis by (simp add: rem_pushes_def)
  qed
qed



end
