(* ===== verification/Byte_Queue.thy ===== *)
theory Byte_Queue
  imports Prelude
begin

text \<open>
  The binary queue \<^verbatim>\<open>bqueue_t\<close> of \<^verbatim>\<open>src/src/shared/src/bqueue_op.c\<close>: a circular byte buffer that
  grows up to \<^verbatim>\<open>max_length\<close>, shrinks on demand and is freed when it runs empty. The pointers
  \<^verbatim>\<open>head\<close> and \<^verbatim>\<open>tail\<close> are offsets from \<^verbatim>\<open>memory\<close>; a NULL memory is the empty list. A remainder by a
  length of 0 traps on the machine, and is \<open>None\<close> here.
\<close>

unbundle bit_operations_syntax

record bqueue =
  bq_memory :: "byte list"
  bq_head :: nat
  bq_tail :: nat
  bq_length :: nat
  bq_max_length :: nat
  bq_flags :: uint32

definition BQUEUE_WAIT :: uint32 where "BQUEUE_WAIT = 1"
definition BQUEUE_SHRINK :: uint32 where "BQUEUE_SHRINK = 2"

definition bqueue_init :: "nat \<Rightarrow> uint32 \<Rightarrow> bqueue option" where
  "bqueue_init max_length flags =
     (if max_length \<le> 1 then None
      else Some \<lparr>bq_memory = [], bq_head = 0, bq_tail = 0, bq_length = 0,
                 bq_max_length = max_length, bq_flags = flags\<rparr>)"

text \<open>C library calls on a block of memory: \<^verbatim>\<open>memcpy\<close>/\<^verbatim>\<open>memmove\<close> into it and \<^verbatim>\<open>realloc\<close> of it.\<close>

definition mem_write :: "byte list \<Rightarrow> nat \<Rightarrow> byte list \<Rightarrow> byte list" where
  "mem_write m off bs = take off m @ bs @ drop (off + length bs) m"

definition mem_read :: "byte list \<Rightarrow> nat \<Rightarrow> nat \<Rightarrow> byte list" where
  "mem_read m off n = take n (drop off m)"

definition mem_realloc :: "byte list \<Rightarrow> nat \<Rightarrow> byte list" where
  "mem_realloc m n = take n m @ replicate (n - length m) 0"

definition bqueue_used' :: "bqueue \<Rightarrow> nat" where
  "bqueue_used' q =
     (if bq_length q > 0 then (bq_tail q + bq_length q - bq_head q) mod bq_length q else 0)"

definition bqueue_empty' :: "bqueue \<Rightarrow> bool" where
  "bqueue_empty' q \<longleftrightarrow> bq_head q = bq_tail q"

definition bqueue_expand' :: "bqueue \<Rightarrow> nat \<Rightarrow> bqueue" where
  "bqueue_expand' q new_length =
     (let m = mem_realloc (bq_memory q) new_length in
      if bq_tail q < bq_head q then
        (let tail_len = bq_tail q; growth = new_length - bq_length q in
         if tail_len \<le> growth then
           q\<lparr>bq_memory := mem_write m (bq_length q) (mem_read m 0 tail_len),
             bq_tail := (bq_length q + tail_len) mod new_length,
             bq_length := new_length\<rparr>
         else
           (let m1 = mem_write m (bq_length q) (mem_read m 0 growth);
                m2 = mem_write m1 0 (mem_read m1 growth (tail_len - growth))
            in q\<lparr>bq_memory := m2, bq_tail := bq_tail q - growth, bq_length := new_length\<rparr>))
      else q\<lparr>bq_memory := m, bq_length := new_length\<rparr>)"

definition bqueue_shrink' :: "bqueue \<Rightarrow> nat \<Rightarrow> bqueue" where
  "bqueue_shrink' q new_length =
     (let q1 =
       (if bqueue_empty' q then q\<lparr>bq_head := 0, bq_tail := 0\<rparr>
        else
          (let head_len = bq_head q; tail_len = bq_tail q; m = bq_memory q in
           if head_len < tail_len then
             (if new_length \<le> head_len then
                q\<lparr>bq_memory := mem_write m 0 (mem_read m head_len (tail_len - head_len)),
                  bq_head := 0, bq_tail := tail_len - head_len\<rparr>
              else if new_length \<le> tail_len then
                (let chunk_len = tail_len - new_length in
                 q\<lparr>bq_memory := mem_write m 0 (mem_read m (tail_len - chunk_len) chunk_len),
                   bq_tail := chunk_len\<rparr>)
              else q)
           else
             (let new_head = head_len - (bq_length q - new_length) in
              q\<lparr>bq_memory := mem_write m new_head (mem_read m head_len (bq_length q - head_len)),
                bq_head := new_head\<rparr>)))
      in q1\<lparr>bq_memory := mem_realloc (bq_memory q1) new_length, bq_length := new_length\<rparr>)"

definition bqueue_insert' :: "bqueue \<Rightarrow> byte list \<Rightarrow> bqueue" where
  "bqueue_insert' q data =
     (let tail_len = bq_tail q; data_len = length data; m = bq_memory q;
          m' = (if tail_len + data_len \<le> bq_length q then mem_write m tail_len data
                else (let chunk_len = bq_length q - tail_len
                      in mem_write (mem_write m tail_len (take chunk_len data)) 0
                           (drop chunk_len data)))
      in q\<lparr>bq_memory := m', bq_tail := (tail_len + data_len) mod bq_length q\<rparr>)"

text \<open>The bytes copied to the caller's buffer; their number is the C function's result.\<close>

definition bqueue_extract' :: "bqueue \<Rightarrow> nat \<Rightarrow> byte list" where
  "bqueue_extract' q buffer_len =
     (let m = bq_memory q in
      if bq_tail q < bq_head q then
        (let head_len = bq_length q - bq_head q in
         if buffer_len < head_len then mem_read m (bq_head q) buffer_len
         else mem_read m (bq_head q) head_len @ mem_read m 0 (min (buffer_len - head_len) (bq_tail q)))
      else mem_read m (bq_head q) (min buffer_len (bq_tail q - bq_head q)))"

definition bqueue_trim' :: "bqueue \<Rightarrow> bqueue" where
  "bqueue_trim' q = q\<lparr>bq_memory := [], bq_head := 0, bq_tail := 0, bq_length := 0\<rparr>"

definition bqueue_push :: "bqueue \<Rightarrow> byte list \<Rightarrow> uint32 \<Rightarrow> (int, bqueue) outcome" where
  "bqueue_push q data flags =
     (let len = length data; used = bqueue_used' q in
      if len \<ge> bq_max_length q then Returns (- 1) q
      else if size_add len used \<ge> bq_max_length q then
        (if flags AND BQUEUE_WAIT \<noteq> 0 then Waits q else Returns (- 1) q)
      else
        (let q1 = (if size_add len used \<ge> bq_length q
                   then bqueue_expand' q (size_add (size_add len used) 1) else q)
         in Returns 0 (bqueue_insert' q1 data)))"

text \<open>The end of \<^verbatim>\<open>bqueue_pop\<close> and \<^verbatim>\<open>bqueue_drop\<close>: move the head, then trim or shrink.\<close>

definition bqueue_advance :: "bqueue \<Rightarrow> nat \<Rightarrow> bqueue option" where
  "bqueue_advance q n =
     (if bq_length q = 0 then None
      else
        (let q1 = q\<lparr>bq_head := (bq_head q + n) mod bq_length q\<rparr> in
         Some (if bqueue_empty' q1 then bqueue_trim' q1
               else if bq_flags q1 AND BQUEUE_SHRINK \<noteq> 0 \<and> bqueue_used' q1 < bq_length q1 div 2
               then bqueue_shrink' q1 (bq_length q1 div 2)
               else q1)))"

definition bqueue_pop :: "bqueue \<Rightarrow> nat \<Rightarrow> uint32 \<Rightarrow> (byte list, bqueue) outcome option" where
  "bqueue_pop q len flags =
     (if bqueue_empty' q then
        Some (if flags AND BQUEUE_WAIT \<noteq> 0 then Waits q else Returns [] q)
      else
        (let out = bqueue_extract' q len
         in map_option (Returns out) (bqueue_advance q (length out))))"

definition bqueue_peek :: "bqueue \<Rightarrow> nat \<Rightarrow> uint32 \<Rightarrow> (byte list, bqueue) outcome" where
  "bqueue_peek q len flags =
     (if bqueue_empty' q then (if flags AND BQUEUE_WAIT \<noteq> 0 then Waits q else Returns [] q)
      else Returns (bqueue_extract' q len) q)"

definition bqueue_drop :: "bqueue \<Rightarrow> nat \<Rightarrow> (int \<times> bqueue) option" where
  "bqueue_drop q len =
     (if len \<le> bqueue_used' q then map_option (Pair 0) (bqueue_advance q len)
      else Some (- 1, q))"

definition bqueue_used :: "bqueue \<Rightarrow> nat" where
  "bqueue_used q = bqueue_used' q"

definition bqueue_clear :: "bqueue \<Rightarrow> bqueue" where
  "bqueue_clear q = bqueue_trim' q"

subsection \<open>Abstraction and invariant\<close>

definition bq_contents :: "bqueue \<Rightarrow> byte list" where
  "bq_contents q =
     (if bq_head q \<le> bq_tail q then take (bq_tail q - bq_head q) (drop (bq_head q) (bq_memory q))
      else drop (bq_head q) (bq_memory q) @ take (bq_tail q) (bq_memory q))"

text \<open>
  \<^verbatim>\<open>max_length\<close> is a configured limit; below \<open>2\<^sup>6\<^sup>3\<close> the sums of sizes in the code cannot wrap.
\<close>

definition bq_inv :: "bqueue \<Rightarrow> bool" where
  "bq_inv q \<longleftrightarrow> length (bq_memory q) = bq_length q \<and> bq_length q \<le> bq_max_length q
     \<and> 2 \<le> bq_max_length q \<and> bq_max_length q \<le> 2 ^ 63
     \<and> (if bq_length q = 0 then bq_head q = 0 \<and> bq_tail q = 0
        else bq_head q < bq_length q \<and> bq_tail q < bq_length q)"

text \<open>The operations as a client of a byte stream sees them.\<close>

definition bq_put :: "byte list \<Rightarrow> bqueue \<Rightarrow> bqueue option" where
  "bq_put bs q = (case bqueue_push q bs 0 of
       Returns r q' \<Rightarrow> if r = 0 then Some q' else None
     | Waits _ \<Rightarrow> None)"

definition bq_peek :: "nat \<Rightarrow> bqueue \<Rightarrow> byte list" where
  "bq_peek n q = (case bqueue_peek q n 0 of Returns bs _ \<Rightarrow> bs | Waits _ \<Rightarrow> [])"

definition bq_consume :: "nat \<Rightarrow> bqueue \<Rightarrow> bqueue option" where
  "bq_consume n q = (case bqueue_drop q n of
       Some (r, q') \<Rightarrow> if r = 0 then Some q' else None
     | None \<Rightarrow> None)"

lemmas mem_defs = mem_write_def mem_read_def mem_realloc_def

lemma length_mem_write [simp]:
  "off + length bs \<le> length m \<Longrightarrow> length (mem_write m off bs) = length m"
  by (simp add: mem_write_def)

lemma length_mem_realloc [simp]: "length (mem_realloc m n) = n"
  by (simp add: mem_realloc_def min_def)

lemma bq_used_contents: "bq_inv q \<Longrightarrow> bqueue_used' q = length (bq_contents q)"
  using ring_count_le[of "bq_head q" "bq_tail q" "bq_length q"]
    ring_count_gt[of "bq_tail q" "bq_head q" "bq_length q"]
  by (auto simp: bq_inv_def bq_contents_def bqueue_used'_def ring_count_def split: if_splits)

lemma bq_empty_iff: "bq_inv q \<Longrightarrow> bqueue_empty' q \<longleftrightarrow> bq_contents q = []"
  by (auto simp: bq_inv_def bq_contents_def bqueue_empty'_def split: if_splits)

lemma bq_contents_bound: "bq_inv q \<Longrightarrow> length (bq_contents q) < bq_max_length q"
  by (auto simp: bq_inv_def bq_contents_def split: if_splits)

lemma bq_contents_less_length:
  "bq_inv q \<Longrightarrow> 0 < bq_length q \<Longrightarrow> length (bq_contents q) < bq_length q"
  by (auto simp: bq_inv_def bq_contents_def split: if_splits)

lemma bqueue_extract_contents: "bq_inv q \<Longrightarrow> bqueue_extract' q n = take n (bq_contents q)"
  by (auto simp: bq_inv_def bq_contents_def bqueue_extract'_def mem_defs Let_def min_def
      split: if_splits)

lemma bqueue_insert_frame [simp]:
  "bq_head (bqueue_insert' q data) = bq_head q" "bq_length (bqueue_insert' q data) = bq_length q"
  "bq_max_length (bqueue_insert' q data) = bq_max_length q"
  "bq_flags (bqueue_insert' q data) = bq_flags q"
  by (simp_all add: bqueue_insert'_def Let_def)

lemma bqueue_insert_spec:
  assumes inv: "bq_inv q" and room: "length (bq_contents q) + length data < bq_length q"
  shows "bq_inv (bqueue_insert' q data) \<and> bq_contents (bqueue_insert' q data) = bq_contents q @ data"
proof -
  let ?m = "bq_memory q" and ?h = "bq_head q" and ?t = "bq_tail q" and ?l = "bq_length q"
    and ?n = "length data"
  have shape: "length ?m = ?l" "?h < ?l" "?t < ?l" using inv room by (auto simp: bq_inv_def)
  consider (contig) "?h \<le> ?t" "?t + ?n < ?l" | (edge) "?h \<le> ?t" "?t + ?n = ?l"
    | (wrap) "?h \<le> ?t" "?l < ?t + ?n" "?t + ?n - ?l < ?h" | (split) "?t < ?h" "?t + ?n < ?h"
    using room shape
    by (cases "?h \<le> ?t"; cases "?t + ?n" ?l rule: linorder_cases) (auto simp: bq_contents_def)
  then show ?thesis
  proof cases
    case contig
    with shape inv show ?thesis
      by (auto simp: bqueue_insert'_def bq_contents_def bq_inv_def mem_defs Let_def drop_take)
  next
    case edge
    with shape inv room show ?thesis
      by (auto simp: bqueue_insert'_def bq_contents_def bq_inv_def mem_defs Let_def drop_take)
  next
    case wrap
    have "(?t + ?n) mod ?l = ?t + ?n - ?l" using wrap shape by (simp add: mod_if)
    with wrap shape inv show ?thesis
      by (auto simp: bqueue_insert'_def bq_contents_def bq_inv_def mem_defs Let_def drop_take)
  next
    case split
    with shape inv show ?thesis
      by (auto simp: bqueue_insert'_def bq_contents_def bq_inv_def mem_defs Let_def)
  qed
qed

lemma bqueue_expand_frame [simp]:
  "bq_head (bqueue_expand' q n) = bq_head q" "bq_length (bqueue_expand' q n) = n"
  "bq_max_length (bqueue_expand' q n) = bq_max_length q" "bq_flags (bqueue_expand' q n) = bq_flags q"
  by (simp_all add: bqueue_expand'_def Let_def)

lemma bqueue_expand_spec:
  assumes inv: "bq_inv q" and n: "bq_length q < n" "n \<le> bq_max_length q"
  shows "bq_inv (bqueue_expand' q n) \<and> bq_contents (bqueue_expand' q n) = bq_contents q"
proof -
  let ?m = "bq_memory q" and ?h = "bq_head q" and ?t = "bq_tail q" and ?l = "bq_length q"
  have shape: "length ?m = ?l" using inv by (simp add: bq_inv_def)
  consider (contig) "?h \<le> ?t" | (fits) "?t < ?h" "?l + ?t < n" | (edge) "?t < ?h" "?l + ?t = n"
    | (move) "?t < ?h" "n < ?l + ?t" by linarith
  then show ?thesis
  proof cases
    case contig
    with shape inv n show ?thesis
      by (auto simp: bqueue_expand'_def bq_contents_def bq_inv_def mem_realloc_def Let_def split: if_splits)
  next
    case fits
    with shape inv n show ?thesis
      by (auto simp: bqueue_expand'_def bq_contents_def bq_inv_def mem_defs Let_def split: if_splits)
  next
    case edge
    with shape inv n show ?thesis
      by (auto simp: bqueue_expand'_def bq_contents_def bq_inv_def mem_defs Let_def split: if_splits)
  next
    case move
    define g where "g = n - ?l"
    have g: "0 < g" "g < ?t" "?t < ?l" "?h < ?l" "n = ?l + g"
      using move n inv by (auto simp: g_def bq_inv_def split: if_splits)
    let ?m1 = "?m @ take g ?m"
    let ?m2 = "take (?t - g) (drop g ?m) @ drop (?t - g) ?m1"
    have m1: "mem_write (mem_realloc ?m n) ?l (mem_read (mem_realloc ?m n) 0 g) = ?m1"
      using shape g by (simp add: mem_defs)
    have m2: "mem_write ?m1 0 (mem_read ?m1 g (?t - g)) = ?m2"
      using shape g by (simp add: mem_defs)
    define m' where "m' = ?m2"
    have q': "bqueue_expand' q n = q\<lparr>bq_memory := m', bq_tail := ?t - g, bq_length := n\<rparr>"
      using move g m1 m2 by (simp add: bqueue_expand'_def Let_def m'_def flip: g_def)
    have len: "length m' = n" using g shape by (simp add: m'_def)
    have "drop ?h m' = drop ?h ?m @ take g ?m" using move g shape by (simp add: m'_def)
    moreover have "take (?t - g) m' = take (?t - g) (drop g ?m)" using g shape by (simp add: m'_def)
    moreover have "take g ?m @ take (?t - g) (drop g ?m) = take ?t ?m" using g by (intro take_join) simp
    moreover have "\<not> ?h \<le> ?t - g" using move by simp
    ultimately have "bq_contents (bqueue_expand' q n) = bq_contents q"
      using move g(1-4) by (simp add: q' bq_contents_def)
    moreover have "bq_inv (bqueue_expand' q n)"
      unfolding q' using inv n(2) g len by (simp add: bq_inv_def)
    ultimately show ?thesis by simp
  qed
qed

lemma bqueue_shrink_frame [simp]:
  "bq_length (bqueue_shrink' q n) = n" "bq_max_length (bqueue_shrink' q n) = bq_max_length q"
  "bq_flags (bqueue_shrink' q n) = bq_flags q"
  by (simp_all add: bqueue_shrink'_def Let_def)

lemma bqueue_shrink_spec:
  assumes inv: "bq_inv q" and n: "length (bq_contents q) < n" "n \<le> bq_length q"
  shows "bq_inv (bqueue_shrink' q n) \<and> bq_contents (bqueue_shrink' q n) = bq_contents q"
proof -
  let ?m = "bq_memory q" and ?h = "bq_head q" and ?t = "bq_tail q" and ?l = "bq_length q"
  have shape: "length ?m = ?l" "?h < ?l" "?t < ?l" using inv n by (auto simp: bq_inv_def split: if_splits)
  consider (empty) "?h = ?t" | (right) "?h < ?t" "n \<le> ?h" | (cut) "?h < ?t" "?h < n" "n \<le> ?t"
    | (left) "?h < ?t" "?t < n" | (split) "?t < ?h" by linarith
  then show ?thesis
  proof cases
    case empty
    with shape inv n show ?thesis
      by (auto simp: bqueue_shrink'_def bqueue_empty'_def bq_contents_def bq_inv_def mem_defs Let_def)
  next
    case right
    with shape inv n show ?thesis
      by (auto simp: bqueue_shrink'_def bqueue_empty'_def bq_contents_def bq_inv_def mem_defs Let_def)
  next
    case cut
    have "?t - n < ?h" using n cut shape by (auto simp: bq_contents_def)
    with cut shape inv n slice_join[of ?h n ?t ?m] show ?thesis
      by (auto simp: bqueue_shrink'_def bqueue_empty'_def bq_contents_def bq_inv_def mem_defs Let_def
          drop_take)
  next
    case left
    with shape inv n show ?thesis
      by (auto simp: bqueue_shrink'_def bqueue_empty'_def bq_contents_def bq_inv_def mem_defs Let_def
          drop_take min_def)
  next
    case split
    with shape inv n show ?thesis
      by (auto simp: bqueue_shrink'_def bqueue_empty'_def bq_contents_def bq_inv_def mem_defs Let_def)
  qed
qed

lemma bqueue_trim_spec:
  "bq_inv q \<Longrightarrow> bq_inv (bqueue_trim' q) \<and> bq_contents (bqueue_trim' q) = []
    \<and> bq_max_length (bqueue_trim' q) = bq_max_length q"
  by (simp add: bqueue_trim'_def bq_inv_def bq_contents_def)

text \<open>Moving the head by \<open>n\<close> stored bytes drops exactly these bytes.\<close>

lemma bq_move_head:
  assumes inv: "bq_inv q" and n: "n \<le> length (bq_contents q)" and l: "0 < bq_length q"
  shows "bq_inv (q\<lparr>bq_head := (bq_head q + n) mod bq_length q\<rparr>)
    \<and> bq_contents (q\<lparr>bq_head := (bq_head q + n) mod bq_length q\<rparr>) = drop n (bq_contents q)"
proof -
  let ?m = "bq_memory q" and ?h = "bq_head q" and ?t = "bq_tail q" and ?l = "bq_length q"
  have shape: "length ?m = ?l" "?h < ?l" "?t < ?l" using inv l by (auto simp: bq_inv_def)
  consider (contig) "?h \<le> ?t" "?h + n \<le> ?t" | (stay) "?t < ?h" "?h + n < ?l"
    | (wrap) "?t < ?h" "?l \<le> ?h + n" "?h + n - ?l \<le> ?t"
    using n shape by (cases "?h \<le> ?t"; cases "?h + n < ?l") (auto simp: bq_contents_def)
  then show ?thesis
  proof cases
    case contig
    with shape inv show ?thesis by (auto simp: bq_contents_def bq_inv_def drop_take add.commute)
  next
    case stay
    with shape inv show ?thesis by (auto simp: bq_contents_def bq_inv_def add.commute)
  next
    case wrap
    have "(?h + n) mod ?l = ?h + n - ?l" using wrap shape by (simp add: mod_if)
    with wrap shape inv show ?thesis
      by (auto simp: bq_contents_def bq_inv_def drop_take add.commute)
  qed
qed

lemma bqueue_advance_spec:
  assumes inv: "bq_inv q" and n: "n \<le> length (bq_contents q)" and l: "0 < bq_length q"
  shows "\<exists>q'. bqueue_advance q n = Some q' \<and> bq_inv q' \<and> bq_contents q' = drop n (bq_contents q)
    \<and> bq_max_length q' = bq_max_length q"
proof -
  define q1 where "q1 = q\<lparr>bq_head := (bq_head q + n) mod bq_length q\<rparr>"
  have q1: "bq_inv q1" "bq_contents q1 = drop n (bq_contents q)" "bq_max_length q1 = bq_max_length q"
    using bq_move_head[OF inv n l] by (simp_all add: q1_def)
  consider (empty) "bqueue_empty' q1"
    | (shrink) "\<not> bqueue_empty' q1" "bq_flags q1 AND BQUEUE_SHRINK \<noteq> 0" "bqueue_used' q1 < bq_length q1 div 2"
    | (keep) "\<not> bqueue_empty' q1" "\<not> (bq_flags q1 AND BQUEUE_SHRINK \<noteq> 0 \<and> bqueue_used' q1 < bq_length q1 div 2)"
    by blast
  then show ?thesis
  proof cases
    case empty
    then have "bqueue_advance q n = Some (bqueue_trim' q1)"
      using l by (simp add: bqueue_advance_def Let_def q1_def)
    moreover have "bq_contents q1 = []" using empty bq_empty_iff[OF q1(1)] by simp
    ultimately show ?thesis using bqueue_trim_spec[OF q1(1)] q1 by auto
  next
    case shrink
    then have "bqueue_advance q n = Some (bqueue_shrink' q1 (bq_length q1 div 2))"
      using l by (simp add: bqueue_advance_def Let_def q1_def)
    moreover have "length (bq_contents q1) < bq_length q1 div 2"
      using shrink(3) bq_used_contents[OF q1(1)] by simp
    ultimately show ?thesis using bqueue_shrink_spec[OF q1(1)] q1 by auto
  next
    case keep
    then have "bqueue_advance q n = Some q1"
      using l by (auto simp: bqueue_advance_def Let_def q1_def)
    then show ?thesis using q1 by auto
  qed
qed

lemma bq_no_wrap:
  assumes "bq_inv q" "length data < bq_max_length q"
  shows "size_add (length data) (bqueue_used' q) = length data + length (bq_contents q)"
    and "length data + length (bq_contents q) < bq_max_length q \<Longrightarrow>
      size_add (length data + length (bq_contents q)) 1 = length data + length (bq_contents q) + 1"
  using assms bq_contents_bound[OF assms(1)] bq_used_contents[OF assms(1)]
  by (auto simp: bq_inv_def)

lemma bqueue_push_fits:
  assumes inv: "bq_inv q" and fits: "length data + length (bq_contents q) < bq_max_length q"
  shows "\<exists>q'. bqueue_push q data flags = Returns 0 q' \<and> bq_inv q'
    \<and> bq_contents q' = bq_contents q @ data \<and> bq_max_length q' = bq_max_length q"
proof -
  let ?n = "length data + length (bq_contents q)"
  define q1 where "q1 = (if ?n \<ge> bq_length q then bqueue_expand' q (?n + 1) else q)"
  have "length data < bq_max_length q" using fits by simp
  note nw = bq_no_wrap[OF inv this]
  have push: "bqueue_push q data flags = Returns 0 (bqueue_insert' q1 data)"
    using fits nw by (simp add: bqueue_push_def Let_def q1_def)
  have q1: "bq_inv q1 \<and> bq_contents q1 = bq_contents q \<and> bq_max_length q1 = bq_max_length q
      \<and> ?n < bq_length q1"
  proof (cases "?n \<ge> bq_length q")
    case True
    then show ?thesis using bqueue_expand_spec[OF inv, of "?n + 1"] fits by (simp add: q1_def)
  next
    case False
    then show ?thesis using inv by (simp add: q1_def)
  qed
  then have "length (bq_contents q1) + length data < bq_length q1" by (simp add: add.commute)
  from bqueue_insert_spec[OF _ this] q1 push show ?thesis by simp
qed

lemma bqueue_push_refused:
  assumes inv: "bq_inv q" and full: "bq_max_length q \<le> length data + length (bq_contents q)"
  shows "bqueue_push q data flags =
    (if length data < bq_max_length q \<and> flags AND BQUEUE_WAIT \<noteq> 0 then Waits q else Returns (- 1) q)"
proof (cases "length data < bq_max_length q")
  case True
  then show ?thesis using bq_no_wrap(1)[OF inv True] full by (simp add: bqueue_push_def Let_def)
qed (simp add: bqueue_push_def Let_def)

lemma bqueue_init_inv:
  "2 \<le> n \<Longrightarrow> n \<le> 2 ^ 63 \<Longrightarrow> bqueue_init n fl = Some q \<Longrightarrow>
    bq_inv q \<and> bq_contents q = [] \<and> bq_max_length q = n"
  by (auto simp: bqueue_init_def bq_inv_def bq_contents_def)

lemma bq_length_pos: "bq_inv q \<Longrightarrow> bq_contents q \<noteq> [] \<Longrightarrow> 0 < bq_length q"
  by (auto simp: bq_inv_def bq_contents_def split: if_splits)

lemma bqueue_drop_spec:
  assumes inv: "bq_inv q" and l: "0 < bq_length q" and n: "n \<le> length (bq_contents q)"
  shows "\<exists>q'. bqueue_drop q n = Some (0, q') \<and> bq_inv q' \<and> bq_contents q' = drop n (bq_contents q)
    \<and> bq_max_length q' = bq_max_length q"
  using bqueue_advance_spec[OF inv n l] n bq_used_contents[OF inv] by (auto simp: bqueue_drop_def)

interpretation bqs: byte_stream bq_put bq_peek bq_consume bq_contents bq_max_length bq_inv
proof unfold_locales
  fix q :: bqueue and bs :: "byte list"
  assume "bq_inv q" "length bs + length (bq_contents q) < bq_max_length q"
  from bqueue_push_fits[OF this, of 0]
  show "\<exists>q'. bq_put bs q = Some q' \<and> bq_inv q' \<and> bq_contents q' = bq_contents q @ bs
      \<and> bq_max_length q' = bq_max_length q"
    by (auto simp: bq_put_def)
next
  fix q :: bqueue and bs :: "byte list"
  assume "bq_inv q" "bq_max_length q \<le> length bs + length (bq_contents q)"
  from bqueue_push_refused[OF this, of 0] show "bq_put bs q = None" by (simp add: bq_put_def)
next
  fix q n
  assume "bq_inv q"
  then show "bq_peek n q = take n (bq_contents q)"
    by (auto simp: bq_peek_def bqueue_peek_def bqueue_extract_contents bq_empty_iff)
next
  fix q n
  assume q: "bq_inv q" "0 < n" "n \<le> length (bq_contents q)"
  then have "0 < bq_length q" using bq_length_pos[of q] by (cases "bq_contents q") auto
  from bqueue_drop_spec[OF q(1) this q(3)]
  show "\<exists>q'. bq_consume n q = Some q' \<and> bq_inv q' \<and> bq_contents q' = drop n (bq_contents q)
      \<and> bq_max_length q' = bq_max_length q"
    by (auto simp: bq_consume_def)
qed

subsection \<open>Properties\<close>

text \<open>
  C12: whatever sequence of pushes, peeks and drops a queue goes through, with the buffer growing,
  wrapping, shrinking and being freed in between, the bytes taken out followed by those stored
  are exactly the blocks accepted, in order, and fewer than \<open>max_length\<close> bytes are stored.
\<close>

theorem bqueue_run_stream:
  assumes "n \<le> 2 ^ 63" and "bqueue_init n fl = Some q"
    and "stream_run bq_put bq_peek bq_consume ops q = (ins, outs, q')"
  shows "concat ins = outs @ bq_contents q' \<and> bqueue_used q' = length (bq_contents q')
    \<and> bqueue_used q' < n"
proof -
  have "2 \<le> n" using assms(2) by (auto simp: bqueue_init_def split: if_splits)
  from bqueue_init_inv[OF this assms(1,2)]
  have q: "bq_inv q" "bq_contents q = []" "bq_max_length q = n" by auto
  from bqs.run_stream[OF q(1) assms(3)] q bq_contents_bound[of q'] bq_used_contents[of q']
  show ?thesis by (simp add: bqueue_used_def)
qed

definition bq_demo_ops :: "stream_op list" where
  "bq_demo_ops = [Put [1, 2, 3, 4, 5, 6], Transmit 4 4, Put [7, 8, 9], Put [10, 11, 12], Transmit 8 3,
     Put [13, 14, 15, 16, 17], Transmit 5 9]"

theorem bqueue_run_stream_witness:
  "(let q = the (bqueue_init 10 BQUEUE_SHRINK);
        r = stream_run bq_put bq_peek bq_consume bq_demo_ops q
    in fst r = [[1, 2, 3, 4, 5, 6], [7, 8, 9], [10, 11, 12]]
       \<and> concat (fst r) = fst (snd r) @ bq_contents (snd (snd r)) \<and> bqueue_used (snd (snd r)) < 10)"
proof -
  obtain q where q: "bqueue_init 10 BQUEUE_SHRINK = Some q" by (simp add: bqueue_init_def)
  obtain ins outs q' where r: "stream_run bq_put bq_peek bq_consume bq_demo_ops q = (ins, outs, q')"
    by (metis prod_cases3)
  have "fst (stream_run bq_put bq_peek bq_consume bq_demo_ops (the (bqueue_init 10 BQUEUE_SHRINK)))
      = [[1, 2, 3, 4, 5, 6], [7, 8, 9], [10, 11, 12]]"
    by code_simp
  with q r bqueue_run_stream[OF _ q r] show ?thesis by simp
qed

text \<open>
  A push stores the whole block and returns 0 exactly when the block and the stored bytes
  together stay below \<open>max_length\<close>; otherwise it stores nothing, and it waits only if waiting was
  asked for and the block could ever fit.
\<close>

theorem bqueue_push_cases:
  assumes "bq_inv q"
  shows "case bqueue_push q data flags of
      Returns r q' \<Rightarrow>
        (if length data + length (bq_contents q) < bq_max_length q
         then r = 0 \<and> bq_contents q' = bq_contents q @ data else r = - 1 \<and> q' = q) \<and> bq_inv q'
    | Waits q' \<Rightarrow> q' = q \<and> flags AND BQUEUE_WAIT \<noteq> 0 \<and> length data < bq_max_length q
        \<and> bq_max_length q \<le> length data + length (bq_contents q)"
proof (cases "length data + length (bq_contents q) < bq_max_length q")
  case True
  with bqueue_push_fits[OF assms True, of flags] show ?thesis by auto
next
  case False
  with bqueue_push_refused[OF assms, of data flags] assms show ?thesis by auto
qed

definition bq_demo :: bqueue where
  "bq_demo = \<lparr>bq_memory = [10, 11, 12, 13], bq_head = 3, bq_tail = 1, bq_length = 4,
     bq_max_length = 5, bq_flags = 0\<rparr>"

theorem bqueue_push_cases_witness:
  "bq_inv bq_demo \<and> bq_contents bq_demo = [13, 10]
   \<and> bqueue_push bq_demo [20, 21] 0
     = Returns 0 \<lparr>bq_memory = [20, 21, 12, 13, 10], bq_head = 3, bq_tail = 2, bq_length = 5,
         bq_max_length = 5, bq_flags = 0\<rparr>
   \<and> bqueue_push bq_demo [20, 21, 22] BQUEUE_WAIT = Waits bq_demo"
proof -
  have inv: "bq_inv bq_demo" by (simp add: bq_inv_def bq_demo_def)
  have c: "bq_contents bq_demo = [13, 10]" by (simp add: bq_demo_def bq_contents_def)
  have p: "bqueue_push bq_demo [20, 21] 0 = Returns 0 \<lparr>bq_memory = [20, 21, 12, 13, 10], bq_head = 3,
      bq_tail = 2, bq_length = 5, bq_max_length = 5, bq_flags = 0\<rparr>" by code_simp
  have "bqueue_push bq_demo [20, 21, 22] BQUEUE_WAIT = Waits bq_demo"
    using bqueue_push_cases[OF inv, of "[20, 21, 22]" BQUEUE_WAIT] c
    by (simp add: bqueue_push_def bqueue_used'_def bq_demo_def BQUEUE_WAIT_def Let_def)
  with inv c p show ?thesis by simp
qed

text \<open>
  A pop on a well-formed queue never divides by zero; it returns the first \<open>n\<close> stored bytes (all
  of them if fewer) and leaves the rest, or, on an empty queue, returns nothing or waits.
\<close>

theorem bqueue_pop_correct:
  assumes "bq_inv q"
  shows "\<exists>r. bqueue_pop q n flags = Some r \<and> (case r of
      Returns bs q' \<Rightarrow> bs = take n (bq_contents q) \<and> bq_contents q' = drop n (bq_contents q) \<and> bq_inv q'
    | Waits q' \<Rightarrow> q' = q \<and> bq_contents q = [] \<and> flags AND BQUEUE_WAIT \<noteq> 0)"
proof (cases "bq_contents q = []")
  case True
  with assms show ?thesis by (auto simp: bqueue_pop_def bq_empty_iff)
next
  case False
  let ?out = "take n (bq_contents q)"
  have "length ?out \<le> length (bq_contents q)" by simp
  from bqueue_advance_spec[OF assms this bq_length_pos[OF assms False]] False assms
  show ?thesis by (auto simp: bqueue_pop_def bq_empty_iff bqueue_extract_contents Let_def min_def)
qed

theorem bqueue_pop_correct_witness:
  "bq_inv bq_demo \<and> (\<exists>q'. bqueue_pop bq_demo 1 0 = Some (Returns [13] q') \<and> bq_contents q' = [10])"
proof -
  have inv: "bq_inv bq_demo" by (simp add: bq_inv_def bq_demo_def)
  have c: "bq_contents bq_demo = [13, 10]" by (simp add: bq_demo_def bq_contents_def)
  obtain r where r: "bqueue_pop bq_demo 1 0 = Some r" "case r of
      Returns bs q' \<Rightarrow> bs = take 1 (bq_contents bq_demo) \<and> bq_contents q' = drop 1 (bq_contents bq_demo) \<and> bq_inv q'
    | Waits q' \<Rightarrow> q' = bq_demo \<and> bq_contents bq_demo = [] \<and> 0 AND BQUEUE_WAIT \<noteq> 0"
    using bqueue_pop_correct[OF inv, of 1 0] by blast
  with inv c show ?thesis by (cases r) auto
qed

text \<open>
  C13: \<^verbatim>\<open>bqueue_drop\<close> divides by zero exactly when it is asked to drop 0 bytes of a queue that has no
  memory (a fresh queue, or one that ran empty). In every other case it drops the first \<open>n\<close> bytes
  if that many are stored, and refuses otherwise.
\<close>

theorem bqueue_drop_cases:
  assumes "bq_inv q"
  shows "(bqueue_drop q n = None \<longleftrightarrow> n = 0 \<and> bq_length q = 0)
    \<and> (\<forall>r q'. bqueue_drop q n = Some (r, q') \<longrightarrow> bq_inv q' \<and>
         (if n \<le> length (bq_contents q) then r = 0 \<and> bq_contents q' = drop n (bq_contents q)
          else r = - 1 \<and> q' = q))"
proof (cases "0 < bq_length q \<and> n \<le> length (bq_contents q)")
  case True
  then obtain q' where "bqueue_drop q n = Some (0, q')" "bq_inv q'"
      "bq_contents q' = drop n (bq_contents q)"
    using bqueue_drop_spec[OF assms, of n] by blast
  with True show ?thesis by simp
next
  case False
  have "bq_length q = 0 \<Longrightarrow> bq_contents q = []" using bq_length_pos[OF assms] by auto
  with False assms bq_used_contents[OF assms] show ?thesis
    by (auto simp: bqueue_drop_def bqueue_advance_def)
qed

theorem bqueue_drop_cases_witness:
  "(let q = the (bqueue_init 16 0) in bq_inv q \<and> bqueue_drop q 0 = None \<and> bqueue_drop q 1 = Some (- 1, q))"
proof -
  obtain q where q: "bqueue_init 16 0 = Some q" by (simp add: bqueue_init_def)
  have inv: "bq_inv q" and len: "bq_length q = 0"
    using bqueue_init_inv[OF _ _ q] q by (auto simp: bqueue_init_def)
  have "bqueue_drop q 0 = None" using bqueue_drop_cases[OF inv, of 0] len by simp
  moreover have "bqueue_drop q 1 = Some (- 1, q)"
    using bqueue_init_inv[OF _ _ q] bq_used_contents[OF inv] by (simp add: bqueue_drop_def)
  ultimately show ?thesis using q inv by simp
qed

end
