(* ===== verification/Net_Frame.thy ===== *)
theory Net_Frame
  imports Prelude
begin

text \<open>
  The message framing shared by agent and manager (\<^verbatim>\<open>src/src/shared/os_net/os_net.c\<close>): a 4-byte
  little-endian length followed by the payload. The host's byte order is a parameter (\<open>big\<close>), as it
  is a compile-time switch of the code; a socket to read from is the list of segments the network
  delivers, then the final result of \<^verbatim>\<open>recv\<close> (0 for a closed connection, -1 for an error).
\<close>

unbundle bit_operations_syntax

definition wnet_order :: "bool \<Rightarrow> uint32 \<Rightarrow> uint32" where
  "wnet_order big v =
     (if big then drop_bit 24 v OR push_bit 24 v OR drop_bit 8 (v AND 0xFF0000)
        OR push_bit 8 (v AND 0xFF00)
      else v)"

definition wnet_order_big :: "bool \<Rightarrow> uint32 \<Rightarrow> uint32" where
  "wnet_order_big big v =
     (if big then v
      else drop_bit 24 v OR push_bit 24 v OR drop_bit 8 (v AND 0xFF0000)
        OR push_bit 8 (v AND 0xFF00))"

text \<open>How the host reads and writes a \<^verbatim>\<open>uint32_t\<close> object at an address.\<close>

definition load_le :: "byte list \<Rightarrow> uint32" where
  "load_le bs = ucast (bs ! 0) OR push_bit 8 (ucast (bs ! 1)) OR push_bit 16 (ucast (bs ! 2))
     OR push_bit 24 (ucast (bs ! 3))"

definition load32 :: "bool \<Rightarrow> byte list \<Rightarrow> uint32" where
  "load32 big bs = load_le (if big then rev (take 4 bs) else bs)"

definition store_le :: "uint32 \<Rightarrow> byte list" where
  "store_le v = [ucast v, ucast (drop_bit 8 v), ucast (drop_bit 16 v), ucast (drop_bit 24 v)]"

definition store32 :: "bool \<Rightarrow> uint32 \<Rightarrow> byte list" where
  "store32 big v = (if big then rev (store_le v) else store_le v)"

definition OS_SOCKTERR :: int where "OS_SOCKTERR = - 6"

text \<open>\<open>net_send\<close> is the result of the \<^verbatim>\<open>send\<close> call on the whole buffer.\<close>

definition OS_SendSecureTCP ::
    "bool \<Rightarrow> (byte list \<Rightarrow> int) \<Rightarrow> int \<Rightarrow> uint32 \<Rightarrow> byte list \<Rightarrow> int \<times> byte list" where
  "OS_SendSecureTCP big net_send sock sz msg =
     (if sock < 0 then (OS_SOCKTERR, [])
      else
        (let buf = store32 big (wnet_order big sz) @ take (unat sz) msg;
             n = net_send buf
         in (if n = int (length buf) then 0 else OS_SOCKTERR, take (nat n) buf)))"

record sock_in =
  segments :: "byte list list"
  fin :: int

text \<open>One \<^verbatim>\<open>recv\<close> of at most \<open>n\<close> bytes: data of the first segment, or the final result.\<close>

fun net_recv :: "nat \<Rightarrow> byte list list \<Rightarrow> byte list \<times> byte list list" where
  "net_recv n [] = ([], [])"
| "net_recv n (s # ss) =
     (if s = [] then net_recv n ss
      else if length s \<le> n then (s, ss) else (take n s, drop n s # ss))"

lemma net_recv_smaller:
  "net_recv n ss = (c, ss') \<Longrightarrow> 0 < n \<Longrightarrow> c \<noteq> [] \<Longrightarrow>
   length c \<le> n \<and> concat ss = c @ concat ss' \<and> length (concat ss') < length (concat ss)"
  by (induction n ss rule: net_recv.induct) (auto split: if_splits)

function os_recv_waitall :: "sock_in \<Rightarrow> nat \<Rightarrow> byte list \<Rightarrow> int \<times> byte list \<times> sock_in" where
  "os_recv_waitall s sz buf =
     (if length buf < sz then
        (case net_recv (sz - length buf) (segments s) of (c, ss) \<Rightarrow>
           if c = [] then (fin s, buf, s\<lparr>segments := ss\<rparr>)
           else os_recv_waitall (s\<lparr>segments := ss\<rparr>) sz (buf @ c))
      else (int (length buf), buf, s))"
  by pat_completeness auto
termination
  by (relation "measure (\<lambda>(s, sz, buf). length (concat (segments s)))")
    (auto simp del: length_concat dest!: net_recv_smaller[OF sym])

declare os_recv_waitall.simps [simp del]

text \<open>The result, the payload written to \<open>ret\<close> and the rest of the socket.\<close>

declare os_recv_waitall.simps [simp del]

definition OS_RecvSecureTCP :: "bool \<Rightarrow> sock_in \<Rightarrow> uint32 \<Rightarrow> int \<times> byte list \<times> sock_in" where
  "OS_RecvSecureTCP big s sz =
     (case os_recv_waitall s 4 [] of (recvval, hdr, s1) \<Rightarrow>
        if recvval = - 1 \<or> recvval = 0 then (recvval, [], s1)
        else
          (let msgsize = wnet_order big (load32 big hdr) in
           if msgsize > sz then (OS_SOCKTERR, [], s1)
           else os_recv_waitall s1 (unat msgsize) []))"

text \<open>A frame as it travels: the same bytes on every host.\<close>

definition frame :: "byte list \<Rightarrow> byte list" where
  "frame msg = store_le (of_nat (length msg)) @ msg"

subsection \<open>Byte order\<close>

lemma length_store_le [simp]: "length (store_le v) = 4"
  by (simp add: store_le_def)

lemma load_le4:
  "load_le (a # b # c # d # rest) =
     ucast a OR push_bit 8 (ucast b) OR push_bit 16 (ucast c) OR push_bit 24 (ucast d)"
  by (simp add: load_le_def)

lemma byte_cases:
  assumes "(n::nat) < 32" "n < 8 \<Longrightarrow> P" "8 \<le> n \<Longrightarrow> n < 16 \<Longrightarrow> P" "16 \<le> n \<Longrightarrow> n < 24 \<Longrightarrow> P"
    "24 \<le> n \<Longrightarrow> n < 32 \<Longrightarrow> P"
  shows P
  using assms by linarith

lemma bit_mask_2: "bit (0xFF0000::int) n \<longleftrightarrow> 16 \<le> n \<and> n < 24"
proof -
  have eq: "(0xFF0000::int) = push_bit 16 (mask 8)" by (simp add: mask_numeral)
  show ?thesis unfolding eq by (auto simp: bit_simps)
qed

lemma bit_mask_1: "bit (0xFF00::int) n \<longleftrightarrow> 8 \<le> n \<and> n < 16"
proof -
  have eq: "(0xFF00::int) = push_bit 8 (mask 8)" by (simp add: mask_numeral)
  show ?thesis unfolding eq by (auto simp: bit_simps)
qed

lemma bit_byte_out: "8 \<le> n \<Longrightarrow> \<not> bit (a :: byte) n"
  using bit_imp_le_length[of a n] by auto

lemmas byte_bits = load_le4 bit_simps bit_mask_1 bit_mask_2 bit_byte_out

lemma bit_load_le:
  "n < 32 \<Longrightarrow> bit (load_le (a # b # c # d # rest)) n =
     (if n < 8 then bit a n else if n < 16 then bit b (n - 8)
      else if n < 24 then bit c (n - 16) else bit d (n - 24))"
  by (erule byte_cases) (auto simp: byte_bits)

lemma bit_wnet_order:
  "n < 32 \<Longrightarrow> bit (wnet_order True v) n =
     (if n < 8 then bit v (n + 24) else if n < 16 then bit v (n + 8)
      else if n < 24 then bit v (n - 8) else bit v (n - 24))"
  using bit_imp_le_length[of v "n + 24"] bit_imp_le_length[of v "n + 8"]
  by (auto simp: wnet_order_def bit_simps bit_mask_1 bit_mask_2 add.commute)

lemma load_store_le [simp]: "load_le (store_le v @ rest) = v"
  by (rule bit_word_eqI) (auto simp: store_le_def bit_load_le bit_simps)

lemma store_load_le: "store_le (load_le [a, b, c, d]) = [a, b, c, d]"
  by (auto simp: store_le_def bit_simps bit_load_le intro!: bit_word_eqI)

lemma wnet_swap_load: "wnet_order True (load_le [a, b, c, d]) = load_le [d, c, b, a]"
proof (rule bit_word_eqI)
  fix n assume "n < LENGTH(32)"
  then have "n < 32" by simp
  then show "bit (wnet_order True (load_le [a, b, c, d])) n = bit (load_le [d, c, b, a]) n"
    by (rule byte_cases) (auto simp: bit_wnet_order bit_load_le diff_diff_add)
qed

lemma wnet_order_little: "wnet_order False v = v"
  by (simp add: wnet_order_def)

lemma four_bytes:
  assumes "4 \<le> length (bs :: byte list)"
  obtains a b c d rest where "bs = a # b # c # d # rest"
proof -
  have "Suc (Suc (Suc (Suc 0))) \<le> length bs" using assms by simp
  then show thesis by (auto simp: Suc_le_length_iff intro: that)
qed

lemma load_le_append: "4 \<le> length bs \<Longrightarrow> load_le (bs @ cs) = load_le bs"
  by (erule four_bytes) (simp add: load_le4)

text \<open>The header a host reads or writes does not depend on its byte order.\<close>

lemma header_read: "4 \<le> length bs \<Longrightarrow> wnet_order big (load32 big bs) = load_le bs"
  by (erule four_bytes, cases big)
    (simp_all add: load32_def wnet_swap_load wnet_order_little, simp add: load_le4)

lemma header_write: "store32 big (wnet_order big v) = store_le v"
proof -
  obtain a b c d where v: "store_le v = [a, b, c, d]" by (simp add: store_le_def)
  then have "v = load_le [a, b, c, d]" using load_store_le[of v "[]"] by simp
  then show ?thesis
    using v by (cases big) (simp_all add: store32_def wnet_swap_load store_load_le wnet_order_little)
qed

subsection \<open>Reading exactly \<open>sz\<close> bytes\<close>

lemma net_recv_empty: "net_recv n ss = ([], ss') \<Longrightarrow> 0 < n \<Longrightarrow> concat ss = []"
  by (induction n ss rule: net_recv.induct) (auto split: if_splits)

lemma os_recv_waitall_enough:
  "length buf \<le> sz \<Longrightarrow> sz \<le> length buf + length (concat (segments s)) \<Longrightarrow>
   \<exists>s'. os_recv_waitall s sz buf
       = (int sz, buf @ take (sz - length buf) (concat (segments s)), s')
     \<and> concat (segments s') = drop (sz - length buf) (concat (segments s)) \<and> fin s' = fin s"
proof (induction s sz buf rule: os_recv_waitall.induct)
  case (1 s sz buf)
  show ?case
  proof (cases "length buf < sz")
    case False
    with "1.prems" have "length buf = sz" by simp
    then show ?thesis by (subst os_recv_waitall.simps) simp
  next
    case True
    obtain c ss where r: "net_recv (sz - length buf) (segments s) = (c, ss)" by fastforce
    have ne: "c \<noteq> []"
    proof
      assume "c = []"
      with r have "net_recv (sz - length buf) (segments s) = ([], ss)" by simp
      from net_recv_empty[OF this] True have "length (concat (segments s)) = 0" by simp
      with True "1.prems"(2) show False by linarith
    qed
    from net_recv_smaller[OF r _ ne] True
    have c: "length c \<le> sz - length buf" "concat (segments s) = c @ concat ss" by auto
    have eq: "os_recv_waitall s sz buf = os_recv_waitall (s\<lparr>segments := ss\<rparr>) sz (buf @ c)"
      by (subst os_recv_waitall.simps) (simp add: True r ne)
    have "\<exists>s'. os_recv_waitall (s\<lparr>segments := ss\<rparr>) sz (buf @ c)
        = (int sz, (buf @ c) @ take (sz - length (buf @ c)) (concat ss), s')
      \<and> concat (segments s') = drop (sz - length (buf @ c)) (concat ss) \<and> fin s' = fin s"
      using "1.IH"[OF True r[symmetric] ne] "1.prems" c True by simp
    with c show ?thesis unfolding eq by simp
  qed
qed

subsection \<open>Properties\<close>



end
