(* ===== verification/Net_Buffer.thy ===== *)
theory Net_Buffer
  imports Ring_Queue Byte_Queue Net_Frame "HOL-Library.Monad_Syntax"
begin

text \<open>
  The per-socket buffers of \<^verbatim>\<open>src/src/remoted/src/netbuffer.c\<close>: the receive side, which cuts the
  TCP stream of an agent into messages for the queue of \<^verbatim>\<open>remoted\<close>, and the send side, which
  queues frames in a byte queue and transmits it when the socket is writable. Every section
  under the library's mutex is one function. \<open>None\<close> is undefined behaviour of the C code: an
  access outside the array of buffers, to a cell never initialised, or a division by zero.
\<close>

subsection \<open>State\<close>

record sockbuffer =
  peer_info :: nat
  sb_data :: "byte list"
  data_size :: nat
  data_len :: nat
  sb_bqueue :: "bqueue option"

text \<open>A cell of the array is \<open>None\<close> until \<^verbatim>\<open>nb_open\<close> writes it: \<^verbatim>\<open>realloc\<close> does not.\<close>

record netbuffer =
  max_fd :: nat
  nb_buffers :: "sockbuffer option list"

record nb_config =
  receive_chunk :: nat
  send_chunk :: nat
  buffer_relax :: int
  send_buffer_size :: nat

text \<open>The events \<^verbatim>\<open>wnotify_modify\<close> asks for: reading, or reading and writing.\<close>

datatype wnotify_op = WO_READ | WO_READ_WRITE

definition nb_slot :: "netbuffer \<Rightarrow> nat \<Rightarrow> sockbuffer option" where
  "nb_slot nb sock = (if sock < length (nb_buffers nb) then nb_buffers nb ! sock else None)"

definition nb_store :: "netbuffer \<Rightarrow> nat \<Rightarrow> sockbuffer \<Rightarrow> netbuffer" where
  "nb_store nb sock sb = nb\<lparr>nb_buffers := (nb_buffers nb)[sock := Some sb]\<rparr>"

definition sb_zero :: sockbuffer where
  "sb_zero = \<lparr>peer_info = 0, sb_data = [], data_size = 0, data_len = 0, sb_bqueue = None\<rparr>"

subsection \<open>Opening and closing\<close>

definition nb_open :: "nb_config \<Rightarrow> netbuffer \<Rightarrow> nat \<Rightarrow> nat \<Rightarrow> netbuffer" where
  "nb_open cfg nb sock peer =
     (let nb1 = (if sock \<ge> max_fd nb
                 then nb\<lparr>nb_buffers := take (sock + 1) (nb_buffers nb)
                           @ replicate (sock + 1 - length (nb_buffers nb)) None,
                         max_fd := sock\<rparr>
                 else nb)
      in nb_store nb1 sock
           (sb_zero\<lparr>peer_info := peer, sb_bqueue := bqueue_init (send_buffer_size cfg) BQUEUE_SHRINK\<rparr>))"

definition nb_close :: "netbuffer \<Rightarrow> nat \<Rightarrow> netbuffer option" where
  "nb_close nb sock = (case nb_slot nb sock of None \<Rightarrow> None | Some _ \<Rightarrow> Some (nb_store nb sock sb_zero))"

subsection \<open>Receiving\<close>

text \<open>
  The dispatch loop of \<^verbatim>\<open>nb_recv\<close> from offset \<open>i\<close>. Its result is whether a header was corrupt, the
  offset where it stopped and the message queue.
\<close>

function nb_dispatch ::
    "bool \<Rightarrow> sockbuffer \<Rightarrow> nat \<Rightarrow> nat \<Rightarrow> rem_state \<Rightarrow> bool \<times> nat \<times> rem_state" where
  "nb_dispatch big sb sock i st =
     (if i + 4 \<le> data_len sb then
        (let cur_len = unat (wnet_order big (load32 big (drop i (sb_data sb)))) in
         if cur_len > OS_MAXSTR then (True, i, st)
         else
           (let cur_offset = i + 4 in
            if cur_offset + cur_len > data_len sb then (False, i, st)
            else nb_dispatch big sb sock (cur_offset + cur_len)
                   (snd (rem_msgpush st (drop cur_offset (sb_data sb)) cur_len (peer_info sb) (int sock)))))
      else (False, i, st))"
  by pat_completeness auto
termination by (relation "measure (\<lambda>(big, sb, sock, i, st). data_len sb - i)") auto

declare nb_dispatch.simps [simp del]

text \<open>The end of \<^verbatim>\<open>nb_recv\<close>: the first \<open>i\<close> bytes are done with, and memory is released.\<close>

definition nb_compact :: "nb_config \<Rightarrow> sockbuffer \<Rightarrow> nat \<Rightarrow> sockbuffer" where
  "nb_compact cfg sb i =
     (if i > 0 then
        (let data = (if i < data_len sb
                     then mem_write (sb_data sb) 0 (mem_read (sb_data sb) i (data_len sb - i))
                     else sb_data sb);
             len = data_len sb - i
         in if buffer_relax cfg = 0 then sb\<lparr>sb_data := data, data_len := len\<rparr>
            else if buffer_relax cfg = 1 then
              (let sz = (if len > receive_chunk cfg then len else receive_chunk cfg)
               in sb\<lparr>sb_data := mem_realloc data sz, data_len := len, data_size := sz\<rparr>)
            else sb\<lparr>sb_data := (if len \<noteq> 0 then mem_realloc data len else []),
                    data_len := len, data_size := len\<rparr>)
      else sb)"

text \<open>
  \<open>rx\<close> is what the socket has to read; when it has nothing, \<^verbatim>\<open>recv\<close> returns \<open>rfin\<close> (zero at the end of
  the connection, -1 on an error).
\<close>

definition nb_recv ::
    "nb_config \<Rightarrow> bool \<Rightarrow> netbuffer \<Rightarrow> nat \<Rightarrow> byte list \<Rightarrow> int \<Rightarrow> rem_state \<Rightarrow>
     (int \<times> netbuffer \<times> rem_state) option" where
  "nb_recv cfg big nb sock rx rfin st =
     do {
       sb \<leftarrow> nb_slot nb sock;
       let data_ext = size_add (data_len sb) (receive_chunk cfg);
       let sb1 = (if data_ext > data_size sb
                  then sb\<lparr>sb_data := mem_realloc (sb_data sb) data_ext, data_size := data_ext\<rparr>
                  else sb);
       let c = take (receive_chunk cfg) rx;
       if c = [] then Some (rfin, nb_store nb sock sb1, st)
       else do {
         let sb2 = sb1\<lparr>sb_data := mem_write (sb_data sb1) (data_len sb1) c,
                       data_len := data_len sb1 + length c\<rparr>;
         case nb_dispatch big sb2 sock 0 st of (corrupt, i, st') \<Rightarrow>
           Some (if corrupt then (- 2, nb_store nb sock sb2, st')
                 else (int (length c), nb_store nb sock (nb_compact cfg sb2 i), st'))
       }
     }"

subsection \<open>Sending\<close>

text \<open>
  \<open>net_send\<close> is the result of \<^verbatim>\<open>send\<close> on the peeked bytes. The result has the value returned, the
  bytes handed to the kernel and the call of \<^verbatim>\<open>wnotify_modify\<close>, if any.
\<close>

definition nb_send ::
    "nb_config \<Rightarrow> netbuffer \<Rightarrow> nat \<Rightarrow> (byte list \<Rightarrow> int) \<Rightarrow>
     (int \<times> byte list \<times> netbuffer \<times> wnotify_op option) option" where
  "nb_send cfg nb sock net_send =
     do {
       sb \<leftarrow> nb_slot nb sock;
       case sb_bqueue sb of
         None \<Rightarrow> Some (0, [], nb, None)
       | Some q \<Rightarrow>
           (case bqueue_peek q (send_chunk cfg) 0 of
              Waits _ \<Rightarrow> None
            | Returns data q1 \<Rightarrow>
                do {
                  let sent_bytes = (if length data > 0 then net_send data else 0);
                  q2 \<leftarrow> (if sent_bytes > 0 then map_option snd (bqueue_drop q1 (nat sent_bytes))
                         else Some q1);
                  Some (sent_bytes, take (nat sent_bytes) data,
                        nb_store nb sock (sb\<lparr>sb_bqueue := Some q2\<rparr>),
                        if length data = 0 \<or> bqueue_used q2 = 0 then Some WO_READ else None)
                })
     }"

text \<open>
  The block of \<^verbatim>\<open>nb_queue\<close> that pushes a frame; the code has it twice. \<open>-1\<close> is a full queue or no
  queue at all, and the boolean tells the former.
\<close>

definition nb_frame :: "bool \<Rightarrow> byte list \<Rightarrow> byte list" where
  "nb_frame big msg = store32 big (wnet_order big (of_nat (length msg))) @ msg"

definition nb_queue_try ::
    "bool \<Rightarrow> netbuffer \<Rightarrow> nat \<Rightarrow> byte list \<Rightarrow>
     (int \<times> bool \<times> netbuffer \<times> wnotify_op option) option" where
  "nb_queue_try big nb sock msg =
     do {
       sb \<leftarrow> nb_slot nb sock;
       case sb_bqueue sb of
         None \<Rightarrow> Some (- 1, False, nb, None)
       | Some q \<Rightarrow>
           (case bqueue_push q (nb_frame big msg) 0 of
              Waits _ \<Rightarrow> None
            | Returns r q' \<Rightarrow>
                (let nb' = nb_store nb sock (sb\<lparr>sb_bqueue := Some q'\<rparr>) in
                 Some (if r = 0
                       then (0, False, nb', if bqueue_used q' = length (nb_frame big msg)
                                            then Some WO_READ_WRITE else None)
                       else (- 1, True, nb', None))))
     }"

text \<open>
  \<open>others\<close> is what the other threads do to the buffers while \<^verbatim>\<open>nb_queue\<close> sleeps without the mutex.
  The result has the value returned and the calls of \<^verbatim>\<open>wnotify_modify\<close>; the message is counted as
  discarded exactly when the value is negative.
\<close>

definition nb_queue ::
    "bool \<Rightarrow> (netbuffer \<Rightarrow> netbuffer) \<Rightarrow> netbuffer \<Rightarrow> nat \<Rightarrow> byte list \<Rightarrow> nat \<Rightarrow>
     (int \<times> netbuffer \<times> wnotify_op option \<times> nat) option" where
  "nb_queue big others nb sock msg discarded =
     do {
       (r, full, nb1, n1) \<leftarrow> nb_queue_try big nb sock msg;
       (retval, nb2, n2) \<leftarrow>
         (if full then do {
            (r', _, nb', n') \<leftarrow> nb_queue_try big (others nb1) sock msg;
            Some (r', nb', n')
          } else Some (r, nb1, n1));
       Some (retval, nb2, n2, if retval < 0 then discarded + 1 else discarded)
     }"

subsection \<open>What the receive side promises\<close>

text \<open>
  The reference: the complete frames at the start of a byte stream, the bytes after them, and
  whether these start with a header that no sender writes.
\<close>

function parse_frames :: "byte list \<Rightarrow> byte list list \<times> byte list \<times> bool" where
  "parse_frames bs =
     (if length bs < 4 then ([], bs, False)
      else if unat (load_le bs) > OS_MAXSTR then ([], bs, True)
      else if length bs < 4 + unat (load_le bs) then ([], bs, False)
      else (case parse_frames (drop (4 + unat (load_le bs)) bs) of
              (ms, rest, bad) \<Rightarrow> (take (unat (load_le bs)) (drop 4 bs) # ms, rest, bad)))"
  by pat_completeness auto
termination by (relation "measure length") auto

declare parse_frames.simps [simp del]

text \<open>The messages of one socket handed in order to the message queue of \<^verbatim>\<open>remoted\<close>.\<close>

definition rem_deliver :: "nat \<Rightarrow> nat \<Rightarrow> byte list list \<Rightarrow> rem_state \<Rightarrow> rem_state" where
  "rem_deliver peer sock ms st =
     fold (\<lambda>m st. snd (rem_msgpush st m (length m) peer (int sock))) ms st"

definition sb_pending :: "sockbuffer \<Rightarrow> byte list" where
  "sb_pending sb = take (data_len sb) (sb_data sb)"

text \<open>
  The invariant of a receive buffer between calls: the block of memory has the recorded size,
  less than one frame of the largest size is pending, and the memory in use is bounded.
\<close>

definition sb_inv :: "nb_config \<Rightarrow> sockbuffer \<Rightarrow> bool" where
  "sb_inv cfg sb \<longleftrightarrow> length (sb_data sb) = data_size sb \<and> data_len sb \<le> data_size sb
     \<and> data_len sb < OS_MAXSTR + 4 \<and> data_size sb \<le> OS_MAXSTR + 3 + receive_chunk cfg"

text \<open>\<^verbatim>\<open>receive_chunk\<close> is an \<^verbatim>\<open>unsigned int\<close>.\<close>

definition nb_config_ok :: "nb_config \<Rightarrow> bool" where
  "nb_config_ok cfg \<longleftrightarrow> 0 < receive_chunk cfg \<and> receive_chunk cfg < 2 ^ 32"

text \<open>Reads of one socket, one after the other; \<open>None\<close> when one of them reports an error.\<close>

fun nb_recv_all ::
    "nb_config \<Rightarrow> bool \<Rightarrow> nat \<Rightarrow> byte list list \<Rightarrow> netbuffer \<times> rem_state \<Rightarrow>
     (netbuffer \<times> rem_state) option" where
  "nb_recv_all cfg big sock [] s = Some s"
| "nb_recv_all cfg big sock (c # cs) (nb, st) =
     (case nb_recv cfg big nb sock c 0 st of
        None \<Rightarrow> None
      | Some (r, nb', st') \<Rightarrow> if r < 0 then None else nb_recv_all cfg big sock cs (nb', st'))"

text \<open>
  The send side of one socket as the threads interleave: every step is one section under the
  mutex, an attempt to queue a message or a transmission of which the kernel takes at most \<open>k\<close>
  bytes (a negative \<open>k\<close> is an error of \<^verbatim>\<open>send\<close>). The run keeps the messages accepted, the bytes
  sent and the events last asked for.
\<close>

datatype nb_op = Nb_try "byte list" | Nb_write int

fun nb_run ::
    "nb_config \<Rightarrow> bool \<Rightarrow> nat \<Rightarrow> nb_op list \<Rightarrow> netbuffer \<times> wnotify_op \<Rightarrow>
     (byte list list \<times> byte list \<times> netbuffer \<times> wnotify_op) option" where
  "nb_run cfg big sock [] (nb, ev) = Some ([], [], nb, ev)"
| "nb_run cfg big sock (Nb_try m # ops) (nb, ev) =
     do {
       (r, _, nb', n) \<leftarrow> nb_queue_try big nb sock m;
       (ins, outs, s) \<leftarrow> nb_run cfg big sock ops (nb', case n of None \<Rightarrow> ev | Some e \<Rightarrow> e);
       Some (if r = 0 then m # ins else ins, outs, s)
     }"
| "nb_run cfg big sock (Nb_write k # ops) (nb, ev) =
     do {
       (r, out, nb', n) \<leftarrow> nb_send cfg nb sock (\<lambda>data. min k (int (length data)));
       (ins, outs, s) \<leftarrow> nb_run cfg big sock ops (nb', case n of None \<Rightarrow> ev | Some e \<Rightarrow> e);
       Some (ins, out @ outs, s)
     }"

text \<open>The array reaches at least up to \<^verbatim>\<open>max_fd\<close>, a fresh one being empty.\<close>

definition nb_array :: "netbuffer \<Rightarrow> bool" where
  "nb_array nb \<longleftrightarrow> max_fd nb \<le> length (nb_buffers nb) \<and> length (nb_buffers nb) \<le> max_fd nb + 1"

text \<open>The socket has a byte queue in order, with these bytes waiting.\<close>

definition nb_sending :: "netbuffer \<Rightarrow> nat \<Rightarrow> byte list \<Rightarrow> nat \<Rightarrow> bool" where
  "nb_sending nb sock bs limit \<longleftrightarrow> (case nb_slot nb sock of
       None \<Rightarrow> False
     | Some sb \<Rightarrow> (case sb_bqueue sb of
         None \<Rightarrow> False
       | Some q \<Rightarrow> bq_inv q \<and> bq_contents q = bs \<and> bq_max_length q = limit))"

definition nb_events :: "byte list \<Rightarrow> wnotify_op" where
  "nb_events bs = (if bs = [] then WO_READ else WO_READ_WRITE)"

subsection \<open>Frames in a stream\<close>

lemma parse_frames_append:
  "parse_frames a = (ms, r, False) \<Longrightarrow>
   parse_frames (a @ b) = (case parse_frames (r @ b) of (ms', r', bad) \<Rightarrow> (ms @ ms', r', bad))"
proof (induction a arbitrary: ms r rule: parse_frames.induct)
  case (1 a)
  let ?n = "unat (load_le a)"
  show ?case
  proof (cases "4 \<le> length a \<and> ?n \<le> OS_MAXSTR \<and> 4 + ?n \<le> length a")
    case False
    then have "ms = [] \<and> r = a" using "1.prems" by (subst (asm) parse_frames.simps) (auto split: if_splits)
    then show ?thesis by (simp split: prod.splits)
  next
    case True
    then obtain ms' where ms: "parse_frames (drop (4 + ?n) a) = (ms', r, False)"
        "ms = take ?n (drop 4 a) # ms'"
      using "1.prems" by (subst (asm) parse_frames.simps) (auto split: if_splits prod.splits)
    have hdr: "load_le (a @ b) = load_le a" using True by (simp add: load_le_append)
    have "parse_frames (a @ b) = (case parse_frames (drop (4 + ?n) a @ b) of
        (ms', r', bad) \<Rightarrow> (take ?n (drop 4 a) # ms', r', bad))"
      using True by (subst parse_frames.simps) (simp add: hdr)
    then show ?thesis using "1.IH" True ms by (auto split: prod.splits)
  qed
qed

lemma parse_frames_append_bad:
  "parse_frames a = (ms, r, True) \<Longrightarrow> parse_frames (a @ b) = (ms, r @ b, True)"
proof (induction a arbitrary: ms r rule: parse_frames.induct)
  case (1 a)
  let ?n = "unat (load_le a)"
  have long: "4 \<le> length a" using "1.prems" by (subst (asm) parse_frames.simps) (auto split: if_splits)
  then have hdr: "load_le (a @ b) = load_le a" by (simp add: load_le_append)
  show ?case
  proof (cases "?n \<le> OS_MAXSTR")
    case False
    with long "1.prems" have "ms = [] \<and> r = a" by (subst (asm) parse_frames.simps) auto
    with False long hdr show ?thesis by (subst parse_frames.simps) simp
  next
    case True
    with long "1.prems" obtain ms' where fits: "4 + ?n \<le> length a" and
      ms: "parse_frames (drop (4 + ?n) a) = (ms', r, True)" "ms = take ?n (drop 4 a) # ms'"
      by (subst (asm) parse_frames.simps) (auto split: if_splits prod.splits)
    have "parse_frames (drop (4 + ?n) a @ b) = (ms', r @ b, True)"
      using "1.IH"[OF _ _ _ ms(1)] long True fits by simp
    then show ?thesis using long True fits hdr ms(2) by (subst parse_frames.simps) simp
  qed
qed

lemma parse_frames_frame:
  assumes "length m \<le> OS_MAXSTR"
  shows "parse_frames (frame m) = ([m], [], False)"
proof -
  have "load_le (frame m) = of_nat (length m)" by (simp add: frame_def)
  then have hdr: "unat (load_le (frame m)) = length m"
    using assms by (simp add: OS_MAXSTR_def unat_of_nat take_bit_eq_mod)
  have "length (frame m) = 4 + length m" "drop 4 (frame m) = m" by (simp_all add: frame_def)
  moreover have "parse_frames [] = ([], [], False)" by (subst parse_frames.simps) simp
  ultimately show ?thesis using assms by (subst parse_frames.simps) (simp add: hdr)
qed

lemma parse_frames_rest:
  "parse_frames bs = (ms, r, bad) \<Longrightarrow>
   length r \<le> length bs \<and> drop (length bs - length r) bs = r
   \<and> (\<not> bad \<longrightarrow> length r < OS_MAXSTR + 4 \<and> parse_frames r = ([], r, False))"
proof (induction bs arbitrary: ms rule: parse_frames.induct)
  case (1 bs)
  let ?n = "unat (load_le bs)"
  show ?case
  proof (cases "4 \<le> length bs \<and> ?n \<le> OS_MAXSTR \<and> 4 + ?n \<le> length bs")
    case False
    then have "r = bs \<and> ms = []" "\<not> bad \<longrightarrow> length bs < OS_MAXSTR + 4"
      using "1.prems" by (subst (asm) parse_frames.simps, auto split: if_splits)+
    then show ?thesis using "1.prems" by auto
  next
    case True
    then obtain ms' where ms: "parse_frames (drop (4 + ?n) bs) = (ms', r, bad)"
      using "1.prems" by (subst (asm) parse_frames.simps) (auto split: if_splits prod.splits)
    then have "length r \<le> length bs - (4 + ?n)" "drop (length bs - (4 + ?n) - length r) (drop (4 + ?n) bs) = r"
      "\<not> bad \<longrightarrow> length r < OS_MAXSTR + 4 \<and> parse_frames r = ([], r, False)"
      using "1.IH"[of ms'] True by auto
    with True show ?thesis by (auto simp: add.commute)
  qed
qed

subsection \<open>The receive side keeps its promise\<close>

lemma rem_msgpush_take: "rem_msgpush st (take n bs) n peer sock = rem_msgpush st bs n peer sock"
  by (simp add: rem_msgpush_def)

lemma rem_deliver_simps [simp]:
  "rem_deliver peer sock [] st = st"
  "rem_deliver peer sock (m # ms) st =
     rem_deliver peer sock ms (snd (rem_msgpush st m (length m) peer (int sock)))"
  "rem_deliver peer sock (ms @ ms') st = rem_deliver peer sock ms' (rem_deliver peer sock ms st)"
  by (simp_all add: rem_deliver_def)

lemma nb_dispatch_parse:
  assumes "data_len sb \<le> length (sb_data sb)"
  shows "i \<le> data_len sb \<Longrightarrow> parse_frames (drop i (sb_pending sb)) = (ms, r, bad) \<Longrightarrow>
    nb_dispatch big sb sock i st = (bad, data_len sb - length r, rem_deliver (peer_info sb) sock ms st)"
proof (induction "data_len sb - i" arbitrary: i ms st rule: less_induct)
  case less
  define bs where "bs = drop i (sb_pending sb)"
  define n where "n = unat (load_le bs)"
  have len: "length bs = data_len sb - i" using assms by (simp add: bs_def sb_pending_def)
  have parse: "parse_frames bs = (ms, r, bad)" using less.prems by (simp add: bs_def)
  show ?case
  proof (cases "4 \<le> length bs")
    case False
    then have "r = bs \<and> ms = [] \<and> bad = False" using parse by (subst (asm) parse_frames.simps) auto
    moreover have "\<not> i + 4 \<le> data_len sb" using False len less.prems(1) by linarith
    ultimately show ?thesis using len less.prems(1) by (subst nb_dispatch.simps) simp
  next
    case True
    have "take (data_len sb - i) (drop i (sb_data sb)) = bs"
      by (simp add: bs_def sb_pending_def drop_take)
    then have "load_le (drop i (sb_data sb)) = load_le bs"
      using load_le_append[of bs "drop (data_len sb - i) (drop i (sb_data sb))"] True len
      by (metis append_take_drop_id)
    then have hdr: "unat (wnet_order big (load32 big (drop i (sb_data sb)))) = n"
      using True len assms header_read[of "drop i (sb_data sb)" big] by (simp add: n_def)
    note step = nb_dispatch.simps[of big sb sock i st, unfolded hdr Let_def]
    show ?thesis
    proof (cases "n \<le> OS_MAXSTR \<and> 4 + n \<le> length bs")
      case stop: False
      then have "r = bs \<and> ms = []" "bad = (n > OS_MAXSTR)"
        using True parse unfolding n_def by (subst (asm) parse_frames.simps, simp split: if_splits)+
      then show ?thesis using stop True len less.prems(1) by (subst step) auto
    next
      case more: True
      from True more parse obtain ms' where
        ms: "parse_frames (drop (4 + n) bs) = (ms', r, bad)" "ms = take n (drop 4 bs) # ms'"
        unfolding n_def by (subst (asm) parse_frames.simps) (auto split: if_splits prod.splits)
      have "min n (data_len sb - (i + 4)) = n" using more len by linarith
      then have m: "take n (drop 4 bs) = take n (drop (i + 4) (sb_data sb))"
        by (simp add: bs_def sb_pending_def drop_take add.commute)
      have "nb_dispatch big sb sock i st = nb_dispatch big sb sock (i + 4 + n)
          (snd (rem_msgpush st (drop (i + 4) (sb_data sb)) n (peer_info sb) (int sock)))"
        using True more len less.prems(1) by (subst step) auto
      also have "\<dots> = (bad, data_len sb - length r, rem_deliver (peer_info sb) sock ms' (snd (rem_msgpush st
          (drop (i + 4) (sb_data sb)) n (peer_info sb) (int sock))))"
      proof (rule less.hyps)
        show "data_len sb - (i + 4 + n) < data_len sb - i" "i + 4 + n \<le> data_len sb"
          using True more len less.prems(1) by linarith+
        show "parse_frames (drop (i + 4 + n) (sb_pending sb)) = (ms', r, bad)"
          using ms(1) by (simp add: bs_def add.commute add.left_commute)
      qed
      finally have run: "nb_dispatch big sb sock i st = (bad, data_len sb - length r,
        rem_deliver (peer_info sb) sock ms' (snd (rem_msgpush st (drop (i + 4) (sb_data sb)) n
          (peer_info sb) (int sock))))" .
      have "length (take n (drop 4 bs)) = n" using more by auto
      then show ?thesis unfolding run ms(2) rem_deliver_simps by (simp add: m rem_msgpush_take)
    qed
  qed
qed

lemma mem_slide:
  assumes "i + n \<le> length m"
  shows "take n (mem_write m 0 (mem_read m i n)) = take n (drop i m)"
    "length (mem_write m 0 (mem_read m i n)) = length m"
  using assms by (simp_all add: mem_write_def mem_read_def)

lemma mem_realloc_take: "n \<le> sz \<Longrightarrow> n \<le> length m \<Longrightarrow> take n (mem_realloc m sz) = take n m"
  by (simp add: mem_realloc_def)

lemma mem_realloc_shrink: "n \<le> length m \<Longrightarrow> mem_realloc m n = take n m"
  by (simp add: mem_realloc_def)

lemma sb_pending_compact:
  assumes "data_len sb \<le> length (sb_data sb)" "i \<le> data_len sb"
  shows "sb_pending (nb_compact cfg sb i) = drop i (sb_pending sb)"
proof (cases "0 < i \<and> i < data_len sb")
  case True
  then have "i + (data_len sb - i) \<le> length (sb_data sb)" using assms by simp
  note slide = mem_slide[OF this]
  show ?thesis
    using True assms slide by (simp add: nb_compact_def sb_pending_def Let_def mem_realloc_take mem_realloc_shrink drop_take)
next
  case False
  with assms(2) have "i = 0 \<or> data_len sb = i" by auto
  then show ?thesis by (auto simp: nb_compact_def sb_pending_def Let_def)
qed

lemma sb_inv_compact:
  assumes "length (sb_data sb) = data_size sb" "data_len sb \<le> data_size sb"
    "data_size sb \<le> OS_MAXSTR + 3 + receive_chunk cfg" "i \<le> data_len sb" "data_len sb - i < OS_MAXSTR + 4"
  shows "sb_inv cfg (nb_compact cfg sb i)"
  using assms by (auto simp: nb_compact_def sb_inv_def mem_defs Let_def)

lemma nb_slot_store:
  "nb_slot nb sock = Some sb \<Longrightarrow>
   nb_slot (nb_store nb sock sb') s = (if s = sock then Some sb' else nb_slot nb s)"
  by (auto simp: nb_slot_def nb_store_def split: if_splits)

lemma nb_recv_data:
  assumes "nb_config_ok cfg" "nb_slot nb sock = Some sb" "sb_inv cfg sb"
    "c = take (receive_chunk cfg) rx" "c \<noteq> []" "parse_frames (sb_pending sb @ c) = (ms, rest, bad)"
  shows "\<exists>sb'. nb_recv cfg big nb sock rx rfin st
      = Some (if bad then - 2 else int (length c), nb_store nb sock sb', rem_deliver (peer_info sb) sock ms st)
    \<and> peer_info sb' = peer_info sb \<and> sb_bqueue sb' = sb_bqueue sb
    \<and> (\<not> bad \<longrightarrow> sb_inv cfg sb' \<and> sb_pending sb' = rest)"
proof -
  let ?ext = "data_len sb + receive_chunk cfg"
  have ext: "size_add (data_len sb) (receive_chunk cfg) = ?ext"
    using assms(1,3) by (intro size_add_small) (simp add: nb_config_ok_def sb_inv_def OS_MAXSTR_def)
  define sb1 where "sb1 = (if ?ext > data_size sb
    then sb\<lparr>sb_data := mem_realloc (sb_data sb) ?ext, data_size := ?ext\<rparr> else sb)"
  define sb2 where "sb2 = sb1\<lparr>sb_data := mem_write (sb_data sb1) (data_len sb1) c,
    data_len := data_len sb1 + length c\<rparr>"
  have sb1: "length (sb_data sb1) = data_size sb1" "?ext \<le> data_size sb1" "data_len sb1 = data_len sb"
    "data_size sb1 \<le> OS_MAXSTR + 3 + receive_chunk cfg" "take (data_len sb) (sb_data sb1) = sb_pending sb"
    "peer_info sb1 = peer_info sb" "sb_bqueue sb1 = sb_bqueue sb"
    using assms(3) by (auto simp: sb1_def sb_inv_def sb_pending_def mem_realloc_take)
  have c: "length c \<le> receive_chunk cfg" "data_len sb \<le> length (sb_data sb)"
    using assms(3,4) by (simp_all add: sb_inv_def)
  have sb2: "length (sb_data sb2) = data_size sb2" "data_len sb2 = data_len sb + length c"
    "data_size sb2 = data_size sb1" "sb_pending sb2 = sb_pending sb @ c"
    "peer_info sb2 = peer_info sb" "sb_bqueue sb2 = sb_bqueue sb"
    using sb1 c by (auto simp: sb2_def sb_pending_def mem_write_def)
  let ?i = "data_len sb2 - length rest"
  have run: "nb_dispatch big sb2 sock 0 st = (bad, ?i, rem_deliver (peer_info sb) sock ms st)"
    using nb_dispatch_parse[of sb2 0 ms rest bad big sock st] sb1(2) sb2 c assms(6) by simp
  have len: "length (sb_pending sb @ c) = data_len sb2"
    using sb2 assms(3) by (simp add: sb_inv_def sb_pending_def)
  from parse_frames_rest[OF assms(6)] have rest: "length rest \<le> data_len sb2" "drop ?i (sb_pending sb2) = rest"
    "\<not> bad \<longrightarrow> length rest < OS_MAXSTR + 4" unfolding len sb2(4) by blast+
  have "data_len sb2 \<le> length (sb_data sb2)" using sb1(2) sb2 c by simp
  then have pend: "sb_pending (nb_compact cfg sb2 ?i) = rest"
    using sb_pending_compact[of sb2 ?i cfg] rest by simp
  have inv: "\<not> bad \<longrightarrow> sb_inv cfg (nb_compact cfg sb2 ?i)"
    using sb1(2,4) sb2 c rest by (intro impI sb_inv_compact) auto
  have frame: "peer_info (nb_compact cfg sb2 ?i) = peer_info sb"
    "sb_bqueue (nb_compact cfg sb2 ?i) = sb_bqueue sb"
    using sb2 by (simp_all add: nb_compact_def Let_def)
  have "nb_recv cfg big nb sock rx rfin st = Some (if bad
      then (- 2, nb_store nb sock sb2, rem_deliver (peer_info sb) sock ms st)
      else (int (length c), nb_store nb sock (nb_compact cfg sb2 ?i), rem_deliver (peer_info sb) sock ms st))"
    unfolding nb_recv_def assms(2) Option.bind_lunit Let_def ext sb1_def[symmetric] assms(4)[symmetric]
      sb2_def[symmetric] run
    using assms(5) by simp
  then show ?thesis using pend inv frame sb2 by (cases bad) auto
qed

lemma nb_recv_all_parse:
  assumes "nb_config_ok cfg" "\<forall>c \<in> set cs. c \<noteq> [] \<and> length c \<le> receive_chunk cfg"
  shows "nb_slot nb sock = Some sb \<Longrightarrow> sb_inv cfg sb \<Longrightarrow>
    parse_frames (sb_pending sb) = ([], sb_pending sb, False) \<Longrightarrow>
    parse_frames (sb_pending sb @ concat cs) = (ms, rest, False) \<Longrightarrow>
    \<exists>nb' sb'. nb_recv_all cfg big sock cs (nb, st) = Some (nb', rem_deliver (peer_info sb) sock ms st)
      \<and> nb_slot nb' sock = Some sb' \<and> sb_inv cfg sb' \<and> sb_pending sb' = rest"
  using assms(2)
proof (induction cs arbitrary: nb sb ms st)
  case Nil
  then show ?case by simp
next
  case (Cons c cs)
  from Cons.prems have c: "c \<noteq> []" "c = take (receive_chunk cfg) c" by auto
  obtain ms1 r1 bad where p: "parse_frames (sb_pending sb @ c) = (ms1, r1, bad)"
    by (cases "parse_frames (sb_pending sb @ c)") auto
  have good: "\<not> bad"
    using Cons.prems(4) parse_frames_append_bad[of "sb_pending sb @ c" ms1 r1 "concat cs"] p by auto
  obtain ms2 where ms: "parse_frames (r1 @ concat cs) = (ms2, rest, False)" "ms = ms1 @ ms2"
    using parse_frames_append[of "sb_pending sb @ c" ms1 r1 "concat cs"] p good Cons.prems(4)
    by (auto split: prod.splits)
  from nb_recv_data[OF assms(1) Cons.prems(1,2) c(2,1) p, of big 0 st] good obtain sb1 where
    recv: "nb_recv cfg big nb sock c 0 st
      = Some (int (length c), nb_store nb sock sb1, rem_deliver (peer_info sb) sock ms1 st)"
    and sb1: "peer_info sb1 = peer_info sb" "sb_inv cfg sb1" "sb_pending sb1 = r1" by auto
  have slot: "nb_slot (nb_store nb sock sb1) sock = Some sb1" using nb_slot_store[OF Cons.prems(1)] by simp
  have "parse_frames r1 = ([], r1, False)" using parse_frames_rest[OF p] good by simp
  from Cons.IH[OF slot sb1(2), unfolded sb1(3), OF this ms(1), of "rem_deliver (peer_info sb) sock ms1 st"]
  show ?case using Cons.prems(5) recv sb1(1) ms(2) by auto
qed

lemma parse_frames_all:
  "\<forall>m \<in> set ms. length m \<le> OS_MAXSTR \<Longrightarrow> parse_frames rest = ([], rest, False) \<Longrightarrow>
   parse_frames (concat (map frame ms) @ rest) = (ms, rest, False)"
  by (induction ms) (auto simp: parse_frames_append[OF parse_frames_frame])

subsection \<open>Properties of the receive side\<close>

text \<open>
  C5: one call of \<^verbatim>\<open>nb_recv\<close> equals the reference parser on the pending bytes followed by those
  received. It hands the complete messages to the message queue in order, keeps exactly the
  bytes of the incomplete last frame, answers \<open>-2\<close> exactly on a corrupt header, never touches the
  buffer of another socket, and stays within its memory bound under every \<^verbatim>\<open>buffer_relax\<close>.
\<close>

theorem nb_recv_parses:
  assumes "nb_config_ok cfg" "nb_slot nb sock = Some sb" "sb_inv cfg sb" "take (receive_chunk cfg) rx \<noteq> []"
    and "parse_frames (sb_pending sb @ take (receive_chunk cfg) rx) = (ms, rest, bad)"
  shows "\<exists>r nb' sb'. nb_recv cfg big nb sock rx rfin st = Some (r, nb', rem_deliver (peer_info sb) sock ms st)
    \<and> nb_slot nb' sock = Some sb' \<and> sb_bqueue sb' = sb_bqueue sb
    \<and> (\<forall>s. s \<noteq> sock \<longrightarrow> nb_slot nb' s = nb_slot nb s)
    \<and> (if bad then r = - 2
       else r = int (length (take (receive_chunk cfg) rx)) \<and> sb_pending sb' = rest
         \<and> data_len sb' < OS_MAXSTR + 4 \<and> length (sb_data sb') \<le> OS_MAXSTR + 3 + receive_chunk cfg)"
proof -
  from nb_recv_data[OF assms(1-3) refl assms(4,5), of big rfin st] obtain sb' where
    "nb_recv cfg big nb sock rx rfin st = Some (if bad then - 2 else int (length (take (receive_chunk cfg) rx)),
       nb_store nb sock sb', rem_deliver (peer_info sb) sock ms st)"
    "sb_bqueue sb' = sb_bqueue sb" "\<not> bad \<longrightarrow> sb_inv cfg sb' \<and> sb_pending sb' = rest" by blast
  then show ?thesis by (auto simp: nb_slot_store[OF assms(2)] sb_inv_def)
qed

definition nb_demo_config :: nb_config where
  "nb_demo_config = \<lparr>receive_chunk = 7, send_chunk = 4, buffer_relax = 1, send_buffer_size = 16\<rparr>"

definition nb_demo :: netbuffer where
  "nb_demo = nb_open nb_demo_config \<lparr>max_fd = 0, nb_buffers = []\<rparr> 2 9"

lemma nb_demo_slot:
  "nb_slot nb_demo 2 = Some (sb_zero\<lparr>peer_info := 9, sb_bqueue := bqueue_init 16 BQUEUE_SHRINK\<rparr>)"
  by (simp add: nb_demo_def nb_open_def nb_slot_def nb_store_def nb_demo_config_def)

lemma nb_demo_ok:
  "nb_config_ok nb_demo_config" "sb_inv nb_demo_config (sb_zero\<lparr>peer_info := p, sb_bqueue := q\<rparr>)"
  "sb_pending (sb_zero\<lparr>peer_info := p, sb_bqueue := q\<rparr>) = []"
  by (simp_all add: nb_config_ok_def sb_inv_def nb_demo_config_def sb_zero_def OS_MAXSTR_def sb_pending_def)

theorem nb_recv_parses_witness:
  "\<exists>nb'. nb_recv nb_demo_config True nb_demo 2 [1, 0, 0, 0, 65, 9, 9, 9] 0 (rem_msginit 4)
     = Some (7, nb', rem_deliver 9 2 [[65]] (rem_msginit 4))
   \<and> map_option sb_pending (nb_slot nb' 2) = Some [9, 9]"
proof -
  have "parse_frames [9, 9 :: byte] = ([], [9, 9], False)" by (subst parse_frames.simps) simp
  from parse_frames_all[of "[[65]]", OF _ this] have p: "parse_frames [1, 0, 0, 0, 65, 9, 9] = ([[65]], [9, 9], False)"
    by (simp add: frame_def store_le_def OS_MAXSTR_def)
  have rx: "take (receive_chunk nb_demo_config) [1, 0, 0, 0, 65, 9, 9, 9 :: byte] = [1, 0, 0, 0, 65, 9, 9]"
    by (simp add: nb_demo_config_def)
  show ?thesis
    using nb_recv_parses[OF nb_demo_ok(1) nb_demo_slot nb_demo_ok(2), of "[1, 0, 0, 0, 65, 9, 9, 9]"
        "[[65]]" "[9, 9]" False True 0 "rem_msginit 4"]
    unfolding nb_demo_ok(3) rx using p by auto
qed

text \<open>
  C4: however TCP cuts the stream of an agent into reads, the message queue ends in the state
  reached by pushing exactly the messages framed in it, in order, and the buffer holds exactly
  the bytes of the frame that is still incomplete.
\<close>

theorem nb_recv_fragmentation:
  assumes "nb_config_ok cfg" "nb_slot nb sock = Some sb" "sb_inv cfg sb" "sb_pending sb = []"
    and "\<forall>m \<in> set ms. length m \<le> OS_MAXSTR" "parse_frames rest = ([], rest, False)"
    and "concat cs = concat (map frame ms) @ rest" "\<forall>c \<in> set cs. c \<noteq> [] \<and> length c \<le> receive_chunk cfg"
  shows "\<exists>nb' sb'. nb_recv_all cfg big sock cs (nb, st) = Some (nb', rem_deliver (peer_info sb) sock ms st)
    \<and> nb_slot nb' sock = Some sb' \<and> sb_pending sb' = rest"
proof -
  have "parse_frames (sb_pending sb) = ([], sb_pending sb, False)"
    unfolding assms(4) by (subst parse_frames.simps) simp
  moreover have "parse_frames (sb_pending sb @ concat cs) = (ms, rest, False)"
    using parse_frames_all[OF assms(5,6)] by (simp add: assms(4,7))
  ultimately show ?thesis using nb_recv_all_parse[OF assms(1,8,2,3)] by blast
qed

theorem nb_recv_fragmentation_witness:
  "\<exists>nb'. nb_recv_all nb_demo_config False 2 [[2, 0, 0], [0, 65], [66, 1, 0, 0, 0, 67], [3]] (nb_demo, rem_msginit 4)
     = Some (nb', rem_deliver 9 2 [[65, 66], [67]] (rem_msginit 4))
   \<and> map_option sb_pending (nb_slot nb' 2) = Some [3]"
proof -
  have p: "parse_frames [3 :: byte] = ([], [3], False)" by (subst parse_frames.simps) simp
  show ?thesis
    using nb_recv_fragmentation[OF nb_demo_ok(1) nb_demo_slot nb_demo_ok(2,3), of "[[65, 66], [67]]" "[3]"
        "[[2, 0, 0], [0, 65], [66, 1, 0, 0, 0, 67], [3]]" False "rem_msginit 4"] p
    by (auto simp: frame_def store_le_def OS_MAXSTR_def nb_demo_config_def)
qed

subsection \<open>The send side\<close>

lemma nb_frame_eq: "nb_frame big m = frame m"
  by (simp add: nb_frame_def frame_def header_write)

lemma nb_sendingE:
  assumes "nb_sending nb sock bs limit"
  obtains sb q where "nb_slot nb sock = Some sb" "sb_bqueue sb = Some q" "bq_inv q"
    "bq_contents q = bs" "bq_max_length q = limit"
  using assms by (auto simp: nb_sending_def split: option.splits)

lemma nb_sending_store:
  "nb_slot nb sock = Some sb \<Longrightarrow> bq_inv q \<Longrightarrow>
   nb_sending (nb_store nb sock (sb\<lparr>sb_bqueue := Some q\<rparr>)) sock (bq_contents q) (bq_max_length q)"
  by (simp add: nb_sending_def nb_slot_store)

lemma nb_queue_try_spec:
  assumes "nb_sending nb sock bs limit"
  shows "\<exists>nb'. if length (frame m) + length bs < limit
    then nb_queue_try big nb sock m = Some (0, False, nb', if bs = [] then Some WO_READ_WRITE else None)
      \<and> nb_sending nb' sock (bs @ frame m) limit
    else nb_queue_try big nb sock m = Some (- 1, True, nb', None) \<and> nb_sending nb' sock bs limit"
  using assms
proof (rule nb_sendingE)
  fix sb q
  assume q: "nb_slot nb sock = Some sb" "sb_bqueue sb = Some q" "bq_inv q" "bq_contents q = bs"
    "bq_max_length q = limit"
  show ?thesis
  proof (cases "length (frame m) + length bs < limit")
    case True
    then obtain q' where q': "bqueue_push q (frame m) 0 = Returns 0 q'" "bq_inv q'"
        "bq_contents q' = bs @ frame m" "bq_max_length q' = limit"
      using bqueue_push_fits[OF q(3), of "frame m" 0] q by auto
    have "bqueue_used q' = length (frame m) \<longleftrightarrow> bs = []"
      using bq_used_contents[OF q'(2)] q'(3) by (simp add: bqueue_used_def)
    then show ?thesis
      using True q q' nb_sending_store[OF q(1) q'(2)] by (auto simp: nb_queue_try_def nb_frame_eq Let_def)
  next
    case False
    then have "bqueue_push q (frame m) 0 = Returns (- 1) q"
      using bqueue_push_refused[OF q(3), of "frame m" 0] q by simp
    then show ?thesis
      using False q nb_sending_store[OF q(1,3)] by (auto simp: nb_queue_try_def nb_frame_eq Let_def)
  qed
qed

lemma nb_send_spec:
  assumes "nb_sending nb sock bs limit" "0 < send_chunk cfg" "net_send = (\<lambda>data. min k (int (length data)))"
  shows "\<exists>r out nb' n. nb_send cfg nb sock net_send = Some (r, out, nb', n)
    \<and> out = take (nat k) (take (send_chunk cfg) bs) \<and> nb_sending nb' sock (drop (length out) bs) limit
    \<and> (if drop (length out) bs = [] then n = Some WO_READ else n = None)
    \<and> r = (if bs = [] then 0 else min k (int (min (send_chunk cfg) (length bs))))"
  using assms(1)
proof (rule nb_sendingE)
  fix sb q
  assume q: "nb_slot nb sock = Some sb" "sb_bqueue sb = Some q" "bq_inv q" "bq_contents q = bs"
    "bq_max_length q = limit"
  define data where "data = take (send_chunk cfg) bs"
  define sent where "sent = (if length data > 0 then net_send data else 0)"
  have peek: "bqueue_peek q (send_chunk cfg) 0 = Returns data q"
    using q(3,4) bq_empty_iff[OF q(3)] bqueue_extract_contents[OF q(3)]
    by (simp add: bqueue_peek_def data_def)
  have out: "take (nat sent) data = take (nat k) data"
    using assms(3) by (auto simp: sent_def min_def)
  have len: "sent > 0 \<Longrightarrow> nat sent = length (take (nat k) data)"
    using assms(3) by (auto simp: sent_def min_def split: if_splits)
  obtain q2 where q2: "(if sent > 0 then map_option snd (bqueue_drop q (nat sent)) else Some q) = Some q2"
    "bq_inv q2" "bq_contents q2 = drop (length (take (nat k) data)) bs" "bq_max_length q2 = limit"
  proof (cases "sent > 0")
    case True
    then have "bs \<noteq> []" "nat sent \<le> length bs" using len by (auto simp: sent_def data_def)
    with bqueue_drop_spec[OF q(3) bq_length_pos[OF q(3)], of "nat sent"] q(4,5) that True len
    show thesis by auto
  next
    case False
    then have "take (nat k) data = []"
      using assms(3) by (auto simp: sent_def min_def not_less split: if_splits)
    with that[of q] False q show thesis by simp
  qed
  have used: "length data = 0 \<or> bqueue_used q2 = 0 \<longleftrightarrow> drop (length (take (nat k) data)) bs = []"
    using q2(2,3) assms(2) bq_used_contents[OF q2(2)] by (auto simp: bqueue_used_def data_def)
  have "nb_send cfg nb sock net_send = Some (sent, take (nat k) data,
      nb_store nb sock (sb\<lparr>sb_bqueue := Some q2\<rparr>),
      if drop (length (take (nat k) data)) bs = [] then Some WO_READ else None)"
    unfolding nb_send_def q(1) Option.bind_lunit q(2) option.case peek outcome.case Let_def
      sent_def[symmetric] q2(1) out used by simp
  moreover have "sent = (if bs = [] then 0 else min k (int (min (send_chunk cfg) (length bs))))"
    using assms(2,3) by (auto simp: sent_def data_def min.commute)
  ultimately show ?thesis
    using nb_sending_store[OF q(1) q2(2)] q2(3,4) unfolding data_def by auto
qed

lemma nb_run_stream_from:
  assumes "0 < send_chunk cfg"
  shows "nb_sending nb sock bs limit \<Longrightarrow> ev = nb_events bs \<Longrightarrow>
    \<exists>ins outs nb' bs'. nb_run cfg big sock ops (nb, ev) = Some (ins, outs, nb', nb_events bs')
      \<and> nb_sending nb' sock bs' limit \<and> bs @ concat (map frame ins) = outs @ bs'"
proof (induction ops arbitrary: nb bs ev)
  case Nil
  then show ?case by simp
next
  case (Cons a ops)
  show ?case
  proof (cases a)
    case (Nb_try m)
    from nb_queue_try_spec[OF Cons.prems(1), of m big] obtain nb' where
      t: "if length (frame m) + length bs < limit
        then nb_queue_try big nb sock m = Some (0, False, nb', if bs = [] then Some WO_READ_WRITE else None)
          \<and> nb_sending nb' sock (bs @ frame m) limit
        else nb_queue_try big nb sock m = Some (- 1, True, nb', None) \<and> nb_sending nb' sock bs limit" by blast
    have ne: "frame m \<noteq> []" by (simp add: frame_def store_le_def)
    show ?thesis
    proof (cases "length (frame m) + length bs < limit")
      case True
      with t Cons.IH[of nb' "bs @ frame m" "nb_events (bs @ frame m)"] Nb_try Cons.prems(2) ne
      show ?thesis by (fastforce simp: nb_events_def)
    next
      case False
      with t Cons.IH[of nb' bs ev] Nb_try Cons.prems(2) show ?thesis by fastforce
    qed
  next
    case (Nb_write k)
    from nb_send_spec[OF Cons.prems(1) assms refl, of k] obtain r out nb' n where
      w: "nb_send cfg nb sock (\<lambda>data. min k (int (length data))) = Some (r, out, nb', n)"
      "out = take (nat k) (take (send_chunk cfg) bs)" "nb_sending nb' sock (drop (length out) bs) limit"
      "if drop (length out) bs = [] then n = Some WO_READ else n = None" by blast
    have split: "bs = out @ drop (length out) bs"
      unfolding w(2) by (metis append_take_drop_id take_take length_take min.commute take_all_iff min.cobounded1)
    have ev: "(case n of None \<Rightarrow> ev | Some e \<Rightarrow> e) = nb_events (drop (length out) bs)"
      using w(4) Cons.prems(2) by (auto simp: nb_events_def split: if_splits)
    from Cons.IH[OF w(3) ev, unfolded ev] obtain ins outs nb'' bs' where
      "nb_run cfg big sock ops (nb', nb_events (drop (length out) bs)) = Some (ins, outs, nb'', nb_events bs')"
      "nb_sending nb'' sock bs' limit" "drop (length out) bs @ concat (map frame ins) = outs @ bs'" by blast
    with Nb_write w(1) ev split show ?thesis by (auto intro!: exI[of _ bs']) (metis append_assoc)
  qed
qed

subsection \<open>Properties of the send side\<close>

lemma nb_open_slots:
  assumes "nb_array nb"
  shows "nb_array (nb_open cfg nb sock peer)
    \<and> nb_slot (nb_open cfg nb sock peer) sock
        = Some (sb_zero\<lparr>peer_info := peer, sb_bqueue := bqueue_init (send_buffer_size cfg) BQUEUE_SHRINK\<rparr>)
    \<and> (\<forall>s. s \<noteq> sock \<longrightarrow> nb_slot (nb_open cfg nb sock peer) s = nb_slot nb s)"
  using assms by (auto simp: nb_array_def nb_open_def nb_slot_def nb_store_def nth_append Let_def)

text \<open>
  C6: for every interleaving of attempts to queue messages and of transmissions on a socket just
  opened, the bytes sent followed by those still waiting are exactly the frames of the accepted
  messages, in order: no frame is torn, lost or duplicated, whatever the kernel accepts. The
  socket is watched for writing exactly while bytes are waiting, so that no byte waits unwatched.
\<close>

theorem nb_run_stream:
  assumes "0 < send_chunk cfg" "2 \<le> send_buffer_size cfg" "send_buffer_size cfg < 2 ^ 32" "nb_array nb"
  shows "\<exists>ins outs nb' sb q. nb_run cfg big sock ops (nb_open cfg nb sock peer, WO_READ)
      = Some (ins, outs, nb', if bq_contents q = [] then WO_READ else WO_READ_WRITE)
    \<and> nb_slot nb' sock = Some sb \<and> sb_bqueue sb = Some q
    \<and> concat (map frame ins) = outs @ bq_contents q \<and> length (bq_contents q) < send_buffer_size cfg"
proof -
  obtain q where q: "bqueue_init (send_buffer_size cfg) BQUEUE_SHRINK = Some q"
    using assms(2) by (simp add: bqueue_init_def)
  then have "bq_inv q" "bq_contents q = []" "bq_max_length q = send_buffer_size cfg"
    using bqueue_init_inv[OF assms(2) _ q] assms(3) by auto
  then have "nb_sending (nb_open cfg nb sock peer) sock [] (send_buffer_size cfg)"
    using nb_open_slots[OF assms(4), of cfg sock peer] q by (simp add: nb_sending_def)
  from nb_run_stream_from[OF assms(1) this, of WO_READ big ops] obtain ins outs nb' bs' where
    run: "nb_run cfg big sock ops (nb_open cfg nb sock peer, WO_READ) = Some (ins, outs, nb', nb_events bs')"
    "concat (map frame ins) = outs @ bs'" and fin: "nb_sending nb' sock bs' (send_buffer_size cfg)"
    by (auto simp: nb_events_def)
  from fin obtain sb q' where "nb_slot nb' sock = Some sb" "sb_bqueue sb = Some q'" "bq_inv q'"
    "bq_contents q' = bs'" "bq_max_length q' = send_buffer_size cfg" by (rule nb_sendingE)
  with run bq_contents_bound[of q'] show ?thesis by (auto simp: nb_events_def)
qed

theorem nb_run_stream_witness:
  "\<exists>outs nb' q. nb_run nb_demo_config True 2 [Nb_try [65, 66], Nb_try [67, 68], Nb_write 3, Nb_try [69, 70, 71], Nb_write (- 1)]
       (nb_demo, WO_READ) = Some ([[65, 66], [67, 68]], outs, nb', WO_READ_WRITE)
     \<and> [2, 0, 0, 0, 65, 66, 2, 0, 0, 0, 67, 68] = outs @ bq_contents q"
proof -
  let ?ops = "[Nb_try [65, 66], Nb_try [67, 68], Nb_write 3, Nb_try [69, 70, 71], Nb_write (- 1)]"
  have "nb_array \<lparr>max_fd = 0, nb_buffers = []\<rparr>" by (simp add: nb_array_def)
  from nb_run_stream[OF _ _ _ this, of nb_demo_config True 2 ?ops 9] obtain ins outs nb' q where
    run: "nb_run nb_demo_config True 2 ?ops (nb_demo, WO_READ)
      = Some (ins, outs, nb', if bq_contents q = [] then WO_READ else WO_READ_WRITE)"
    and str: "concat (map frame ins) = outs @ bq_contents q"
    by (auto simp: nb_demo_def nb_demo_config_def)
  have "map_option (\<lambda>(ins, outs, nb, ev). (ins, ev)) (nb_run nb_demo_config True 2 ?ops (nb_demo, WO_READ))
      = Some ([[65, 66], [67, 68]], WO_READ_WRITE)" by code_simp
  with run have "ins = [[65, 66], [67, 68]]" "bq_contents q \<noteq> []" by (auto split: if_splits)
  with run str show ?thesis by (auto simp: frame_def store_le_def)
qed

text \<open>
  \<^verbatim>\<open>nb_queue\<close> queues the frame whole or not at all. When the bytes \<open>bs\<close> already waiting leave no
  room it retries once, against the bytes \<open>bs'\<close> waiting after the sleep; the message is counted as
  discarded exactly when it is refused twice. Writing is asked for exactly when the queue was empty.
\<close>

theorem nb_queue_outcome:
  assumes "nb_sending nb sock bs limit"
    and "\<forall>nb1. nb_sending nb1 sock bs limit \<longrightarrow> nb_sending (others nb1) sock bs' limit"
  shows "\<exists>nb'. if length msg + 4 + length bs < limit
      then nb_queue big others nb sock msg d = Some (0, nb', if bs = [] then Some WO_READ_WRITE else None, d)
        \<and> nb_sending nb' sock (bs @ frame msg) limit
      else if length msg + 4 + length bs' < limit
      then nb_queue big others nb sock msg d = Some (0, nb', if bs' = [] then Some WO_READ_WRITE else None, d)
        \<and> nb_sending nb' sock (bs' @ frame msg) limit
      else nb_queue big others nb sock msg d = Some (- 1, nb', None, d + 1) \<and> nb_sending nb' sock bs' limit"
proof -
  have len: "length (frame msg) = length msg + 4" by (simp add: frame_def)
  from nb_queue_try_spec[OF assms(1), of msg big] obtain nb1 where
    t: "if length msg + 4 + length bs < limit
      then nb_queue_try big nb sock msg = Some (0, False, nb1, if bs = [] then Some WO_READ_WRITE else None)
        \<and> nb_sending nb1 sock (bs @ frame msg) limit
      else nb_queue_try big nb sock msg = Some (- 1, True, nb1, None) \<and> nb_sending nb1 sock bs limit"
    unfolding len by blast
  show ?thesis
  proof (cases "length msg + 4 + length bs < limit")
    case True
    with t show ?thesis by (auto simp: nb_queue_def)
  next
    case False
    with t assms(2) have t1: "nb_queue_try big nb sock msg = Some (- 1, True, nb1, None)"
      "nb_sending (others nb1) sock bs' limit" by auto
    from nb_queue_try_spec[OF t1(2), of msg big] show ?thesis
      unfolding len using False t1(1) by (auto simp: nb_queue_def split: if_splits)
  qed
qed

text \<open>While the call below sleeps, the sender drains the first frame.\<close>

definition nb_demo_drain :: "netbuffer \<Rightarrow> netbuffer" where
  "nb_demo_drain nb =
     (case nb_slot nb 2 of
        Some sb \<Rightarrow> nb_store nb 2 (sb\<lparr>sb_bqueue :=
          map_option (\<lambda>q. the (bq_consume 9 q)) (sb_bqueue sb)\<rparr>)
      | None \<Rightarrow> nb)"

theorem nb_queue_outcome_witness:
  "\<exists>nb nb'. nb_queue_try True nb_demo 2 [1, 2, 3, 4, 5] = Some (0, False, nb, Some WO_READ_WRITE)
    \<and> nb_queue True nb_demo_drain nb 2 [6, 7, 8, 9, 10] 0 = Some (0, nb', Some WO_READ_WRITE, 0)
    \<and> nb_sending nb' 2 (frame [6, 7, 8, 9, 10]) 16"
proof -
  have "nb_sending nb_demo 2 [] 16"
    by (simp add: nb_sending_def nb_demo_slot bqueue_init_def bq_inv_def bq_contents_def)
  from nb_queue_try_spec[OF this, of "[1, 2, 3, 4, 5]" True] obtain nb where
    nb: "nb_queue_try True nb_demo 2 [1, 2, 3, 4, 5] = Some (0, False, nb, Some WO_READ_WRITE)"
    "nb_sending nb 2 (frame [1, 2, 3, 4, 5]) 16" by (auto simp: frame_def)
  have drain: "\<forall>nb1. nb_sending nb1 2 (frame [1, 2, 3, 4, 5]) 16 \<longrightarrow> nb_sending (nb_demo_drain nb1) 2 [] 16"
  proof (intro allI impI)
    fix nb1 assume "nb_sending nb1 2 (frame [1, 2, 3, 4, 5]) 16"
    then show "nb_sending (nb_demo_drain nb1) 2 [] 16"
    proof (rule nb_sendingE)
      fix sb q
      assume q: "nb_slot nb1 2 = Some sb" "sb_bqueue sb = Some q" "bq_inv q"
        "bq_contents q = frame [1, 2, 3, 4, 5]" "bq_max_length q = 16"
      from bqs.consume_drop[OF q(3), of 9] obtain q' where "bq_consume 9 q = Some q'" "bq_inv q'"
        "bq_contents q' = []" "bq_max_length q' = 16" using q(4,5) by (auto simp: frame_def)
      then show ?thesis
        using nb_sending_store[OF q(1), of q'] q(1,2) by (simp add: nb_demo_drain_def)
    qed
  qed
  from nb_queue_outcome[OF nb(2) drain, of "[6, 7, 8, 9, 10]" True 0] obtain nb' where
    "nb_queue True nb_demo_drain nb 2 [6, 7, 8, 9, 10] 0 = Some (0, nb', Some WO_READ_WRITE, 0)"
    "nb_sending nb' 2 (frame [6, 7, 8, 9, 10]) 16" by (auto simp: frame_def)
  with nb(1) show ?thesis by blast
qed

end
