(* ===== verification/Agent_Buffer.thy ===== *)
theory Agent_Buffer
  imports Complex_Main Prelude "HOL-Library.Monad_Syntax"
begin

text \<open>
  The anti-flooding buffer of the agent, \<^verbatim>\<open>src/src/client-agent/src/buffer.c\<close> with the macros of
  \<^verbatim>\<open>client-agent/include/agentd.h\<close>, and its reconfiguration in \<^verbatim>\<open>client-agent/src/agentd.c\<close>: a ring
  of messages with a usage level (normal, warning, full, flood) and rate-limited dispatch. \<open>None\<close> is
  an access outside the allocated array.
\<close>

subsection \<open>State\<close>

record buffered_message =
  bm_data :: "byte list option"
  bm_size :: nat

definition bm_null :: buffered_message where "bm_null = \<lparr>bm_data = None, bm_size = 0\<rparr>"

datatype ab_level = NORMAL | WARNING | FULL | FLOOD

record buff_flags =
  fl_full :: bool
  fl_warn :: bool
  fl_flood :: bool
  fl_normal :: bool

text \<open>
  \<open>ab_buffer\<close> is empty when the C pointer is NULL. \<open>buflength\<close> and \<open>buffer_on\<close> are the fields of the
  agent's configuration \<^verbatim>\<open>agt\<close>.
\<close>

record agent_buffer =
  ab_buffer :: "buffered_message list"
  ab_i :: nat
  ab_j :: nat
  ab_state :: ab_level
  buff :: buff_flags
  ab_start :: int
  warn_level :: int
  normal_level :: int
  tolerance :: int
  buflength :: nat
  buffer_on :: bool
  msg_count :: uint32

subsection \<open>Floating-point quotients\<close>

text \<open>
  The usage levels compare a single-precision quotient with a double-precision one. A quotient
  \<open>a / b\<close> of integers with \<open>0 \<le> a \<le> b\<close> rounded to \<open>p\<close> bits is a mantissa and a number of binary
  places; ties go to the even mantissa. Division by zero is not a number.
\<close>

function fp_scale :: "nat \<Rightarrow> int \<Rightarrow> int \<Rightarrow> nat \<Rightarrow> nat" where
  "fp_scale p a b k = (if a \<le> 0 \<or> a * 2 ^ k \<ge> b * 2 ^ (p - 1) then k else fp_scale p a b (k + 1))"
  by pat_completeness auto
termination
  by (relation "measure (\<lambda>(p, a, b, k). nat (b * 2 ^ (p - 1) - a * 2 ^ k))") auto

declare fp_scale.simps [simp del]

definition round_half_even :: "int \<Rightarrow> int \<Rightarrow> int" where
  "round_half_even a b =
     (if 2 * (a mod b) < b \<or> 2 * (a mod b) = b \<and> even (a div b) then a div b else a div b + 1)"

definition fp_div :: "nat \<Rightarrow> int \<Rightarrow> int \<Rightarrow> (int \<times> nat) option" where
  "fp_div p a b =
     (if b = 0 then None
      else (let k = fp_scale p a b (p - 1) in Some (round_half_even (a * 2 ^ k) b, k)))"

definition fp_le :: "(int \<times> nat) option \<Rightarrow> (int \<times> nat) option \<Rightarrow> bool" where
  "fp_le x y = (case (x, y) of (Some (m, k), Some (n, l)) \<Rightarrow> m * 2 ^ l \<le> n * 2 ^ k | _ \<Rightarrow> False)"

definition usage :: "agent_buffer \<Rightarrow> (int \<times> nat) option" where
  "usage ab =
     fp_div 24 ((int (ab_i ab) - int (ab_j ab) + int (buflength ab) + 1) mod (int (buflength ab) + 1))
       (int (buflength ab))"

definition full :: "agent_buffer \<Rightarrow> bool" where
  "full ab \<longleftrightarrow> (ab_i ab + 1) mod (buflength ab + 1) = ab_j ab"

definition warn :: "agent_buffer \<Rightarrow> bool" where
  "warn ab \<longleftrightarrow> fp_le (fp_div 53 (warn_level ab) 100) (usage ab)"

definition nowarn :: "agent_buffer \<Rightarrow> bool" where
  "nowarn ab \<longleftrightarrow> fp_le (usage ab) (fp_div 53 (warn_level ab) 100)"

definition normal :: "agent_buffer \<Rightarrow> bool" where
  "normal ab \<longleftrightarrow> fp_le (usage ab) (fp_div 53 (normal_level ab) 100)"

subsection \<open>Appending\<close>

definition buffer_init :: "agent_buffer \<Rightarrow> int \<Rightarrow> int \<Rightarrow> int \<Rightarrow> agent_buffer" where
  "buffer_init ab wl nl tol =
     (ab\<lparr>ab_buffer := (if ab_buffer ab = [] then replicate (buflength ab + 1) bm_null else ab_buffer ab),
         warn_level := wl, normal_level := nl, tolerance := tol\<rparr>)"

text \<open>The first part of \<^verbatim>\<open>buffer_append\<close>: the usage may reach a higher level. \<open>now\<close> is \<^verbatim>\<open>time(0)\<close>.\<close>

definition raise_level :: "int \<Rightarrow> agent_buffer \<Rightarrow> agent_buffer" where
  "raise_level now ab =
     (case ab_state ab of
        NORMAL \<Rightarrow>
          if full ab then ab\<lparr>buff := (buff ab)\<lparr>fl_full := True\<rparr>, ab_state := FULL, ab_start := now\<rparr>
          else if warn ab then ab\<lparr>ab_state := WARNING, buff := (buff ab)\<lparr>fl_warn := True\<rparr>\<rparr>
          else ab
      | WARNING \<Rightarrow>
          if full ab then ab\<lparr>buff := (buff ab)\<lparr>fl_full := True\<rparr>, ab_state := FULL, ab_start := now\<rparr>
          else ab
      | FULL \<Rightarrow>
          if now - ab_start ab \<ge> tolerance ab
          then ab\<lparr>ab_state := FLOOD, buff := (buff ab)\<lparr>fl_flood := True\<rparr>\<rparr>
          else ab
      | FLOOD \<Rightarrow> ab)"

text \<open>The bytes \<^verbatim>\<open>buffer_append\<close> copies of a message and the size it records.\<close>

definition append_message :: "byte list \<Rightarrow> int \<Rightarrow> buffered_message" where
  "append_message msg msg_len =
     (if msg_len < 0
      then (let payload_size = length (takeWhile (\<lambda>c. c \<noteq> 0) msg)
            in \<lparr>bm_data = Some (take (payload_size + 1) msg), bm_size = payload_size\<rparr>)
      else \<lparr>bm_data = Some (take (nat msg_len) msg), bm_size = nat msg_len\<rparr>)"

definition buffer_append ::
    "int \<Rightarrow> agent_buffer \<Rightarrow> byte list \<Rightarrow> int \<Rightarrow> (int \<times> agent_buffer) option" where
  "buffer_append now ab msg msg_len =
     (let ab1 = (raise_level now ab)\<lparr>msg_count := msg_count ab + 1\<rparr> in
      if full ab1 then Some (- 1, ab1)
      else if ab_i ab1 < length (ab_buffer ab1)
      then Some (0, ab1\<lparr>ab_buffer := (ab_buffer ab1)[ab_i ab1 := append_message msg msg_len],
                        ab_i := (ab_i ab1 + 1) mod (buflength ab1 + 1)\<rparr>)
      else None)"

subsection \<open>Dispatching\<close>

definition lower_level :: "agent_buffer \<Rightarrow> agent_buffer" where
  "lower_level ab =
     (case ab_state ab of
        NORMAL \<Rightarrow> ab
      | WARNING \<Rightarrow>
          if normal ab then ab\<lparr>ab_state := NORMAL, buff := (buff ab)\<lparr>fl_normal := True\<rparr>\<rparr> else ab
      | _ \<Rightarrow>
          (let ab1 = (if nowarn ab then ab\<lparr>ab_state := WARNING\<rparr> else ab)
           in if normal ab1 then ab1\<lparr>ab_state := NORMAL, buff := (buff ab1)\<lparr>fl_normal := True\<rparr>\<rparr>
              else ab1))"

text \<open>
  The section of \<^verbatim>\<open>dispatch_buffer\<close> under the mutex: it waits on an empty buffer, stops (\<open>None\<close> as
  the message) when the buffer has been disabled, and otherwise takes the oldest message.
\<close>

definition dispatch_take ::
    "agent_buffer \<Rightarrow> (buffered_message option, agent_buffer) outcome option" where
  "dispatch_take ab =
     (if ab_i ab = ab_j ab \<and> buffer_on ab then Some (Waits ab)
      else if \<not> buffer_on ab then Some (Returns None ab)
      else
        (let ab1 = lower_level ab in
         if ab_j ab1 < length (ab_buffer ab1)
         then Some (Returns (Some (ab_buffer ab1 ! ab_j ab1))
                (ab1\<lparr>ab_buffer := (ab_buffer ab1)[ab_j ab1 := bm_null],
                     ab_j := (ab_j ab1 + 1) mod (buflength ab1 + 1)\<rparr>))
         else None))"

text \<open>The rest of an iteration: pending status events are sent, then the message.\<close>

datatype dispatched = Status ab_level | Event "byte list" nat

definition dispatch_send ::
    "buffered_message \<Rightarrow> agent_buffer \<Rightarrow> dispatched list \<times> agent_buffer" where
  "dispatch_send m ab =
     ((if fl_warn (buff ab) then [Status WARNING] else [])
      @ (if fl_full (buff ab) then [Status FULL] else [])
      @ (if fl_flood (buff ab) then [Status FLOOD] else [])
      @ (if fl_normal (buff ab) then [Status NORMAL] else [])
      @ (case bm_data m of None \<Rightarrow> [] | Some d \<Rightarrow> [Event d (bm_size m)]),
      ab\<lparr>buff := \<lparr>fl_full = False, fl_warn = False, fl_flood = False, fl_normal = False\<rparr>\<rparr>)"

text \<open>Times are seconds and nanoseconds; \<^verbatim>\<open>delay\<close> yields the time to sleep, if any.\<close>

type_synonym timespec = "int \<times> int"

definition time_sub :: "timespec \<Rightarrow> timespec \<Rightarrow> timespec" where
  "time_sub a b =
     (let s = fst a - fst b; n = snd a - snd b
      in if n < 0 then (s - 1, n + 1000000000) else (s, n))"

definition delay :: "int \<Rightarrow> timespec \<Rightarrow> timespec option" where
  "delay events_persec ts_loop =
     (let interval_ns = 1000000000 div events_persec;
          ts_timeout = time_sub (interval_ns div 1000000000, interval_ns mod 1000000000) ts_loop
      in if fst ts_timeout \<ge> 0 then Some ts_timeout else None)"

subsection \<open>Resizing\<close>

text \<open>The C remainder has the sign of the dividend.\<close>

definition c_rem :: "int \<Rightarrow> int \<Rightarrow> int" where
  "c_rem a b = (if a < 0 then - ((- a) mod b) else a mod b)"

definition w_agentd_get_buffer_lenght :: "agent_buffer \<Rightarrow> int" where
  "w_agentd_get_buffer_lenght ab =
     (if buffer_on ab then
        (let retval = c_rem (int (ab_i ab) - int (ab_j ab)) (int (buflength ab) + 1)
         in if retval < 0 then retval + int (buflength ab) + 1 else retval)
      else - 1)"

definition w_agentd_buffer_free :: "agent_buffer \<Rightarrow> nat \<Rightarrow> agent_buffer option" where
  "w_agentd_buffer_free ab current_capacity =
     (if ab_buffer ab = [] \<or> current_capacity = 0 then Some ab
      else if current_capacity < length (ab_buffer ab)
      then Some (ab\<lparr>ab_buffer := [], buflength := 0, ab_i := 0, ab_j := 0\<rparr>)
      else None)"

text \<open>\<^verbatim>\<open>memcpy\<close> of \<open>n\<close> cells from \<open>src\<close> at \<open>off\<close> to the start of the \<open>dst\<close> cells from \<open>pos\<close> on.\<close>

definition copy_cells ::
    "buffered_message list \<Rightarrow> nat \<Rightarrow> nat \<Rightarrow> buffered_message list \<Rightarrow> nat \<Rightarrow> buffered_message list option" where
  "copy_cells src off n dst pos =
     (if off + n \<le> length src \<and> pos + n \<le> length dst
      then Some (take pos dst @ take n (drop off src) @ drop (pos + n) dst) else None)"

text \<open>The loop that keeps the oldest messages when the buffer shrinks, from the \<open>k\<close>-th on.\<close>

fun shrink_copy ::
    "agent_buffer \<Rightarrow> nat \<Rightarrow> nat \<Rightarrow> nat \<Rightarrow> buffered_message list \<Rightarrow> buffered_message list option" where
  "shrink_copy ab current_capacity k 0 tmp = Some tmp"
| "shrink_copy ab current_capacity k (Suc n) tmp =
     (let old_idx = (ab_j ab + k) mod (current_capacity + 1) in
      if old_idx < length (ab_buffer ab) \<and> k < length tmp
      then shrink_copy ab current_capacity (k + 1) n
             (if bm_data (ab_buffer ab ! old_idx) \<noteq> None then tmp[k := ab_buffer ab ! old_idx] else tmp)
      else None)"

text \<open>The copy into a larger buffer, in logical order, when \<open>count\<close> messages are stored.\<close>

definition grow_copy ::
    "agent_buffer \<Rightarrow> nat \<Rightarrow> nat \<Rightarrow> buffered_message list \<Rightarrow> buffered_message list option" where
  "grow_copy ab current_capacity count temp =
     (if ab_j ab < ab_i ab then copy_cells (ab_buffer ab) (ab_j ab) count temp 0
      else if ab_j ab > current_capacity + 1 then None
      else do {
        let first_part = current_capacity + 1 - ab_j ab;
        t \<leftarrow> copy_cells (ab_buffer ab) (ab_j ab) first_part temp 0;
        copy_cells (ab_buffer ab) 0 (ab_i ab) t first_part
      })"

definition w_agentd_buffer_resize ::
    "agent_buffer \<Rightarrow> nat \<Rightarrow> nat \<Rightarrow> (int \<times> agent_buffer) option" where
  "w_agentd_buffer_resize ab current_capacity desired_capacity =
     (if desired_capacity = 0 then Some (- 1, ab)
      else if desired_capacity = current_capacity then Some (0, ab)
      else
        (let count = w_agentd_get_buffer_lenght ab; temp = replicate (desired_capacity + 1) bm_null in
         if count < 0 then Some (- 1, ab)
         else if nat count > current_capacity + 1 then Some (- 1, ab)
         else if desired_capacity > current_capacity then
           do {
             temp' \<leftarrow> grow_copy ab current_capacity (nat count) temp;
             Some (0, ab\<lparr>ab_buffer := temp', ab_j := 0, ab_i := nat count\<rparr>)
           }
         else
           do {
             let retained = (if nat count < desired_capacity then nat count else desired_capacity);
             temp' \<leftarrow> shrink_copy ab current_capacity 0 retained temp;
             if current_capacity < length (ab_buffer ab)
             then Some (0, ab\<lparr>ab_buffer := temp', ab_j := 0, ab_i := retained, msg_count := of_nat retained\<rparr>)
             else None
           }))"

text \<open>
  The reload of the configuration in \<^verbatim>\<open>agentd.c\<close>: \<open>new_on\<close> and \<open>new_length\<close> are what \<^verbatim>\<open>ReadConfig\<close>
  leaves in \<^verbatim>\<open>agt\<close> before the buffer is freed, created or resized.
\<close>

definition agent_reload ::
    "agent_buffer \<Rightarrow> bool \<Rightarrow> nat \<Rightarrow> int \<Rightarrow> int \<Rightarrow> int \<Rightarrow> agent_buffer option" where
  "agent_reload ab new_on new_length wl nl tol =
     (let current_capacity = buflength ab;
          ab1 = ab\<lparr>buffer_on := new_on, buflength := new_length\<rparr>
      in if \<not> new_on \<and> buffer_on ab then w_agentd_buffer_free ab1 current_capacity
         else if \<not> buffer_on ab \<and> new_on then Some (buffer_init ab1 wl nl tol)
         else if new_on then map_option snd (w_agentd_buffer_resize ab1 current_capacity new_length)
         else Some ab1)"

subsection \<open>Abstraction and invariant\<close>

definition ab_count :: "agent_buffer \<Rightarrow> nat" where
  "ab_count ab = ring_count (ab_i ab) (ab_j ab) (buflength ab + 1)"

definition ab_cells :: "agent_buffer \<Rightarrow> buffered_message list" where
  "ab_cells ab = ring_list (ab_buffer ab) (ab_j ab) (ab_count ab)"

text \<open>The invariant: the array has one cell more than the configured length, and stored cells have data.\<close>

definition ab_inv :: "agent_buffer \<Rightarrow> bool" where
  "ab_inv ab \<longleftrightarrow> buffer_on ab \<and> length (ab_buffer ab) = buflength ab + 1
     \<and> ab_i ab \<le> buflength ab \<and> ab_j ab \<le> buflength ab
     \<and> (\<forall>m \<in> set (ab_cells ab). bm_data m \<noteq> None)"

definition ab_msgs :: "agent_buffer \<Rightarrow> byte list list" where
  "ab_msgs ab = map (\<lambda>m. the (bm_data m)) (ab_cells ab)"

text \<open>The buffer as its clients see it, at a given time: messages go in and come out.\<close>

definition ab_put :: "int \<Rightarrow> byte list \<Rightarrow> agent_buffer \<Rightarrow> agent_buffer option" where
  "ab_put now msg ab = (case buffer_append now ab msg (int (length msg)) of
       Some (r, ab') \<Rightarrow> if r = 0 then Some ab' else None
     | None \<Rightarrow> None)"

definition ab_take :: "agent_buffer \<Rightarrow> (byte list \<times> agent_buffer) option" where
  "ab_take ab = (case dispatch_take ab of
       Some (Returns (Some m) ab') \<Rightarrow> Some (the (bm_data m), snd (dispatch_send m ab'))
     | _ \<Rightarrow> None)"

text \<open>
  Runs of the agent: appends (at a time, by \<open>buffer_append\<close>) and iterations of the dispatcher. The
  run collects the messages accepted and everything dispatched.
\<close>

datatype ab_op = Append int "byte list" | Dispatch

fun ab_run :: "ab_op list \<Rightarrow> agent_buffer \<Rightarrow> (byte list list \<times> dispatched list \<times> agent_buffer) option" where
  "ab_run [] ab = Some ([], [], ab)"
| "ab_run (Append now msg # ops) ab =
     do {
       (r, ab') \<leftarrow> buffer_append now ab msg (int (length msg));
       (ins, outs, ab'') \<leftarrow> ab_run ops ab';
       Some (if r = 0 then msg # ins else ins, outs, ab'')
     }"
| "ab_run (Dispatch # ops) ab =
     do {
       t \<leftarrow> dispatch_take ab;
       (case t of
          Returns (Some m) ab' \<Rightarrow>
            (let (sent, ab'') = dispatch_send m ab'
             in do { (ins, outs, ab3) \<leftarrow> ab_run ops ab''; Some (ins, sent @ outs, ab3) })
        | Returns None ab' \<Rightarrow> ab_run ops ab'
        | Waits ab' \<Rightarrow> ab_run ops ab')
     }"

definition dispatched_events :: "dispatched list \<Rightarrow> byte list list" where
  "dispatched_events ds = [d. Event d n \<leftarrow> ds]"

definition ab_appends :: "ab_op list \<Rightarrow> nat" where
  "ab_appends ops = length (filter (\<lambda>op. op \<noteq> Dispatch) ops)"

text \<open>The buffer of an agent that starts with the given length and levels.\<close>

definition ab_fresh :: "nat \<Rightarrow> int \<Rightarrow> int \<Rightarrow> int \<Rightarrow> agent_buffer" where
  "ab_fresh len wl nl tol = buffer_init
     \<lparr>ab_buffer = [], ab_i = 0, ab_j = 0, ab_state = NORMAL,
      buff = \<lparr>fl_full = False, fl_warn = False, fl_flood = False, fl_normal = False\<rparr>, ab_start = 0,
      warn_level = 0, normal_level = 0, tolerance = 0, buflength = len, buffer_on = True, msg_count = 0\<rparr>
     wl nl tol"

subsection \<open>Levels change nothing but themselves\<close>

lemma raise_level_frame [simp]:
  "ab_buffer (raise_level now ab) = ab_buffer ab" "ab_i (raise_level now ab) = ab_i ab"
  "ab_j (raise_level now ab) = ab_j ab" "buflength (raise_level now ab) = buflength ab"
  "buffer_on (raise_level now ab) = buffer_on ab" "full (raise_level now ab) = full ab"
  by (simp_all add: raise_level_def full_def split: ab_level.splits)

lemma lower_level_frame [simp]:
  "ab_buffer (lower_level ab) = ab_buffer ab" "ab_i (lower_level ab) = ab_i ab"
  "ab_j (lower_level ab) = ab_j ab" "buflength (lower_level ab) = buflength ab"
  "buffer_on (lower_level ab) = buffer_on ab"
  by (simp_all add: lower_level_def Let_def split: ab_level.splits)

lemma ab_inv_ring:
  assumes "ab_inv ab"
  shows "ab_i ab < buflength ab + 1" "ab_j ab < buflength ab + 1" "length (ab_buffer ab) = buflength ab + 1"
    "ab_count ab < buflength ab + 1"
  using assms ring_count_less[of "buflength ab + 1"] by (auto simp: ab_inv_def ab_count_def)

lemma full_iff: "ab_inv ab \<Longrightarrow> full ab \<longleftrightarrow> ab_count ab = buflength ab"
  using ring_count_full[OF ab_inv_ring(1,2)] by (simp add: full_def ab_count_def)

lemma buffer_append_full:
  "ab_inv ab \<Longrightarrow> ab_count ab = buflength ab \<Longrightarrow>
   \<exists>ab'. buffer_append now ab msg n = Some (- 1, ab') \<and> ab_cells ab' = ab_cells ab \<and> ab_inv ab'
     \<and> buflength ab' = buflength ab"
  using full_iff[of ab]
  by (simp add: buffer_append_def Let_def full_def ab_inv_def ab_cells_def ab_count_def)

lemma buffer_append_room:
  assumes "ab_inv ab" "ab_count ab < buflength ab"
  shows "\<exists>ab'. buffer_append now ab msg n = Some (0, ab') \<and> ab_cells ab' = ab_cells ab @ [append_message msg n]
    \<and> ab_inv ab' \<and> buflength ab' = buflength ab"
proof -
  note ring = ab_inv_ring[OF assms(1)]
  let ?l = "buflength ab + 1"
  have nf: "Suc (ab_i ab) mod ?l \<noteq> ab_j ab" using full_iff[OF assms(1)] assms(2) by (simp add: full_def)
  define ab' where "ab' = (raise_level now ab)\<lparr>msg_count := msg_count ab + 1,
    ab_buffer := (ab_buffer ab)[ab_i ab := append_message msg n], ab_i := (ab_i ab + 1) mod ?l\<rparr>"
  have app: "buffer_append now ab msg n = Some (0, ab')"
    using nf ring by (simp add: buffer_append_def Let_def full_def ab'_def)
  have count: "ab_count ab' = Suc (ab_count ab)"
    using ring_count_push[OF ring(1,2) nf] by (simp add: ab_count_def ab'_def)
  have slot: "(ab_j ab + ab_count ab) mod ?l = ab_i ab"
    using ring_count_end[OF ring(1,2)] by (simp add: ab_count_def)
  have "ab_count ab < length (ab_buffer ab)" using ring by simp
  from ring_list_push[OF this, of "ab_j ab" "append_message msg n"]
  have "ring_list ((ab_buffer ab)[ab_i ab := append_message msg n]) (ab_j ab) (Suc (ab_count ab))
      = ab_cells ab @ [append_message msg n]" unfolding ring(3) slot by (simp add: ab_cells_def)
  then have cells: "ab_cells ab' = ab_cells ab @ [append_message msg n]"
    unfolding ab_cells_def[of ab'] count by (simp add: ab'_def)
  have "ab_i ab' \<le> buflength ab" by (simp add: ab'_def less_Suc_eq_le[symmetric])
  then have "ab_inv ab'" using assms(1) cells
    by (auto simp: ab_inv_def ab'_def append_message_def Let_def)
  then show ?thesis using app cells by (auto simp: ab'_def)
qed

lemma dispatch_take_first:
  assumes "ab_inv ab" "ab_cells ab = m # ms"
  shows "\<exists>ab'. dispatch_take ab = Some (Returns (Some m) ab') \<and> ab_cells ab' = ms \<and> ab_inv ab'
    \<and> buflength ab' = buflength ab"
proof -
  note ring = ab_inv_ring[OF assms(1)]
  let ?l = "buflength ab + 1"
  have n: "ab_count ab = Suc (length ms)" using arg_cong[OF assms(2), of length] by (simp add: ab_cells_def)
  then have ne: "ab_i ab \<noteq> ab_j ab" using ring_count_0_iff[OF ring(1,2)] by (simp add: ab_count_def)
  define ab' where "ab' = (lower_level ab)\<lparr>ab_buffer := (ab_buffer ab)[ab_j ab := bm_null],
    ab_j := (ab_j ab + 1) mod ?l\<rparr>"
  have front: "ab_cells ab = ab_buffer ab ! ab_j ab # ring_list (ab_buffer ab) (Suc (ab_j ab) mod ?l) (length ms)"
    using ring_list_front[of "ab_j ab" "ab_buffer ab" "length ms"] ring n by (simp add: ab_cells_def)
  have take: "dispatch_take ab = Some (Returns (Some m) ab')"
    using ne ring assms front by (simp add: dispatch_take_def Let_def ab'_def ab_inv_def)
  have count: "ab_count ab' = length ms"
    using ring_count_pop[OF ring(1,2) ne] n by (simp add: ab_count_def ab'_def)
  have slot: "(Suc (ab_j ab) mod ?l + length ms) mod ?l = ab_i ab"
    using ring_count_end[OF ring(1), of "Suc (ab_j ab) mod ?l"] count by (simp add: ab_count_def ab'_def)
  have "ring_list ((ab_buffer ab)[ab_j ab := bm_null]) (Suc (ab_j ab) mod ?l) (length ms) = ms"
  proof -
    have "ring_list ((ab_buffer ab)[ab_j ab := bm_null]) (Suc (ab_j ab) mod ?l) (length ms)
        = ring_list (ab_buffer ab) (Suc (ab_j ab) mod ?l) (length ms)"
    proof (rule ring_list_cong)
      fix k assume "k < length ms"
      then have "Suc k < ?l" using n ring(4) by simp
      from mod_slot_distinct[of 0 "Suc k" ?l "ab_j ab", OF _ this] ring(2)
      have "(Suc (ab_j ab) mod ?l + k) mod ?l \<noteq> ab_j ab" by (simp add: mod_add_left_eq)
      then show "(ab_buffer ab)[ab_j ab := bm_null] !
            ((Suc (ab_j ab) mod ?l + k) mod length ((ab_buffer ab)[ab_j ab := bm_null]))
          = ab_buffer ab ! ((Suc (ab_j ab) mod ?l + k) mod length (ab_buffer ab))"
        using ring(3) by simp
    qed simp
    then show ?thesis using front assms(2) by simp
  qed
  then have cells: "ab_cells ab' = ms" unfolding ab_cells_def count by (simp add: ab'_def)
  have "ab_j ab' \<le> buflength ab" by (simp add: ab'_def less_Suc_eq_le[symmetric])
  then have "ab_inv ab'" using assms cells by (auto simp: ab_inv_def ab'_def)
  then show ?thesis using take cells by (auto simp: ab'_def)
qed

lemma dispatch_send_frame [simp]:
  "ab_cells (snd (dispatch_send m ab)) = ab_cells ab" "ab_inv (snd (dispatch_send m ab)) = ab_inv ab"
  "buflength (snd (dispatch_send m ab)) = buflength ab" "ab_msgs (snd (dispatch_send m ab)) = ab_msgs ab"
  by (simp_all add: dispatch_send_def ab_cells_def ab_count_def ab_inv_def ab_msgs_def)

lemma length_ab_cells [simp]: "length (ab_cells ab) = ab_count ab"
  by (simp add: ab_cells_def)

lemma dispatch_take_empty:
  assumes "ab_inv ab" "ab_cells ab = []"
  shows "dispatch_take ab = Some (Waits ab)"
proof -
  have "ab_count ab = 0" using arg_cong[OF assms(2), of length] by simp
  then have "ab_i ab = ab_j ab"
    using ring_count_0_iff[OF ab_inv_ring(1,2)[OF assms(1)]] by (simp add: ab_count_def)
  with assms(1) show ?thesis by (simp add: dispatch_take_def ab_inv_def)
qed

lemma append_message_data [simp]: "bm_data (append_message msg (int (length msg))) = Some msg"
  by (simp add: append_message_def)

lemma length_ab_msgs [simp]: "length (ab_msgs ab) = ab_count ab"
  by (simp add: ab_msgs_def)

interpretation abq: bounded_fifo "ab_put now" ab_take ab_msgs buflength ab_inv for now
proof unfold_locales
  fix q :: agent_buffer and x :: "byte list"
  assume "ab_inv q" "length (ab_msgs q) < buflength q"
  with buffer_append_room[of q now x "int (length x)"]
  show "\<exists>q'. ab_put now x q = Some q' \<and> ab_inv q' \<and> ab_msgs q' = ab_msgs q @ [x] \<and> buflength q' = buflength q"
    by (auto simp: ab_put_def ab_msgs_def)
next
  fix q :: agent_buffer and x :: "byte list"
  assume "ab_inv q" "buflength q \<le> length (ab_msgs q)"
  with buffer_append_full[of q now x "int (length x)"] ab_inv_ring(4)[of q]
  show "ab_put now x q = None" by (auto simp: ab_put_def)
next
  fix q :: agent_buffer
  assume "ab_inv q" "ab_msgs q = []"
  then show "ab_take q = None" using dispatch_take_empty by (simp add: ab_take_def ab_msgs_def)
next
  fix q :: agent_buffer and x xs
  assume q: "ab_inv q" "ab_msgs q = x # xs"
  then obtain m ms where m: "ab_cells q = m # ms" "x = the (bm_data m)" "xs = map (\<lambda>m. the (bm_data m)) ms"
    by (auto simp: ab_msgs_def)
  from dispatch_take_first[OF q(1) m(1)] m
  show "\<exists>q'. ab_take q = Some (x, q') \<and> ab_inv q' \<and> ab_msgs q' = xs \<and> buflength q' = buflength q"
    by (auto simp: ab_take_def ab_msgs_def)
qed

lemma dispatched_events_simps [simp]:
  "dispatched_events [] = []" "dispatched_events (xs @ ys) = dispatched_events xs @ dispatched_events ys"
  by (simp_all add: dispatched_events_def)

lemma dispatch_send_events:
  "bm_data m = Some d \<Longrightarrow> dispatched_events (fst (dispatch_send m ab)) = [d]"
  by (simp add: dispatch_send_def dispatched_events_def)

lemma ab_run_from:
  "ab_inv ab \<Longrightarrow> \<exists>ins outs ab'. ab_run ops ab = Some (ins, outs, ab') \<and> ab_inv ab'
     \<and> ab_msgs ab @ ins = dispatched_events outs @ ab_msgs ab' \<and> buflength ab' = buflength ab"
proof (induction ops arbitrary: ab)
  case Nil
  then show ?case by simp
next
  case (Cons a ops)
  show ?case
  proof (cases a)
    case (Append now msg)
    have "ab_count ab \<le> buflength ab" using ab_inv_ring(4)[OF Cons.prems] by simp
    then consider "ab_count ab = buflength ab" | "ab_count ab < buflength ab" by linarith
    then show ?thesis
    proof cases
      case 1
      from buffer_append_full[OF Cons.prems 1, of now msg "int (length msg)"] obtain ab1 where
        ab1: "buffer_append now ab msg (int (length msg)) = Some (- 1, ab1)" "ab_inv ab1"
          "ab_msgs ab1 = ab_msgs ab" "buflength ab1 = buflength ab" by (auto simp: ab_msgs_def)
      from Cons.IH[OF ab1(2)] ab1 Append show ?thesis by auto
    next
      case 2
      from buffer_append_room[OF Cons.prems 2, of now msg "int (length msg)"] obtain ab1 where
        ab1: "buffer_append now ab msg (int (length msg)) = Some (0, ab1)" "ab_inv ab1"
          "ab_msgs ab1 = ab_msgs ab @ [msg]" "buflength ab1 = buflength ab" by (auto simp: ab_msgs_def)
      from Cons.IH[OF ab1(2)] ab1 Append show ?thesis by auto
    qed
  next
    case Dispatch
    show ?thesis
    proof (cases "ab_cells ab")
      case Nil
      with dispatch_take_empty[OF Cons.prems] Cons.IH[OF Cons.prems] Dispatch show ?thesis by simp
    next
      case (Cons m ms)
      obtain d where d: "bm_data m = Some d" using Cons.prems Cons by (auto simp: ab_inv_def)
      from dispatch_take_first[OF Cons.prems Cons] obtain ab1 where
        ab1: "dispatch_take ab = Some (Returns (Some m) ab1)" "ab_cells ab1 = ms" "ab_inv ab1"
          "buflength ab1 = buflength ab" by blast
      from Cons.IH[of "snd (dispatch_send m ab1)"] ab1 obtain ins outs ab' where
        "ab_run ops (snd (dispatch_send m ab1)) = Some (ins, outs, ab')" "ab_inv ab'"
        "ab_msgs ab1 @ ins = dispatched_events outs @ ab_msgs ab'" "buflength ab' = buflength ab" by auto
      with Dispatch ab1 Cons d dispatch_send_events[OF d, of ab1] show ?thesis
        by (auto simp: ab_msgs_def split_beta)
    qed
  qed
qed

subsection \<open>Alarms\<close>

definition ab_alarm :: "agent_buffer \<Rightarrow> bool \<Rightarrow> bool" where
  "ab_alarm ab seen \<longleftrightarrow> (ab_state ab \<in> {FULL, FLOOD} \<longrightarrow> fl_full (buff ab) \<or> seen)"

lemma raise_level_alarm:
  "ab_alarm ab seen \<Longrightarrow> ab_alarm (raise_level now ab) seen"
  "fl_full (buff ab) \<Longrightarrow> fl_full (buff (raise_level now ab))"
  "full ab \<Longrightarrow> ab_state (raise_level now ab) \<in> {FULL, FLOOD}"
  by (cases "ab_state ab"; simp add: raise_level_def ab_alarm_def)+

lemma lower_level_alarm:
  "ab_alarm ab seen \<Longrightarrow> ab_alarm (lower_level ab) seen"
  "fl_full (buff (lower_level ab)) = fl_full (buff ab)"
  by (cases "ab_state ab"; simp add: lower_level_def ab_alarm_def Let_def)+

lemma buffer_append_levels:
  assumes "buffer_append now ab msg n = Some (r, ab')"
  shows "ab_state ab' = ab_state (raise_level now ab)" "buff ab' = buff (raise_level now ab)" "r \<noteq> 0 \<longleftrightarrow> full ab"
proof -
  have "full ((raise_level now ab)\<lparr>msg_count := c\<rparr>) = full ab" for c by (simp add: full_def)
  with assms show "ab_state ab' = ab_state (raise_level now ab)" "buff ab' = buff (raise_level now ab)"
    "r \<noteq> 0 \<longleftrightarrow> full ab" by (auto simp: buffer_append_def Let_def split: if_splits)
qed

lemma buffer_append_alarm:
  assumes "buffer_append now ab msg n = Some (r, ab')" "ab_alarm ab seen"
  shows "ab_alarm ab' seen" "fl_full (buff ab) \<longrightarrow> fl_full (buff ab')" "r \<noteq> 0 \<longrightarrow> fl_full (buff ab') \<or> seen"
  using buffer_append_levels[OF assms(1)] raise_level_alarm(1)[OF assms(2), of now] raise_level_alarm(2,3)[of ab now]
  by (auto simp: ab_alarm_def)

lemma dispatch_take_levels:
  assumes "dispatch_take ab = Some (Returns (Some m) ab')"
  shows "ab_state ab' = ab_state (lower_level ab)" "buff ab' = buff (lower_level ab)"
  using assms by (auto simp: dispatch_take_def Let_def split: if_splits)

lemma dispatch_alarm:
  assumes "dispatch_take ab = Some (Returns (Some m) ab')" "ab_alarm ab seen"
  shows "ab_alarm (snd (dispatch_send m ab')) (seen \<or> Status FULL \<in> set (fst (dispatch_send m ab')))"
    "fl_full (buff ab) \<longrightarrow> Status FULL \<in> set (fst (dispatch_send m ab'))"
proof -
  have sent: "Status FULL \<in> set (fst (dispatch_send m ab')) \<longleftrightarrow> fl_full (buff ab)"
    using dispatch_take_levels[OF assms(1)] lower_level_alarm(2)[of ab]
    by (simp add: dispatch_send_def split: option.splits)
  have "ab_alarm ab' seen"
    using lower_level_alarm(1)[OF assms(2)] dispatch_take_levels[OF assms(1)] by (simp add: ab_alarm_def)
  with sent dispatch_take_levels[OF assms(1)] lower_level_alarm(2)[of ab]
  show "ab_alarm (snd (dispatch_send m ab')) (seen \<or> Status FULL \<in> set (fst (dispatch_send m ab')))"
    by (auto simp: ab_alarm_def dispatch_send_def)
  show "fl_full (buff ab) \<longrightarrow> Status FULL \<in> set (fst (dispatch_send m ab'))" using sent by simp
qed

lemma dispatch_take_stays:
  "dispatch_take ab = Some (Waits ab') \<Longrightarrow> ab' = ab" "dispatch_take ab = Some (Returns None ab') \<Longrightarrow> ab' = ab"
  by (auto simp: dispatch_take_def Let_def split: if_splits)

lemma ab_run_alarm:
  "ab_run ops ab = Some (ins, outs, ab') \<Longrightarrow> ab_alarm ab seen \<Longrightarrow>
   length ins < ab_appends ops \<or> fl_full (buff ab) \<Longrightarrow>
   seen \<or> Status FULL \<in> set outs \<or> fl_full (buff ab')"
proof (induction ops arbitrary: ab ins outs seen)
  case Nil
  then show ?case by (auto simp: ab_appends_def)
next
  case (Cons a ops)
  show ?case
  proof (cases a)
    case (Append now msg)
    from Cons.prems(1) Append obtain r ab1 ins1 where
      r: "buffer_append now ab msg (int (length msg)) = Some (r, ab1)" "ab_run ops ab1 = Some (ins1, outs, ab')"
        "ins = (if r = 0 then msg # ins1 else ins1)"
      by (auto simp: bind_eq_Some_conv split: prod.splits)
    note al = buffer_append_alarm[OF r(1) Cons.prems(2)]
    have "length ins1 < ab_appends ops \<or> fl_full (buff ab1) \<or> seen"
      using Cons.prems(3) al r(3) Append by (auto simp: ab_appends_def split: if_splits)
    with Cons.IH[OF r(2) al(1)] show ?thesis by blast
  next
    case Dispatch
    from Cons.prems(1) Dispatch obtain t where t: "dispatch_take ab = Some t"
      by (auto simp: bind_eq_Some_conv)
    show ?thesis
    proof (cases t)
      case (Waits ab1)
      then have "ab1 = ab" using t dispatch_take_stays(1) by blast
      with Cons.prems Dispatch t Waits Cons.IH[of ab ins outs seen] show ?thesis by (auto simp: ab_appends_def)
    next
      case (Returns x ab1)
      show ?thesis
      proof (cases x)
        case None
        then have "ab1 = ab" using t Returns dispatch_take_stays(2) by blast
        with Cons.prems Dispatch t Returns None Cons.IH[of ab ins outs seen] show ?thesis
          by (auto simp: ab_appends_def)
      next
        case (Some m)
        note al = dispatch_alarm[OF t[unfolded Returns Some] Cons.prems(2)]
        from Cons.prems(1) Dispatch t Returns Some obtain outs1 where
          r: "ab_run ops (snd (dispatch_send m ab1)) = Some (ins, outs1, ab')"
            "outs = fst (dispatch_send m ab1) @ outs1"
          by (auto simp: bind_eq_Some_conv split: prod.splits)
        show ?thesis
          using Cons.IH[OF r(1) al(1)] Cons.prems(3) al(2) r(2) Dispatch by (auto simp: ab_appends_def)
      qed
    qed
  qed
qed

subsection \<open>Rounded quotients\<close>

lemma fp_scale_ge: "k \<le> fp_scale p a b k"
  by (induction p a b k rule: fp_scale.induct) (subst fp_scale.simps, auto)

lemma round_half_even_error:
  assumes "0 < b"
  shows "\<bar>2 * (round_half_even a b * b - a)\<bar> \<le> b"
proof -
  define q r where "q = a div b" and "r = a mod b"
  have a: "a = q * b + r" and r: "0 \<le> r" "r < b" using assms by (auto simp: q_def r_def)
  have "round_half_even a b * b - a = (if 2 * r < b \<or> 2 * r = b \<and> even q then - r else b - r)"
    unfolding round_half_even_def q_def[symmetric] r_def[symmetric] by (auto simp: a algebra_simps)
  then show ?thesis using r by auto
qed

lemma fp_div_error:
  assumes "0 < b" "0 < p" "fp_div p a b = Some (m, k)"
  shows "\<bar>of_int m / 2 ^ k - of_int a / of_int b\<bar> \<le> (1 / 2 ^ p :: real)"
proof -
  have k: "p - 1 \<le> k" and m: "m = round_half_even (a * 2 ^ k) b"
    using assms fp_scale_ge[of "p - 1" p a b] by (auto simp: fp_div_def Let_def)
  have "\<bar>2 * (m * b - a * 2 ^ k)\<bar> \<le> b" using round_half_even_error[OF assms(1)] m by simp
  then have "real_of_int \<bar>2 * (m * b - a * 2 ^ k)\<bar> \<le> real_of_int b" by (simp only: of_int_le_iff)
  moreover have "real_of_int \<bar>2 * (m * b - a * 2 ^ k)\<bar> = \<bar>2 * (real_of_int m * b - a * 2 ^ k)\<bar>" by simp
  ultimately have "2 * \<bar>real_of_int m * b - a * 2 ^ k\<bar> \<le> b" by (simp only: abs_mult)
  then have "\<bar>real_of_int m * b - a * 2 ^ k\<bar> / (b * 2 ^ k) \<le> (b / 2) / (b * 2 ^ k)"
    using assms(1) by (intro divide_right_mono) auto
  moreover have "\<bar>of_int m / 2 ^ k - of_int a / of_int b\<bar> = \<bar>real_of_int m * b - a * 2 ^ k\<bar> / (b * 2 ^ k)"
    using assms(1) by (simp add: field_simps abs_divide abs_mult)
  moreover have "(b / 2) / (b * 2 ^ k) = (1 / 2 ^ Suc k :: real)" using assms(1) by (simp add: field_simps)
  moreover have "(1 / 2 ^ Suc k :: real) \<le> 1 / 2 ^ p"
    using k assms(2) by (intro divide_left_mono power_increasing) auto
  ultimately show ?thesis by linarith
qed

lemma fp_le_iff:
  "fp_le (Some (m, k)) (Some (n, l)) \<longleftrightarrow> (of_int m / 2 ^ k :: real) \<le> of_int n / 2 ^ l"
proof -
  have "(of_int m / 2 ^ k :: real) \<le> of_int n / 2 ^ l \<longleftrightarrow> (of_int m * 2 ^ l :: real) \<le> of_int n * 2 ^ k"
    by (simp add: field_simps)
  also have "\<dots> \<longleftrightarrow> real_of_int (m * 2 ^ l) \<le> real_of_int (n * 2 ^ k)" by simp
  also have "\<dots> \<longleftrightarrow> m * 2 ^ l \<le> n * 2 ^ k" by (rule of_int_le_iff)
  finally show ?thesis by (simp add: fp_le_def)
qed

text \<open>
  The rounded comparison agrees with the exact one as long as two different quotients are
  further apart than both roundings; a tie is left to the rounding.
\<close>

lemma fp_le_exact:
  assumes "0 < b" "0 < b'" "0 < p" "0 < p'" "b * b' \<le> 10000000" "1 / 2 ^ p + 1 / 2 ^ p' < (1 / 10000000 :: real)"
    and "a * b' < a' * b"
  shows "fp_le (fp_div p a b) (fp_div p' a' b')" "\<not> fp_le (fp_div p' a' b') (fp_div p a b)"
proof -
  obtain m k where x: "fp_div p a b = Some (m, k)" using assms(1) by (simp add: fp_div_def Let_def)
  obtain m' k' where y: "fp_div p' a' b' = Some (m', k')" using assms(2) by (simp add: fp_div_def Let_def)
  note ex = fp_div_error[OF assms(1,3) x] and ey = fp_div_error[OF assms(2,4) y]
  have "a * b' + 1 \<le> a' * b" using assms(7) by simp
  then have "real_of_int (a * b' + 1) \<le> real_of_int (a' * b)" by (simp only: of_int_le_iff)
  then have "real_of_int (a * b' + 1) / (b * b') \<le> real_of_int (a' * b) / (b * b')"
    using assms(1,2) by (intro divide_right_mono) auto
  then have "real_of_int a / b + 1 / (b * b') \<le> real_of_int a' / b'"
    using assms(1,2) by (simp add: add_divide_distrib)
  moreover have "real_of_int (b * b') \<le> 10000000" using assms(5) by (simp only: of_int_le_numeral_iff)
  then have "1 / 10000000 \<le> (1 / (b * b') :: real)"
    using assms(1,2) by (intro divide_left_mono) auto
  ultimately have "(of_int m / 2 ^ k :: real) < of_int m' / 2 ^ k'" using ex ey assms(6) by linarith
  then show "fp_le (fp_div p a b) (fp_div p' a' b')" "\<not> fp_le (fp_div p' a' b') (fp_div p a b)"
    unfolding x y fp_le_iff by linarith+
qed

lemma usage_count:
  assumes "ab_inv ab"
  shows "usage ab = fp_div 24 (int (ab_count ab)) (int (buflength ab))"
proof -
  have "int (ab_count ab) = (int (ab_i ab + (buflength ab + 1) - ab_j ab)) mod (int (buflength ab) + 1)"
    by (simp add: ab_count_def ring_count_def zmod_int add.commute)
  also have "int (ab_i ab + (buflength ab + 1) - ab_j ab) = int (ab_i ab) - int (ab_j ab) + int (buflength ab) + 1"
    using ab_inv_ring(2)[OF assms] by simp
  finally show ?thesis by (simp add: usage_def)
qed

lemma usage_level:
  assumes "ab_inv ab" "0 < buflength ab" "buflength ab \<le> 100000"
  shows "lvl * int (buflength ab) < 100 * int (ab_count ab) \<Longrightarrow>
      fp_le (fp_div 53 lvl 100) (usage ab) \<and> \<not> fp_le (usage ab) (fp_div 53 lvl 100)"
    "100 * int (ab_count ab) < lvl * int (buflength ab) \<Longrightarrow>
      fp_le (usage ab) (fp_div 53 lvl 100) \<and> \<not> fp_le (fp_div 53 lvl 100) (usage ab)"
proof -
  let ?l = "int (buflength ab)" and ?n = "int (ab_count ab)"
  have l: "0 < ?l" "100 * ?l \<le> 10000000" "?l * 100 \<le> 10000000" using assms(2,3) by simp_all
  have eps: "1 / 2 ^ 53 + 1 / 2 ^ 24 < (1 / 10000000 :: real)" "1 / 2 ^ 24 + 1 / 2 ^ 53 < (1 / 10000000 :: real)"
    by simp_all
  have pos: "0 < (100::int)" "0 < (24::nat)" "0 < (53::nat)" by simp_all
  note above = fp_le_exact[OF pos(1) l(1) pos(3,2) l(2) eps(1), of lvl ?n]
    and below = fp_le_exact[OF l(1) pos(1) pos(2,3) l(3) eps(2), of ?n lvl]
  show "lvl * ?l < 100 * ?n \<Longrightarrow>
      fp_le (fp_div 53 lvl 100) (usage ab) \<and> \<not> fp_le (usage ab) (fp_div 53 lvl 100)"
    using above unfolding usage_count[OF assms(1)] mult.commute[of 100 ?n] by blast
  show "100 * ?n < lvl * ?l \<Longrightarrow>
      fp_le (usage ab) (fp_div 53 lvl 100) \<and> \<not> fp_le (fp_div 53 lvl 100) (usage ab)"
    using below unfolding usage_count[OF assms(1)] mult.commute[of 100 ?n] by blast
qed

subsection \<open>Resizing\<close>

lemma buffer_length_count:
  assumes "ab_inv ab"
  shows "w_agentd_get_buffer_lenght ab = int (ab_count ab)"
proof -
  note ring = ab_inv_ring[OF assms]
  let ?l = "buflength ab + 1"
  show ?thesis
  proof (cases "ab_j ab \<le> ab_i ab")
    case True
    then have "ab_count ab = ab_i ab - ab_j ab" using ring_count_le ring by (simp add: ab_count_def)
    moreover have "(int (ab_i ab) - int (ab_j ab)) mod (int (buflength ab) + 1) = int (ab_i ab) - int (ab_j ab)"
      using True ring by (intro mod_pos_pos_trivial) auto
    ultimately show ?thesis
      using True assms by (simp add: w_agentd_get_buffer_lenght_def c_rem_def Let_def ab_inv_def)
  next
    case False
    then have "ab_count ab = ab_i ab + ?l - ab_j ab" using ring_count_gt ring by (simp add: ab_count_def)
    moreover have "(int (ab_j ab) - int (ab_i ab)) mod (int (buflength ab) + 1) = int (ab_j ab) - int (ab_i ab)"
      using False ring by (intro mod_pos_pos_trivial) auto
    ultimately show ?thesis
      using False assms by (simp add: w_agentd_get_buffer_lenght_def c_rem_def Let_def ab_inv_def)
  qed
qed

lemma ab_cells_front:
  assumes "length (ab_buffer ab) = buflength ab + 1" "ab_j ab = 0" "ab_i ab \<le> buflength ab"
  shows "ab_cells ab = take (ab_i ab) (ab_buffer ab)"
  using assms ring_count_le[of 0 "ab_i ab" "buflength ab + 1"] ring_list_linear[of 0 "ab_i ab" "ab_buffer ab"]
  by (simp add: ab_cells_def ab_count_def)

lemma shrink_copy_cells:
  "k + n \<le> length cells \<Longrightarrow> cells = ring_list (ab_buffer ab) (ab_j ab) (length cells) \<Longrightarrow>
   length (ab_buffer ab) = cur + 1 \<Longrightarrow> \<forall>m \<in> set cells. bm_data m \<noteq> None \<Longrightarrow> k + n \<le> length tmp \<Longrightarrow>
   shrink_copy ab cur k n tmp = Some (take k tmp @ take n (drop k cells) @ drop (k + n) tmp)"
proof (induction n arbitrary: k tmp)
  case 0
  then show ?case by simp
next
  case (Suc n)
  let ?x = "ab_buffer ab ! ((ab_j ab + k) mod (cur + 1))"
  have k: "k < length cells" "k < length tmp" using Suc.prems(1,5) by auto
  then have x: "cells ! k = ?x" using nth_ring_list[of k "length cells"] Suc.prems(2,3) by metis
  have some: "bm_data ?x \<noteq> None" using Suc.prems(4) nth_mem[OF k(1)] x by auto
  have "shrink_copy ab cur k (Suc n) tmp = shrink_copy ab cur (Suc k) n (tmp[k := ?x])"
    using some k Suc.prems(3) by (simp add: Let_def)
  also have "\<dots> = Some (take (Suc k) (tmp[k := ?x]) @ take n (drop (Suc k) cells) @ drop (Suc k + n) (tmp[k := ?x]))"
    using Suc.prems by (intro Suc.IH) auto
  also have "take (Suc k) (tmp[k := ?x]) = take k tmp @ [?x]"
    using k by (simp add: take_Suc_conv_app_nth)
  finally have run: "shrink_copy ab cur k (Suc n) tmp
    = Some (take k tmp @ ([?x] @ take n (drop (Suc k) cells)) @ drop (k + Suc n) tmp)" by simp
  have "[?x] @ take n (drop (Suc k) cells) = take (Suc n) (drop k cells)"
    using k x by (metis Cons_nth_drop_Suc append_Cons append_Nil take_Suc_Cons)
  with run show ?case by simp
qed

lemma grow_copy_cells:
  assumes "ab_inv ab" "buflength ab < des"
  shows "\<exists>t. grow_copy ab (buflength ab) (ab_count ab) (replicate (des + 1) bm_null) = Some t
    \<and> length t = des + 1 \<and> take (ab_count ab) t = ab_cells ab"
proof -
  note ring = ab_inv_ring[OF assms(1)]
  let ?b = "ab_buffer ab" and ?i = "ab_i ab" and ?j = "ab_j ab" and ?c = "ab_count ab"
  consider (lin) "?j < ?i" | (empty) "?i = ?j" | (wrap) "?i < ?j" by linarith
  then show ?thesis
  proof cases
    case lin
    then have c: "?c = ?i - ?j" using ring_count_le ring by (simp add: ab_count_def)
    then have "ab_cells ab = take ?c (drop ?j ?b)"
      using ring_list_linear[of ?j ?c ?b] ring lin by (simp add: ab_cells_def)
    then show ?thesis using lin c ring assms(2) by (simp add: grow_copy_def copy_cells_def)
  next
    case empty
    then have "?c = 0" by (simp add: ab_count_def)
    then show ?thesis using empty ring assms(2) by (simp add: grow_copy_def copy_cells_def ab_cells_def Let_def)
  next
    case wrap
    then have c: "?c = ?i + (buflength ab + 1) - ?j" using ring_count_gt ring by (simp add: ab_count_def)
    then have "ab_cells ab = drop ?j ?b @ take ?i ?b"
      using ring_list_wrapped[of ?j ?b ?c] ring wrap by (simp add: ab_cells_def)
    then show ?thesis using wrap c ring assms(2) by (auto simp: grow_copy_def copy_cells_def Let_def)
  qed
qed

lemma buffer_resize_cells:
  assumes "ab_inv ab" "0 < des"
  shows "\<exists>ab'. w_agentd_buffer_resize ab (buflength ab) des = Some (0, ab')
    \<and> ab_inv (ab'\<lparr>buflength := des\<rparr>) \<and> ab_cells (ab'\<lparr>buflength := des\<rparr>) = take des (ab_cells ab)"
proof -
  note ring = ab_inv_ring[OF assms(1)]
  let ?c = "ab_count ab"
  have len: "w_agentd_get_buffer_lenght ab = int ?c" by (rule buffer_length_count[OF assms(1)])
  have new: "ab_inv (ab'\<lparr>buflength := des\<rparr>) \<and> ab_cells (ab'\<lparr>buflength := des\<rparr>) = take des (ab_cells ab)"
    if "ab_j ab' = 0" "ab_i ab' = min des ?c" "length (ab_buffer ab') = des + 1"
      "take (min des ?c) (ab_buffer ab') = take des (ab_cells ab)" "buffer_on ab'" for ab'
  proof -
    have cells: "ab_cells (ab'\<lparr>buflength := des\<rparr>) = take des (ab_cells ab)"
      using that ab_cells_front[of "ab'\<lparr>buflength := des\<rparr>"] by simp
    with that assms(1) show ?thesis by (auto simp: ab_inv_def dest: in_set_takeD)
  qed
  consider (same) "des = buflength ab" | (grow) "des > buflength ab" | (shrink) "des < buflength ab" by linarith
  then show ?thesis
  proof cases
    case same
    then have "ab\<lparr>buflength := des\<rparr> = ab" by simp
    moreover have "take des (ab_cells ab) = ab_cells ab" using same ring(4) by simp
    ultimately show ?thesis using same assms by (simp add: w_agentd_buffer_resize_def)
  next
    case grow
    from grow_copy_cells[OF assms(1) grow] obtain t where t: "length t = des + 1" "take ?c t = ab_cells ab"
      and copy: "grow_copy ab (buflength ab) ?c (replicate (des + 1) bm_null) = Some t" by blast
    have run: "w_agentd_buffer_resize ab (buflength ab) des = Some (0, ab\<lparr>ab_buffer := t, ab_j := 0, ab_i := ?c\<rparr>)"
      unfolding w_agentd_buffer_resize_def len Let_def nat_int copy using grow ring(4) assms(2) by simp
    have "take des (ab_cells ab) = ab_cells ab" using grow ring(4) by simp
    with run t grow ring(4) assms(1) new[of "ab\<lparr>ab_buffer := t, ab_j := 0, ab_i := ?c\<rparr>"] show ?thesis
      by (auto simp: ab_inv_def)
  next
    case shrink
    define n where "n = min des ?c"
    have copy: "shrink_copy ab (buflength ab) 0 n (replicate (des + 1) bm_null)
        = Some (take n (ab_cells ab) @ drop n (replicate (des + 1) bm_null))"
      using shrink_copy_cells[of 0 n "ab_cells ab" ab "buflength ab" "replicate (des + 1) bm_null"] ring assms(1)
      by (simp add: n_def ab_inv_def) (simp add: ab_cells_def)
    have n: "(if ?c < des then ?c else des) = n" by (simp add: n_def min_def)
    define ab' where "ab' = ab\<lparr>ab_buffer := take n (ab_cells ab) @ drop n (replicate (des + 1) bm_null),
      ab_j := 0, ab_i := n, msg_count := of_nat n\<rparr>"
    have "w_agentd_buffer_resize ab (buflength ab) des = Some (0, ab')"
      unfolding w_agentd_buffer_resize_def len Let_def nat_int n copy ab'_def
      using shrink ring(3,4) assms(2) by simp
    moreover have "take n (ab_cells ab) = take des (ab_cells ab)" by (simp add: n_def min_def)
    ultimately show ?thesis using new[of ab'] assms(1) by (auto simp: ab'_def n_def ab_inv_def)
  qed
qed

subsection \<open>Properties\<close>

lemma ab_fresh_ok:
  "ab_inv (ab_fresh len wl nl tol)" "ab_msgs (ab_fresh len wl nl tol) = []"
  "buflength (ab_fresh len wl nl tol) = len" "ab_alarm (ab_fresh len wl nl tol) False"
  by (simp_all add: ab_fresh_def buffer_init_def ab_inv_def ab_cells_def ab_count_def ab_msgs_def ab_alarm_def)

text \<open>
  C14: from its start the agent's buffer is a bounded queue: over any sequence of appends and
  iterations of the dispatcher no access leaves the array, the events sent to the server
  followed by the messages still stored are exactly the messages accepted, in order, and at most
  \<^verbatim>\<open>buflength\<close> messages are stored.
\<close>

theorem ab_run_fifo:
  "\<exists>ins outs ab. ab_run ops (ab_fresh len wl nl tol) = Some (ins, outs, ab)
     \<and> ins = dispatched_events outs @ ab_msgs ab \<and> length (ab_msgs ab) \<le> len \<and> ab_inv ab"
proof -
  from ab_run_from[OF ab_fresh_ok(1)] obtain ins outs ab where
    "ab_run ops (ab_fresh len wl nl tol) = Some (ins, outs, ab)" "ab_inv ab"
    "ins = dispatched_events outs @ ab_msgs ab" "buflength ab = len"
    using ab_fresh_ok(2,3) by (metis append_Nil)
  with ab_inv_ring(4)[of ab] show ?thesis by auto
qed


definition ab_demo_ops :: "ab_op list" where
  "ab_demo_ops = [Append 10 [1], Append 11 [2], Append 12 [3], Dispatch, Append 13 [4], Dispatch]"


text \<open>
  C16: the usage levels are exact in spite of the mixed floating-point comparison. For every
  configurable length, a usage strictly above a level is seen as above and not as below, and
  one strictly below as below and not as above; only a tie is decided by rounding.
\<close>

theorem usage_levels:
  assumes "ab_inv ab" "0 < buflength ab" "buflength ab \<le> 100000"
  shows "(warn_level ab * int (buflength ab) < 100 * int (ab_count ab) \<longrightarrow> warn ab \<and> \<not> nowarn ab)
    \<and> (100 * int (ab_count ab) < warn_level ab * int (buflength ab) \<longrightarrow> \<not> warn ab \<and> nowarn ab)
    \<and> (normal_level ab * int (buflength ab) < 100 * int (ab_count ab) \<longrightarrow> \<not> normal ab)
    \<and> (100 * int (ab_count ab) < normal_level ab * int (buflength ab) \<longrightarrow> normal ab)"
  using usage_level[OF assms] by (simp add: warn_def nowarn_def normal_def)

definition ab_demo :: agent_buffer where
  "ab_demo = (ab_fresh 5000 90 70 15)\<lparr>ab_buffer := replicate 5001 \<lparr>bm_data = Some [], bm_size = 0\<rparr>,
     ab_i := 4501, ab_state := WARNING\<rparr>"

theorem usage_levels_witness: "ab_inv ab_demo \<and> warn ab_demo \<and> \<not> nowarn ab_demo \<and> \<not> normal ab_demo"
proof -
  have f: "buflength ab_demo = 5000" "ab_i ab_demo = 4501" "ab_j ab_demo = 0" "warn_level ab_demo = 90"
    "normal_level ab_demo = 70" "buffer_on ab_demo"
    "ab_buffer ab_demo = replicate 5001 \<lparr>bm_data = Some [], bm_size = 0\<rparr>"
    by (simp_all add: ab_demo_def ab_fresh_def buffer_init_def)
  have count: "ab_count ab_demo = 4501" by (simp add: ab_count_def f ring_count_def)
  have "ab_cells ab_demo = take 4501 (ab_buffer ab_demo)"
    using ab_cells_front[of ab_demo] f by simp
  then have inv: "ab_inv ab_demo" by (auto simp: ab_inv_def f dest: in_set_takeD)
  have "warn ab_demo \<and> \<not> nowarn ab_demo \<and> \<not> normal ab_demo"
    using usage_levels[OF inv] by (simp add: f count)
  with inv show ?thesis by simp
qed

text \<open>
  C17: a resize called with the capacity the ring has been running with keeps the oldest messages
  in order, all of them when the new capacity suffices and otherwise as many as it holds, and
  leaves a well-formed ring of the new capacity, wherever the messages lay in the old one.
\<close>

theorem buffer_resize_keeps:
  assumes "ab_inv ab" "0 < des"
  shows "\<exists>ab'. w_agentd_buffer_resize ab (buflength ab) des = Some (0, ab')
    \<and> ab_inv (ab'\<lparr>buflength := des\<rparr>) \<and> ab_msgs (ab'\<lparr>buflength := des\<rparr>) = take des (ab_msgs ab)"
  using buffer_resize_cells[OF assms] by (auto simp: ab_msgs_def take_map)

definition ab_wrapped :: agent_buffer where
  "ab_wrapped = (ab_fresh 3 90 70 15)\<lparr>ab_buffer := [\<lparr>bm_data = Some [7], bm_size = 1\<rparr>, bm_null, bm_null,
     \<lparr>bm_data = Some [6], bm_size = 1\<rparr>], ab_i := 1, ab_j := 3\<rparr>"

lemma ab_wrapped_ok: "ab_inv ab_wrapped" "ab_msgs ab_wrapped = [[6], [7]]" "buflength ab_wrapped = 3"
  by code_simp+

theorem buffer_resize_keeps_witness:
  "\<exists>ab'. w_agentd_buffer_resize ab_wrapped 3 5 = Some (0, ab') \<and> ab_msgs (ab'\<lparr>buflength := 5\<rparr>) = [[6], [7]]"
  using buffer_resize_keeps[OF ab_wrapped_ok(1), of 5] by (auto simp: ab_wrapped_ok)

lemma dispatch_overrun:
  "length (ab_buffer ab) = l \<Longrightarrow> ab_i ab < ab_j ab \<Longrightarrow> ab_j ab \<le> l \<Longrightarrow> l \<le> buflength ab \<Longrightarrow> buffer_on ab \<Longrightarrow>
   ab_run (replicate (l + 1 - ab_j ab) Dispatch) ab = None"
proof (induction "l - ab_j ab" arbitrary: ab)
  case 0
  then show ?case by (simp add: dispatch_take_def Let_def)
next
  case (Suc n)
  define m where "m = ab_buffer ab ! ab_j ab"
  define ab1 where "ab1 = (lower_level ab)\<lparr>ab_buffer := (ab_buffer ab)[ab_j ab := bm_null], ab_j := ab_j ab + 1\<rparr>"
  have step: "dispatch_take ab = Some (Returns (Some m) ab1)"
    using Suc.hyps(2) Suc.prems by (simp add: dispatch_take_def Let_def ab1_def m_def)
  have f: "length (ab_buffer ab1) = l" "ab_i ab1 = ab_i ab" "ab_j ab1 = ab_j ab + 1" "buflength ab1 = buflength ab"
    "buffer_on ab1" using Suc.prems by (simp_all add: ab1_def)
  have "ab_run (replicate (l - ab_j ab) Dispatch) (snd (dispatch_send m ab1)) = None"
    using Suc.hyps(1)[of "snd (dispatch_send m ab1)"] Suc.hyps(2) Suc.prems f by (simp add: dispatch_send_def)
  moreover have "l + 1 - ab_j ab = Suc (l - ab_j ab)" using Suc.prems by simp
  ultimately show ?case using step by (simp add: split_beta)
qed

text \<open>
  C18: the reload of the configuration stores the new length before it resizes, so that the resize
  computes the number of messages with the wrong modulus. Enlarging a wrapped buffer by more than
  the free gap is refused, yet the new length stays in force over the old array, and after the
  messages up to the end of the array the dispatcher reads outside of it.
\<close>

theorem reload_grow_overrun:
  assumes "ab_inv ab" "ab_i ab < ab_j ab" "ab_j ab - ab_i ab < new_length - buflength ab"
  shows "agent_reload ab True new_length wl nl tol = Some (ab\<lparr>buflength := new_length\<rparr>)
    \<and> ab_run (replicate (buflength ab + 2 - ab_j ab) Dispatch) (ab\<lparr>buflength := new_length\<rparr>) = None"
proof -
  note ring = ab_inv_ring[OF assms(1)]
  have on: "buffer_on ab" using assms(1) by (simp add: ab_inv_def)
  define ab1 where "ab1 = ab\<lparr>buflength := new_length\<rparr>"
  have ab1: "ab\<lparr>buffer_on := True, buflength := new_length\<rparr> = ab1" using on by (simp add: ab1_def)
  have "(int (ab_j ab) - int (ab_i ab)) mod (int new_length + 1) = int (ab_j ab) - int (ab_i ab)"
    using assms(2,3) by (intro mod_pos_pos_trivial) auto
  then have len: "w_agentd_get_buffer_lenght ab1 = int (new_length + 1 - (ab_j ab - ab_i ab))"
    using assms(2,3) on by (simp add: w_agentd_get_buffer_lenght_def c_rem_def Let_def ab1_def of_nat_diff)
  have "buflength ab + 1 < new_length + 1 - (ab_j ab - ab_i ab)" "new_length \<noteq> 0" "new_length \<noteq> buflength ab"
    using assms(3) by linarith+
  then have "w_agentd_buffer_resize ab1 (buflength ab) new_length = Some (- 1, ab1)"
    unfolding w_agentd_buffer_resize_def Let_def len nat_int by simp
  then have "agent_reload ab True new_length wl nl tol = Some ab1"
    unfolding agent_reload_def Let_def ab1 using on by simp
  moreover have "ab_run (replicate (buflength ab + 1 + 1 - ab_j ab1) Dispatch) ab1 = None"
    using ring assms(2,3) on by (intro dispatch_overrun) (simp_all add: ab1_def)
  ultimately show ?thesis by (simp add: ab1_def)
qed

theorem reload_grow_overrun_witness:
  "ab_inv ab_wrapped \<and> agent_reload ab_wrapped True 6 90 70 15 = Some (ab_wrapped\<lparr>buflength := 6\<rparr>)
   \<and> ab_run [Dispatch, Dispatch] (ab_wrapped\<lparr>buflength := 6\<rparr>) = None"
proof -
  have f: "ab_i ab_wrapped = 1" "ab_j ab_wrapped = 3" by (simp_all add: ab_wrapped_def)
  show ?thesis
    using reload_grow_overrun[OF ab_wrapped_ok(1), of 6 90 70 15] ab_wrapped_ok(1)
    by (simp add: f ab_wrapped_ok(3) numeral_2_eq_2)
qed

text \<open>
  C19: for the same reason a reload that shrinks an unwrapped buffer keeps the number of messages
  modulo the new length plus one, and frees the others, although the new buffer has room for the
  oldest ones.
\<close>

theorem reload_shrink_loses:
  assumes "ab_inv ab" "ab_j ab \<le> ab_i ab" "0 < new_length" "new_length < buflength ab"
  shows "\<exists>ab'. agent_reload ab True new_length wl nl tol = Some ab' \<and> ab_inv ab'
    \<and> ab_msgs ab' = take (ab_count ab mod (new_length + 1)) (ab_msgs ab)"
proof -
  note ring = ab_inv_ring[OF assms(1)]
  have on: "buffer_on ab" using assms(1) by (simp add: ab_inv_def)
  define ab1 where "ab1 = ab\<lparr>buflength := new_length\<rparr>"
  define n where "n = ab_count ab mod (new_length + 1)"
  have ab1: "ab\<lparr>buffer_on := True, buflength := new_length\<rparr> = ab1" using on by (simp add: ab1_def)
  have "ab_count ab = ab_i ab - ab_j ab" using ring_count_le assms(2) ring by (simp add: ab_count_def)
  then have "(int (ab_i ab) - int (ab_j ab)) mod (int new_length + 1) = int n"
    using assms(2) by (simp add: n_def zmod_int of_nat_diff add.commute)
  then have len: "w_agentd_get_buffer_lenght ab1 = int n"
    using assms(2) on by (simp add: w_agentd_get_buffer_lenght_def c_rem_def Let_def ab1_def)
  have n: "n \<le> new_length" "n \<le> ab_count ab" "(if n < new_length then n else new_length) = n"
  proof -
    have "n < new_length + 1" unfolding n_def by (rule mod_less_divisor) simp
    then show "n \<le> new_length" "(if n < new_length then n else new_length) = n" by auto
    show "n \<le> ab_count ab" unfolding n_def by (rule mod_less_eq_dividend)
  qed
  have copy: "shrink_copy ab1 (buflength ab) 0 n (replicate (new_length + 1) bm_null)
      = Some (take n (ab_cells ab) @ drop n (replicate (new_length + 1) bm_null))"
    using shrink_copy_cells[of 0 n "ab_cells ab" ab1 "buflength ab" "replicate (new_length + 1) bm_null"] ring n assms(1)
    by (simp add: ab1_def ab_inv_def) (simp add: ab_cells_def)
  define ab' where "ab' = ab1\<lparr>ab_buffer := take n (ab_cells ab) @ drop n (replicate (new_length + 1) bm_null),
    ab_j := 0, ab_i := n, msg_count := of_nat n\<rparr>"
  have b1: "ab_buffer ab1 = ab_buffer ab" by (simp add: ab1_def)
  have "w_agentd_buffer_resize ab1 (buflength ab) new_length = Some (0, ab')"
    unfolding w_agentd_buffer_resize_def len Let_def nat_int n(3) copy ab'_def b1
    using assms(3,4) n ring by simp
  then have run: "agent_reload ab True new_length wl nl tol = Some ab'"
    unfolding agent_reload_def Let_def ab1 using on by simp
  have "ab_cells ab' = take n (ab_cells ab)"
    using ab_cells_front[of ab'] n by (simp add: ab'_def ab1_def)
  moreover from this have "ab_inv ab'"
    using assms(1) n by (auto simp: ab_inv_def ab'_def ab1_def dest: in_set_takeD)
  ultimately show ?thesis using run by (auto simp: ab_msgs_def n_def take_map)
qed

theorem reload_shrink_loses_witness:
  "\<exists>ab ab'. ab_inv ab \<and> ab_msgs ab = [[1], [2], [3]] \<and> agent_reload ab True 2 90 70 15 = Some ab' \<and> ab_msgs ab' = []"
proof -
  define ab where "ab = snd (snd (the (ab_run [Append 1 [1], Append 1 [2], Append 1 [3]] (ab_fresh 4 90 70 15))))"
  have ab: "ab_inv ab" "ab_msgs ab = [[1], [2], [3]]" "ab_i ab = 3" "ab_j ab = 0" "buflength ab = 4" "ab_count ab = 3"
    unfolding ab_def by code_simp+
  from reload_shrink_loses[OF ab(1), of 2 90 70 15] ab show ?thesis by auto
qed

text \<open>
  The dispatcher keeps to the configured rate: after an iteration that took \<open>ts_loop\<close> it sleeps
  exactly the rest of the interval of \<open>10\<^sup>9 / events_persec\<close> nanoseconds, and does not sleep
  exactly when the iteration took longer than that.
\<close>

definition nanos :: "timespec \<Rightarrow> int" where
  "nanos ts = fst ts * 1000000000 + snd ts"

theorem delay_keeps_rate:
  assumes "0 < events_persec" "0 \<le> snd ts_loop" "snd ts_loop < 1000000000"
  shows "case delay events_persec ts_loop of
      None \<Rightarrow> 1000000000 div events_persec < nanos ts_loop
    | Some t \<Rightarrow> nanos ts_loop + nanos t = 1000000000 div events_persec \<and> 0 \<le> snd t \<and> snd t < 1000000000"
proof -
  define I where "I = 1000000000 div events_persec"
  define q r where "q = I div 1000000000" and "r = I mod 1000000000"
  have "I = q * 1000000000 + r" "0 \<le> r" "r < 1000000000" by (simp_all add: q_def r_def)
  with assms(2,3) show ?thesis
    unfolding delay_def time_sub_def nanos_def I_def[symmetric] q_def[symmetric] r_def[symmetric] Let_def
    by (auto simp: algebra_simps)
qed

theorem delay_keeps_rate_witness:
  "delay 500 (0, 600000) = Some (0, 1400000) \<and> nanos (0, 600000) + nanos (0, 1400000) = 1000000000 div 500"
proof -
  have d: "delay 500 (0, 600000) = Some (0, 1400000)" by (simp add: delay_def time_sub_def)
  with delay_keeps_rate[of 500 "(0, 600000)"] show ?thesis by simp
qed

end
