(* ===== verification/Linked_Queue.thy ===== *)
theory Linked_Queue
  imports Prelude "HOL-Library.Monad_Syntax"
begin

text \<open>
  The doubly linked queue of \<^verbatim>\<open>src/src/shared/src/queue_linked_op.c\<close>. Nodes live in an explicit store
  from addresses to nodes, since \<^verbatim>\<open>linked_queue_unlink_and_push_node\<close> is given a pointer into the
  middle of the list and rewires its neighbours. \<open>None\<close> as a result is the dereference of a pointer
  to no node; data is a pointer, \<open>None\<close> standing for NULL.
\<close>

subsection \<open>queue\_linked\_op.c\<close>

record 'a lq_node =
  node_data :: "'a option"
  node_next :: "nat option"
  node_prev :: "nat option"

text \<open>\<open>lq_brk\<close> is the next address the allocator hands out.\<close>

record 'a linked_queue =
  lq_heap :: "nat \<Rightarrow> 'a lq_node option"
  lq_first :: "nat option"
  lq_last :: "nat option"
  lq_elements :: uint32
  lq_brk :: nat

definition linked_queue_init :: "'a linked_queue" where
  "linked_queue_init = \<lparr>lq_heap = (\<lambda>_. None), lq_first = None, lq_last = None, lq_elements = 0, lq_brk = 0\<rparr>"

definition set_next :: "nat option \<Rightarrow> nat \<Rightarrow> 'a linked_queue \<Rightarrow> 'a linked_queue option" where
  "set_next v a q = do { n \<leftarrow> lq_heap q a; Some (q\<lparr>lq_heap := (lq_heap q)(a \<mapsto> n\<lparr>node_next := v\<rparr>)\<rparr>) }"

definition set_prev :: "nat option \<Rightarrow> nat \<Rightarrow> 'a linked_queue \<Rightarrow> 'a linked_queue option" where
  "set_prev v a q = do { n \<leftarrow> lq_heap q a; Some (q\<lparr>lq_heap := (lq_heap q)(a \<mapsto> n\<lparr>node_prev := v\<rparr>)\<rparr>) }"

definition linked_queue_append_node :: "'a linked_queue \<Rightarrow> nat \<Rightarrow> 'a linked_queue option" where
  "linked_queue_append_node q a =
     do {
       q1 \<leftarrow> (case (lq_first q, lq_last q) of
           (None, _) \<Rightarrow> do {
             q1 \<leftarrow> set_prev None a (q\<lparr>lq_first := Some a, lq_last := Some a\<rparr>);
             set_next None a q1
           }
         | (Some _, None) \<Rightarrow> None
         | (Some _, Some l) \<Rightarrow> do {
             q1 \<leftarrow> set_next (Some a) l q;
             q2 \<leftarrow> set_prev (Some l) a q1;
             q3 \<leftarrow> set_next None a q2;
             Some (q3\<lparr>lq_last := Some a\<rparr>)
           });
       Some (q1\<lparr>lq_elements := lq_elements q1 + 1\<rparr>)
     }"

definition lq_alloc :: "'a option \<Rightarrow> 'a linked_queue \<Rightarrow> nat \<times> 'a linked_queue" where
  "lq_alloc d q =
     (lq_brk q, q\<lparr>lq_heap := (lq_heap q)(lq_brk q \<mapsto> \<lparr>node_data = d, node_next = None, node_prev = None\<rparr>),
                 lq_brk := lq_brk q + 1\<rparr>)"

definition linked_queue_push :: "'a linked_queue \<Rightarrow> 'a option \<Rightarrow> (nat \<times> 'a linked_queue) option" where
  "linked_queue_push q d =
     (case lq_alloc d q of (a, q1) \<Rightarrow> do { q2 \<leftarrow> linked_queue_append_node q1 a; Some (a, q2) })"

text \<open>The locked variant also signals that data is available.\<close>

definition linked_queue_push_ex :: "'a linked_queue \<Rightarrow> 'a option \<Rightarrow> (nat \<times> 'a linked_queue \<times> bool) option" where
  "linked_queue_push_ex q d =
     (case lq_alloc d q of (a, q1) \<Rightarrow> do { q2 \<leftarrow> linked_queue_append_node q1 a; Some (a, q2, True) })"

definition linked_queue_unlink_and_push_node :: "'a linked_queue \<Rightarrow> nat \<Rightarrow> 'a linked_queue option" where
  "linked_queue_unlink_and_push_node q a =
     do {
       n \<leftarrow> lq_heap q a;
       (case node_next n of
          None \<Rightarrow> Some q
        | Some nx \<Rightarrow> do {
            q1 \<leftarrow> set_prev (node_prev n) nx q;
            q2 \<leftarrow> (case node_prev n of
                None \<Rightarrow> Some (q1\<lparr>lq_first := Some nx\<rparr>)
              | Some pv \<Rightarrow> set_next (Some nx) pv q1);
            q3 \<leftarrow> set_prev None a q2;
            q4 \<leftarrow> set_next None a q3;
            linked_queue_append_node (q4\<lparr>lq_elements := lq_elements q4 - 1\<rparr>) a
          })
     }"

definition linked_queue_pop_node :: "'a linked_queue \<Rightarrow> 'a linked_queue option" where
  "linked_queue_pop_node q =
     do {
       tmp \<leftarrow> lq_first q;
       n \<leftarrow> lq_heap q tmp;
       q1 \<leftarrow> (case node_next n of
           None \<Rightarrow> Some (q\<lparr>lq_first := None, lq_last := None\<rparr>)
         | Some nx \<Rightarrow> set_prev None nx (q\<lparr>lq_first := Some nx\<rparr>));
       Some (q1\<lparr>lq_elements := lq_elements q1 - 1, lq_heap := (lq_heap q1)(tmp := None)\<rparr>)
     }"

definition linked_queue_pop :: "'a linked_queue \<Rightarrow> ('a option \<times> 'a linked_queue) option" where
  "linked_queue_pop q =
     (case lq_first q of
        None \<Rightarrow> Some (None, q)
      | Some a \<Rightarrow> do {
          n \<leftarrow> lq_heap q a;
          q' \<leftarrow> linked_queue_pop_node q;
          Some (node_data n, q')
        })"

definition linked_queue_pop_ex :: "'a linked_queue \<Rightarrow> ('a, 'a linked_queue) outcome option" where
  "linked_queue_pop_ex q =
     do {
       (d, q') \<leftarrow> linked_queue_pop q;
       Some (case d of None \<Rightarrow> Waits q' | Some x \<Rightarrow> Returns x q')
     }"

subsection \<open>Abstraction\<close>

definition lq_head :: "(nat \<times> 'a option) list \<Rightarrow> nat option" where
  "lq_head xs = (if xs = [] then None else Some (fst (hd xs)))"

text \<open>
  A stretch of the list between the nodes \<open>p\<close> and \<open>n\<close>: its addresses with their data, chained both
  ways.
\<close>

fun lq_seg :: "(nat \<Rightarrow> 'a lq_node option) \<Rightarrow> nat option \<Rightarrow> (nat \<times> 'a option) list \<Rightarrow> nat option \<Rightarrow> bool" where
  "lq_seg h p [] n \<longleftrightarrow> True"
| "lq_seg h p ((a, d) # xs) n \<longleftrightarrow>
     h a = Some \<lparr>node_data = d, node_next = (if xs = [] then n else lq_head xs), node_prev = p\<rparr>
     \<and> lq_seg h (Some a) xs n"

definition lq_end :: "(nat \<times> 'a option) list \<Rightarrow> nat option" where
  "lq_end xs = (if xs = [] then None else Some (fst (last xs)))"

definition lq_rep :: "'a linked_queue \<Rightarrow> (nat \<times> 'a option) list \<Rightarrow> bool" where
  "lq_rep q xs \<longleftrightarrow> lq_seg (lq_heap q) None xs None \<and> distinct (map fst xs)
     \<and> (\<forall>a \<in> set (map fst xs). a < lq_brk q)
     \<and> lq_first q = lq_head xs \<and> lq_last q = lq_end xs \<and> lq_elements q = of_nat (length xs)"

text \<open>What the operations mean on the list of nodes.\<close>

definition lq_move :: "nat \<Rightarrow> (nat \<times> 'a option) list \<Rightarrow> (nat \<times> 'a option) list" where
  "lq_move a xs = filter (\<lambda>x. fst x \<noteq> a) xs @ filter (\<lambda>x. fst x = a) xs"

text \<open>
  A run of the queue's operations, and the same run on the list. A push returns the address of
  its node, by which the node can be moved to the end as long as it is in the queue.
\<close>

datatype 'a lq_op = Lq_push 'a | Lq_pop | Lq_move nat

fun lq_step :: "'a lq_op \<Rightarrow> 'a linked_queue \<Rightarrow> ('a list \<times> 'a linked_queue) option" where
  "lq_step (Lq_push x) q = do { (a, q', _) \<leftarrow> linked_queue_push_ex q (Some x); Some ([], q') }"
| "lq_step Lq_pop q =
     do { r \<leftarrow> linked_queue_pop_ex q; Some (case r of Returns x q' \<Rightarrow> ([x], q') | Waits q' \<Rightarrow> ([], q')) }"
| "lq_step (Lq_move a) q = do { q' \<leftarrow> linked_queue_unlink_and_push_node q a; Some ([], q') }"

fun lq_spec_step :: "'a lq_op \<Rightarrow> (nat \<times> 'a) list \<times> nat \<Rightarrow> ('a list \<times> (nat \<times> 'a) list \<times> nat) option" where
  "lq_spec_step (Lq_push x) (xs, brk) = Some ([], xs @ [(brk, x)], brk + 1)"
| "lq_spec_step Lq_pop (xs, brk) = Some (case xs of [] \<Rightarrow> ([], [], brk) | (a, x) # ys \<Rightarrow> ([x], ys, brk))"
| "lq_spec_step (Lq_move a) (xs, brk) =
     (if a \<in> set (map fst xs)
      then Some ([], filter (\<lambda>x. fst x \<noteq> a) xs @ filter (\<lambda>x. fst x = a) xs, brk) else None)"

subsection \<open>Segments\<close>

lemma lq_head_simps [simp]: "lq_head [] = None" "lq_head (x # xs) = Some (fst x)"
  "lq_head (xs @ ys) = (if xs = [] then lq_head ys else lq_head xs)"
  by (simp_all add: lq_head_def)

lemma lq_end_simps [simp]: "lq_end [] = None" "lq_end (xs @ ys) = (if ys = [] then lq_end xs else lq_end ys)"
  "lq_end (x # xs) = (if xs = [] then Some (fst x) else lq_end xs)"
  by (simp_all add: lq_end_def)

lemma lq_seg_append:
  "lq_seg h p (xs @ ys) n \<longleftrightarrow>
     lq_seg h p xs (if ys = [] then n else lq_head ys)
     \<and> lq_seg h (if xs = [] then p else lq_end xs) ys n"
proof (induction xs arbitrary: p)
  case Nil
  show ?case by simp
next
  case (Cons x xs)
  obtain a d where "x = (a, d)" by force
  with Cons[of "Some a"] show ?case by (cases "xs = []"; cases "ys = []"; simp)
qed

lemma lq_seg_frame:
  "(\<And>a. a \<in> set (map fst xs) \<Longrightarrow> h' a = h a) \<Longrightarrow> lq_seg h' p xs n = lq_seg h p xs n"
  by (induction xs arbitrary: p) auto

lemma lq_seg_update [simp]:
  "a \<notin> fst ` set xs \<Longrightarrow> lq_seg (h(a := x)) p xs n = lq_seg h p xs n"
  by (rule lq_seg_frame) auto

text \<open>A segment starts at its first node and ends at its last one; their outer links can be rewired.\<close>

lemma lq_seg_set_next:
  assumes "lq_seg h p (xs @ [(a, d)]) n" "distinct (map fst (xs @ [(a, d)]))" "h a = Some nd"
  shows "lq_seg (h(a \<mapsto> nd\<lparr>node_next := n'\<rparr>)) p (xs @ [(a, d)]) n'"
  using assms by (auto simp: lq_seg_append split: if_splits)

lemma lq_seg_set_prev:
  assumes "lq_seg h p ((a, d) # xs) n" "distinct (map fst ((a, d) # xs))" "h a = Some nd"
  shows "lq_seg (h(a \<mapsto> nd\<lparr>node_prev := p'\<rparr>)) p' ((a, d) # xs) n"
  using assms by (auto split: if_splits)

subsection \<open>Operations on the list\<close>

lemma lq_append_node_rep:
  assumes rep: "lq_rep q xs" and a: "a \<notin> fst ` set xs" "a < lq_brk q" "lq_heap q a = Some nd"
  shows "\<exists>q'. linked_queue_append_node q a = Some q' \<and> lq_rep q' (xs @ [(a, node_data nd)])
    \<and> lq_brk q' = lq_brk q"
proof (cases xs rule: rev_cases)
  case Nil
  with rep a show ?thesis
    by (auto simp: linked_queue_append_node_def set_prev_def set_next_def lq_rep_def)
next
  case (snoc ys l)
  obtain b d where l: "l = (b, d)" by force
  have seg: "lq_seg (lq_heap q) None (ys @ [(b, d)]) None" and dist: "distinct (map fst (ys @ [(b, d)]))"
    using rep snoc l by (simp_all add: lq_rep_def)
  from seg obtain nb where nb: "lq_heap q b = Some nb" by (auto simp: lq_seg_append)
  have ab: "a \<noteq> b" using a(1) snoc l by auto
  let ?h = "(lq_heap q)(b \<mapsto> nb\<lparr>node_next := Some a\<rparr>, a \<mapsto> nd\<lparr>node_prev := Some b, node_next := None\<rparr>)"
  have "lq_seg ?h None (ys @ [(b, d)]) (Some a)"
    using lq_seg_set_next[OF seg dist nb, of "Some a"] a(1) snoc l by simp
  then have "lq_seg ?h None (xs @ [(a, node_data nd)]) None"
    using snoc l by (simp add: lq_seg_append)
  moreover obtain f where "lq_first q = Some f" "lq_last q = Some b"
    using rep snoc l by (cases ys) (auto simp: lq_rep_def)
  then have "linked_queue_append_node q a
      = Some (q\<lparr>lq_heap := ?h, lq_last := Some a, lq_elements := lq_elements q + 1\<rparr>)"
    using nb a(3) ab by (simp add: linked_queue_append_node_def set_prev_def set_next_def)
  ultimately show ?thesis using rep a snoc by (auto simp: lq_rep_def)
qed

lemma lq_pop_rep:
  assumes rep: "lq_rep q ((a, d) # xs)"
  shows "\<exists>q'. linked_queue_pop q = Some (d, q') \<and> lq_rep q' xs \<and> lq_brk q' = lq_brk q"
proof (cases xs)
  case Nil
  with rep show ?thesis by (auto simp: linked_queue_pop_def linked_queue_pop_node_def lq_rep_def)
next
  case (Cons y ys)
  obtain b e where y: "y = (b, e)" by force
  have seg: "lq_seg (lq_heap q) (Some a) ((b, e) # ys) None" and dist: "distinct (map fst ((b, e) # ys))"
    and ab: "a \<notin> fst ` set ((b, e) # ys)" using rep Cons y by (simp_all add: lq_rep_def)
  from seg obtain nb where nb: "lq_heap q b = Some nb" by simp
  from lq_seg_set_prev[OF seg dist nb, of None] ab dist
  have "lq_seg ((lq_heap q)(b \<mapsto> nb\<lparr>node_prev := None\<rparr>, a := None)) None ((b, e) # ys) None"
    by (subst lq_seg_update) auto
  then show ?thesis
    using rep Cons y nb ab
    by (simp add: linked_queue_pop_def linked_queue_pop_node_def set_prev_def lq_rep_def)
qed

lemma lq_filter:
  "a \<notin> fst ` set xs \<Longrightarrow> filter (\<lambda>x. fst x \<noteq> a) xs = xs \<and> filter (\<lambda>x. fst x = a) xs = []"
  by (induction xs) auto

lemma lq_move_split:
  "distinct (map fst (ys @ (a, d) # zs)) \<Longrightarrow> lq_move a (ys @ (a, d) # zs) = ys @ zs @ [(a, d)]"
  using lq_filter[of a ys] lq_filter[of a zs] by (simp add: lq_move_def)

text \<open>Taking a node out of the middle joins the two parts.\<close>

lemma lq_unlink_seg:
  assumes seg: "lq_seg h None (ys @ (a, d) # (b, e) # zs) None"
    and dist: "distinct (map fst (ys @ (a, d) # (b, e) # zs))"
    and nb: "h b = Some nb" and h1: "h1 = h(b \<mapsto> nb\<lparr>node_prev := lq_end ys\<rparr>)"
    and h2: "h2 = (case lq_end ys of None \<Rightarrow> h1
      | Some p \<Rightarrow> h1(p \<mapsto> (the (h1 p))\<lparr>node_next := Some b\<rparr>))"
  shows "lq_seg h2 None (ys @ (b, e) # zs) None" "lq_end ys = Some p \<Longrightarrow> h1 p \<noteq> None"
proof -
  have right: "lq_seg h1 (lq_end ys) ((b, e) # zs) None"
    using seg dist nb lq_seg_set_prev[of h "Some a" b e zs None nb "lq_end ys"] h1 by (simp add: lq_seg_append)
  have "lq_seg h2 None (ys @ (b, e) # zs) None \<and> (\<forall>p. lq_end ys = Some p \<longrightarrow> h1 p \<noteq> None)"
  proof (cases ys rule: rev_cases)
    case Nil
    with right h2 show ?thesis by simp
  next
    case (snoc us l)
    obtain p c where l: "l = (p, c)" by force
    have left: "lq_seg h1 None (us @ [(p, c)]) (Some a)"
      using seg dist snoc l by (simp add: lq_seg_append h1)
    then obtain np where np: "h1 p = Some np" by (auto simp: lq_seg_append)
    have "lq_seg h2 None (us @ [(p, c)]) (Some b)"
      using lq_seg_set_next[OF left _ np, of "Some b"] dist snoc l np h2 by simp
    moreover have "lq_seg h2 (Some p) ((b, e) # zs) None"
      using right dist snoc l np h2 by simp
    ultimately show ?thesis using snoc l np by (simp add: lq_seg_append)
  qed
  then show "lq_seg h2 None (ys @ (b, e) # zs) None" "lq_end ys = Some p \<Longrightarrow> h1 p \<noteq> None" by auto
qed

lemma lq_move_rep:
  assumes rep: "lq_rep q (ys @ (a, d) # zs)"
  shows "\<exists>q'. linked_queue_unlink_and_push_node q a = Some q' \<and> lq_rep q' (ys @ zs @ [(a, d)])
    \<and> lq_brk q' = lq_brk q"
proof (cases zs)
  case Nil
  with rep show ?thesis by (auto simp: linked_queue_unlink_and_push_node_def lq_rep_def lq_seg_append)
next
  case (Cons z ws)
  obtain b e where z: "z = (b, e)" by force
  have seg: "lq_seg (lq_heap q) None (ys @ (a, d) # (b, e) # ws) None"
    and dist: "distinct (map fst (ys @ (a, d) # (b, e) # ws))" using rep Cons z by (simp_all add: lq_rep_def)
  then obtain nb where nb: "lq_heap q b = Some nb" by (auto simp: lq_seg_append)
  have na: "lq_heap q a = Some \<lparr>node_data = d, node_next = Some b, node_prev = lq_end ys\<rparr>"
    using seg by (simp add: lq_seg_append)
  define h1 where "h1 = (lq_heap q)(b \<mapsto> nb\<lparr>node_prev := lq_end ys\<rparr>)"
  define h2 where "h2 = (case lq_end ys of None \<Rightarrow> h1 | Some p \<Rightarrow> h1(p \<mapsto> (the (h1 p))\<lparr>node_next := Some b\<rparr>))"
  note cut = lq_unlink_seg[OF seg dist nb h1_def h2_def]
  define nd where "nd = \<lparr>node_data = d, node_next = None :: nat option, node_prev = None :: nat option\<rparr>"
  define q4 where "q4 = q\<lparr>lq_first := lq_head (ys @ (b, e) # ws), lq_heap := h2(a \<mapsto> nd),
    lq_elements := lq_elements q - 1\<rparr>"
  have a: "a \<noteq> b" "a \<notin> fst ` set ys" "a \<notin> fst ` set ws" using dist by auto
  have h2a: "h2 a = Some \<lparr>node_data = d, node_next = Some b, node_prev = lq_end ys\<rparr>"
    using na a by (auto simp: h2_def h1_def lq_end_def split: option.splits)
  have "linked_queue_unlink_and_push_node q a = linked_queue_append_node q4 a"
  proof (cases "lq_end ys")
    case None
    then have "ys = []" by (simp add: lq_end_def split: if_splits)
    with None na nb a show ?thesis
      by (simp add: linked_queue_unlink_and_push_node_def set_prev_def set_next_def q4_def h2_def h1_def nd_def)
  next
    case (Some p)
    then have ys: "ys \<noteq> []" "p \<in> fst ` set ys" by (auto simp: lq_end_def split: if_splits)
    then have pab: "p \<noteq> a" "p \<noteq> b" using dist by auto
    obtain np where np: "h1 p = Some np" using cut(2)[OF Some] by blast
    have q4: "q4 = q\<lparr>lq_heap := h2(a \<mapsto> nd), lq_elements := lq_elements q - 1\<rparr>"
      using rep ys by (cases q) (simp add: q4_def lq_rep_def)
    show ?thesis
      using Some na nb a pab np unfolding q4
      by (auto simp: linked_queue_unlink_and_push_node_def set_prev_def set_next_def h2_def h1_def nd_def)
  qed
  moreover have "lq_rep q4 (ys @ (b, e) # ws)"
  proof -
    have "lq_seg (h2(a \<mapsto> nd)) None (ys @ (b, e) # ws) None" using cut(1) a by (subst lq_seg_update) auto
    with rep Cons z show ?thesis by (auto simp: lq_rep_def q4_def)
  qed
  moreover have "a < lq_brk q4" "lq_heap q4 a = Some nd" using rep by (auto simp: lq_rep_def q4_def)
  moreover have "a \<notin> fst ` set (ys @ (b, e) # ws)" using a by auto
  ultimately obtain q' where "linked_queue_unlink_and_push_node q a = Some q'"
    "lq_rep q' ((ys @ (b, e) # ws) @ [(a, node_data nd)])" "lq_brk q' = lq_brk q4"
    using lq_append_node_rep[of q4 "ys @ (b, e) # ws" a nd] by auto
  then show ?thesis using Cons z by (simp add: nd_def q4_def)
qed

lemma lq_push_rep:
  assumes "lq_rep q xs"
  shows "\<exists>q'. linked_queue_push_ex q d = Some (lq_brk q, q', True) \<and> lq_rep q' (xs @ [(lq_brk q, d)])
    \<and> lq_brk q' = lq_brk q + 1"
proof -
  define nd where "nd = \<lparr>node_data = d, node_next = None :: nat option, node_prev = None :: nat option\<rparr>"
  define q1 where "q1 = q\<lparr>lq_heap := (lq_heap q)(lq_brk q \<mapsto> nd), lq_brk := lq_brk q + 1\<rparr>"
  have new: "lq_brk q \<notin> fst ` set xs" using assms by (auto simp: lq_rep_def)
  then have "lq_rep q1 xs" using assms by (auto simp: lq_rep_def q1_def)
  from lq_append_node_rep[OF this new, of nd] obtain q' where
    "linked_queue_append_node q1 (lq_brk q) = Some q'" "lq_rep q' (xs @ [(lq_brk q, d)])" "lq_brk q' = lq_brk q1"
    by (auto simp: q1_def nd_def)
  then show ?thesis by (simp add: linked_queue_push_ex_def lq_alloc_def q1_def nd_def)
qed

subsection \<open>Properties\<close>

definition lq_cells :: "(nat \<times> 'a) list \<Rightarrow> (nat \<times> 'a option) list" where
  "lq_cells xs = map (\<lambda>(a, x). (a, Some x)) xs"

lemma lq_cells_move: "lq_move a (lq_cells xs) = lq_cells (filter (\<lambda>x. fst x \<noteq> a) xs @ filter (\<lambda>x. fst x = a) xs)"
  by (simp add: lq_move_def lq_cells_def filter_map comp_def case_prod_beta)

lemma lq_step_refines:
  assumes "lq_rep q (lq_cells xs)" "lq_spec_step op (xs, lq_brk q) = Some (outs, ys, brk)"
  shows "\<exists>q'. lq_step op q = Some (outs, q') \<and> lq_rep q' (lq_cells ys) \<and> lq_brk q' = brk"
proof (cases op)
  case (Lq_push x)
  with lq_push_rep[OF assms(1), of "Some x"] assms(2) show ?thesis by (auto simp: lq_cells_def)
next
  case Lq_pop
  show ?thesis
  proof (cases xs)
    case Nil
    then have "linked_queue_pop q = Some (None, q)"
      using assms(1) by (simp add: linked_queue_pop_def lq_rep_def lq_cells_def)
    with Lq_pop Nil assms show ?thesis by (auto simp: linked_queue_pop_ex_def)
  next
    case (Cons x zs)
    then have "lq_rep q ((fst x, Some (snd x)) # lq_cells zs)"
      using assms(1) by (simp add: lq_cells_def case_prod_beta)
    from lq_pop_rep[OF this] Lq_pop Cons assms(2) show ?thesis
      by (auto simp: linked_queue_pop_ex_def split: prod.splits)
  qed
next
  case (Lq_move a)
  with assms(2) have a: "a \<in> fst ` set xs" and ys: "lq_cells ys = lq_move a (lq_cells xs)"
    and o: "outs = [] \<and> brk = lq_brk q" by (auto simp: lq_cells_move split: if_splits)
  from a obtain d where "(a, d) \<in> set (lq_cells xs)" by (force simp: lq_cells_def)
  then obtain us vs where s: "lq_cells xs = us @ (a, d) # vs" by (meson split_list)
  have "distinct (map fst (us @ (a, d) # vs))" using assms(1) s by (simp add: lq_rep_def)
  with lq_move_rep[of q us a d vs] assms(1) s ys o Lq_move lq_move_split[of us a d vs] show ?thesis by auto
qed

text \<open>
  C9: the linked queue refines a list. From an empty queue, over any sequence of pushes, pops and
  moves of nodes that are in the queue, no pointer to a freed or missing node is followed, the
  elements popped are those of the list, and the nodes stay chained in the order of the list in
  both directions, with first, last and the element count right.
\<close>

theorem lq_run_refines:
  assumes "run_steps lq_spec_step ops ([], 0) = Some (outs, xs, brk)"
  shows "\<exists>q. run_steps lq_step ops linked_queue_init = Some (outs, q) \<and> lq_rep q (lq_cells xs)"
proof -
  have "\<exists>q'. run_steps lq_step ops q = Some (outs, q') \<and> lq_rep q' (lq_cells xs)"
    if "lq_rep q (lq_cells ys)" "run_steps lq_spec_step ops (ys, lq_brk q) = Some (outs, xs, brk)" for q ys
    using that
  proof (induction ops arbitrary: q ys outs)
    case Nil
    then show ?case by simp
  next
    case (Cons op ops)
    from Cons.prems(2) obtain o1 zs b o2 where
      st: "lq_spec_step op (ys, lq_brk q) = Some (o1, zs, b)" "outs = o1 @ o2"
        "run_steps lq_spec_step ops (zs, b) = Some (o2, xs, brk)"
      by (auto simp: bind_eq_Some_conv)
    from lq_step_refines[OF Cons.prems(1) st(1)] obtain q' where
      q': "lq_step op q = Some (o1, q')" "lq_rep q' (lq_cells zs)" "lq_brk q' = b" by blast
    from Cons.IH[OF q'(2)] q' st show ?case by auto
  qed
  from this[of linked_queue_init "[]"] assms show ?thesis
    by (auto simp: lq_rep_def linked_queue_init_def lq_cells_def)
qed

theorem lq_run_refines_witness:
  "\<exists>q. run_steps lq_step [Lq_push (10::nat), Lq_push 11, Lq_push 12, Lq_move 0, Lq_pop, Lq_move 2, Lq_pop]
      linked_queue_init = Some ([11, 10], q) \<and> lq_rep q (lq_cells [(2, 12)])"
proof -
  have "run_steps lq_spec_step [Lq_push (10::nat), Lq_push 11, Lq_push 12, Lq_move 0, Lq_pop, Lq_move 2, Lq_pop]
      ([], 0) = Some ([11, 10], [(2, 12)], 3)" by code_simp
  from lq_run_refines[OF this] show ?thesis by simp
qed

end
