(* ===== verification/Sec_Msg.thy ===== *)
theory Sec_Msg
  imports Net_Frame Linked_Queue
begin

text \<open>
  The secure messages between agents and server, \<^verbatim>\<open>src/src/shared/os_crypto/shared/msgs.c\<close>: every
  message carries a checksum and a pair of counters, is compressed, padded and encrypted, and the
  receiver rejects what it has seen before. The ciphers, MD5 and zlib are third-party code and
  parameters of the model (\<open>crypto\<close>); the thin wrappers around them in \<^verbatim>\<open>bf_op.c\<close>, \<^verbatim>\<open>aes_op.c\<close>,
  \<^verbatim>\<open>md5_op.c\<close> and \<^verbatim>\<open>os_zlib.c\<close> are modelled. Arrays of characters are byte lists; beyond the end of
  the data they hold zeros.
\<close>

subsection \<open>Text\<close>

definition char_at :: "byte list \<Rightarrow> nat \<Rightarrow> byte" where
  "char_at m i = (if i < length m then m ! i else 0)"

definition is_digit :: "byte \<Rightarrow> bool" where
  "is_digit c \<longleftrightarrow> 48 \<le> c \<and> c \<le> 57"

definition is_space :: "byte \<Rightarrow> bool" where
  "is_space c \<longleftrightarrow> c = 32 \<or> 9 \<le> c \<and> c \<le> 13"

definition digits_value :: "byte list \<Rightarrow> int" where
  "digits_value ds = fold (\<lambda>c n. n * 10 + (uint c - 48)) ds 0"

text \<open>\<^verbatim>\<open>atoi\<close> cast to \<^verbatim>\<open>unsigned int\<close>.\<close>

definition c_atoi :: "byte list \<Rightarrow> uint32" where
  "c_atoi s =
     (let t = dropWhile is_space s
      in if char_at t 0 = 45 then word_of_int (- digits_value (takeWhile is_digit (drop 1 t)))
         else if char_at t 0 = 43 then word_of_int (digits_value (takeWhile is_digit (drop 1 t)))
         else word_of_int (digits_value (takeWhile is_digit t)))"

text \<open>\<^verbatim>\<open>%0wu\<close>: at least \<open>w\<close> decimal digits.\<close>

fun dec_digits :: "nat \<Rightarrow> nat \<Rightarrow> byte list" where
  "dec_digits 0 n = []"
| "dec_digits (Suc w) n = dec_digits w (n div 10) @ [of_nat (48 + n mod 10)]"

text \<open>The width is enough for every value printed here: 5 for 16 bits, 10 for 32 bits, 4 for the local count.\<close>

definition hex_digit :: "nat \<Rightarrow> byte" where
  "hex_digit n = of_nat (if n < 10 then 48 + n else 87 + n)"

definition hex_byte :: "byte \<Rightarrow> byte list" where
  "hex_byte b = [hex_digit (unat b div 16), hex_digit (unat b mod 16)]"

subsection \<open>Cryptographic and compression primitives\<close>

text \<open>
  \<open>bf_cbc key iv enc data\<close> is \<^verbatim>\<open>BF_cbc_encrypt\<close>; \<open>aes_enc\<close> and \<open>aes_dec\<close> are the EVP calls for AES-256 in CBC
  mode (\<open>None\<close> when one of them fails); \<open>z_compress cap data\<close> and \<open>z_uncompress cap data\<close> are \<^verbatim>\<open>compress2\<close> and
  \<^verbatim>\<open>uncompress\<close> into a buffer of \<open>cap\<close> bytes.
\<close>

record crypto =
  bf_cbc :: "byte list \<Rightarrow> byte list \<Rightarrow> bool \<Rightarrow> byte list \<Rightarrow> byte list"
  aes_enc :: "byte list \<Rightarrow> byte list \<Rightarrow> byte list \<Rightarrow> byte list option"
  aes_dec :: "byte list \<Rightarrow> byte list \<Rightarrow> byte list \<Rightarrow> byte list option"
  md5 :: "byte list \<Rightarrow> byte list"
  z_compress :: "nat \<Rightarrow> byte list \<Rightarrow> byte list option"
  z_uncompress :: "nat \<Rightarrow> byte list \<Rightarrow> byte list option"

definition bf_iv :: "byte list" where
  "bf_iv = [0xfe, 0xdc, 0xba, 0x98, 0x76, 0x54, 0x32, 0x10]"

definition aes_iv :: "byte list" where
  "aes_iv = [70, 69, 68, 67, 66, 65, 48, 57, 56, 55, 54, 53, 52, 51, 50, 49]"

text \<open>The value returned and the bytes written.\<close>

definition OS_BF_Str :: "crypto \<Rightarrow> byte list \<Rightarrow> byte list \<Rightarrow> bool \<Rightarrow> nat \<times> byte list" where
  "OS_BF_Str cr input key enc = (1, bf_cbc cr (takeWhile (\<lambda>c. c \<noteq> 0) key) bf_iv enc input)"

definition OS_AES_Str :: "crypto \<Rightarrow> byte list \<Rightarrow> byte list \<Rightarrow> bool \<Rightarrow> nat \<times> byte list" where
  "OS_AES_Str cr input key enc =
     (case (if enc then aes_enc cr key aes_iv input else aes_dec cr key aes_iv input) of
        None \<Rightarrow> (0, [])
      | Some out \<Rightarrow> (length out, out))"

definition OS_MD5_Str :: "crypto \<Rightarrow> byte list \<Rightarrow> byte list" where
  "OS_MD5_Str cr str = concat (map hex_byte (md5 cr str))"

definition os_zlib_compress :: "crypto \<Rightarrow> byte list \<Rightarrow> nat \<Rightarrow> byte list" where
  "os_zlib_compress cr src dst_size = (case z_compress cr dst_size src of None \<Rightarrow> [] | Some out \<Rightarrow> out)"

definition os_zlib_uncompress :: "crypto \<Rightarrow> byte list \<Rightarrow> nat \<Rightarrow> byte list" where
  "os_zlib_uncompress cr src dst_size = (case z_uncompress cr dst_size src of None \<Rightarrow> [] | Some out \<Rightarrow> out)"

subsection \<open>Key store\<close>

datatype crypt_method = W_METH_BLOWFISH | W_METH_AES

datatype key_mode = W_RAW_KEY | W_ENCRYPTION_KEY | W_DUAL_KEY

datatype key_state = KS_VALID | KS_RIDS | KS_CORRUPT | KS_ENCKEY | KS_ERROR

text \<open>\<open>fp\<close> is the inode the entry's counter file is open on; \<open>rids_node\<close> its node in the queue of open files.\<close>

record keyentry =
  key_id :: "byte list"
  encryption_key :: "byte list"
  crypto_method :: crypt_method
  key_global :: uint32
  key_local :: uint32
  key_inode :: nat
  single_host :: bool
  key_fp :: "nat option"
  rids_node :: "nat option"
  updating_time :: int

text \<open>
  The state of the library. The last entry of \<open>keyentries\<close> is the one of the sender. Counter files are
  a directory from names to inodes and their contents by inode: the two numbers a scan reads, if any.
  \<open>s_writable\<close> is whether new files can be opened.
\<close>

record sec_state =
  keyentries :: "keyentry list"
  key_mode :: key_mode
  opened_fp_queue :: "nat linked_queue"
  global_count :: uint32
  local_count :: uint32
  evt_count :: uint32
  rcv_count :: uint32
  c_orig_size :: uint64
  c_comp_size :: uint64
  saved_time :: int
  s_comp_print :: uint32
  s_recv_flush :: uint32
  s_verify_counter :: bool
  rids_dir :: "byte list \<Rightarrow> nat option"
  rids_disk :: "nat \<Rightarrow> (uint32 \<times> uint32) option"
  next_inode :: nat
  s_writable :: bool

definition OS_HEADER_SIZE :: nat where "OS_HEADER_SIZE = 128"
definition MSG_OVERHEAD :: nat where "MSG_OVERHEAD = 53"
definition SENDER_COUNTER :: "byte list" where
  "SENDER_COUNTER = [115, 101, 110, 100, 101, 114, 95, 99, 111, 117, 110, 116, 101, 114]"

definition keysize :: "sec_state \<Rightarrow> nat" where
  "keysize s = length (keyentries s) - 1"

definition entry :: "sec_state \<Rightarrow> nat \<Rightarrow> keyentry" where
  "entry s i = keyentries s ! i"

definition set_entry :: "nat \<Rightarrow> keyentry \<Rightarrow> sec_state \<Rightarrow> sec_state" where
  "set_entry i e s = s\<lparr>keyentries := (keyentries s)[i := e]\<rparr>"

definition File_Inode :: "sec_state \<Rightarrow> byte list \<Rightarrow> nat" where
  "File_Inode s name = (case rids_dir s name of None \<Rightarrow> 0 | Some i \<Rightarrow> i)"

text \<open>\<^verbatim>\<open>wfopen(name, "w")\<close>: the file is created, or emptied.\<close>

definition open_w :: "byte list \<Rightarrow> sec_state \<Rightarrow> (nat \<times> sec_state) option" where
  "open_w name s =
     (if \<not> s_writable s then None
      else case rids_dir s name of
        Some i \<Rightarrow> Some (i, s\<lparr>rids_disk := (rids_disk s)(i := None)\<rparr>)
      | None \<Rightarrow> Some (next_inode s,
          s\<lparr>rids_dir := (rids_dir s)(name \<mapsto> next_inode s), rids_disk := (rids_disk s)(next_inode s := None),
            next_inode := next_inode s + 1\<rparr>))"

definition ReloadCounter :: "nat \<Rightarrow> byte list \<Rightarrow> sec_state \<Rightarrow> sec_state" where
  "ReloadCounter i cid s =
     (let new_inode = File_Inode s cid in
      if key_inode (entry s i) \<noteq> new_inode then
        (case rids_dir s cid of
           None \<Rightarrow>
             (case open_w cid s of
                None \<Rightarrow> set_entry i ((entry s i)\<lparr>key_fp := None\<rparr>) s
              | Some (f, s1) \<Rightarrow> set_entry i ((entry s1 i)\<lparr>key_fp := Some f, key_inode := new_inode\<rparr>) s1)
         | Some f \<Rightarrow>
             (let (g, l) = (case rids_disk s f of None \<Rightarrow> (0, 0) | Some c \<Rightarrow> c);
                  s1 = (if i = keysize s then s\<lparr>global_count := g, local_count := l\<rparr>
                        else set_entry i ((entry s i)\<lparr>key_global := g, key_local := l\<rparr>) s)
              in set_entry i ((entry s1 i)\<lparr>key_fp := Some f, key_inode := new_inode\<rparr>) s1))
      else s)"

definition StoreSenderCounter :: "uint32 \<Rightarrow> uint32 \<Rightarrow> sec_state \<Rightarrow> sec_state option" where
  "StoreSenderCounter g l s =
     (case key_fp (entry s (keysize s)) of
        None \<Rightarrow> None
      | Some f \<Rightarrow> Some (s\<lparr>rids_disk := (rids_disk s)(f \<mapsto> (g, l))\<rparr>))"

text \<open>\<open>None\<close> is the end of the process when the file cannot be opened, or a bad queue node.\<close>

definition counter_file :: "nat \<Rightarrow> sec_state \<Rightarrow> (nat \<times> sec_state) option" where
  "counter_file i s =
     (case key_fp (entry s i) of
        Some f \<Rightarrow> Some (f, s)
      | None \<Rightarrow> (case rids_dir s (key_id (entry s i)) of
          Some f \<Rightarrow> Some (f, s)
        | None \<Rightarrow> open_w (key_id (entry s i)) s))"

definition StoreCounter :: "int \<Rightarrow> nat \<Rightarrow> uint32 \<Rightarrow> uint32 \<Rightarrow> sec_state \<Rightarrow> sec_state option" where
  "StoreCounter now i g l s =
     do {
       (f, s1) \<leftarrow> counter_file i s;
       let s2 = s1\<lparr>rids_disk := (rids_disk s1)(f \<mapsto> (g, l))\<rparr>;
       let e = (entry s2 i)\<lparr>key_fp := Some f, updating_time := now\<rparr>;
       (case rids_node e of
          None \<Rightarrow> do {
            (a, q, _) \<leftarrow> linked_queue_push_ex (opened_fp_queue s2) (Some i);
            Some (set_entry i (e\<lparr>rids_node := Some a\<rparr>) (s2\<lparr>opened_fp_queue := q\<rparr>))
          }
        | Some a \<Rightarrow> do {
            q \<leftarrow> linked_queue_unlink_and_push_node (opened_fp_queue s2) a;
            Some (set_entry i e (s2\<lparr>opened_fp_queue := q\<rparr>))
          })
     }"

text \<open>At the start the counters are read; \<open>None\<close> is the end of the process.\<close>

definition start_entry :: "nat \<Rightarrow> sec_state \<Rightarrow> sec_state option" where
  "start_entry i s =
     (let name = (if i = keysize s then SENDER_COUNTER else key_id (entry s i)) in
      do {
        (f, s1) \<leftarrow> (case rids_dir s name of
            None \<Rightarrow> open_w name s
          | Some f \<Rightarrow>
              (let (g, l) = (case rids_disk s f of None \<Rightarrow> (0, 0) | Some c \<Rightarrow> c)
               in Some (f, if i = keysize s then s\<lparr>global_count := g, local_count := l\<rparr>
                           else set_entry i ((entry s i)\<lparr>key_global := g, key_local := l\<rparr>) s)));
        Some (set_entry i ((entry s1 i)\<lparr>key_fp := (if i = keysize s then Some f else None),
                                        key_inode := File_Inode s1 name\<rparr>) s1)
      })"

fun start_entries :: "nat list \<Rightarrow> sec_state \<Rightarrow> sec_state option" where
  "start_entries [] s = Some s"
| "start_entries (i # is) s = do { s1 \<leftarrow> start_entry i s; start_entries is s1 }"

definition OS_StartCounter :: "uint32 \<Rightarrow> uint32 \<Rightarrow> bool \<Rightarrow> sec_state \<Rightarrow> sec_state option" where
  "OS_StartCounter flush printout verify s =
     do {
       s1 \<leftarrow> start_entries [0..<length (keyentries s)] s;
       Some (s1\<lparr>opened_fp_queue := linked_queue_init,
                s_recv_flush := (if s_recv_flush s1 = 0 then flush else s_recv_flush s1),
                s_comp_print := (if s_comp_print s1 = 0 then printout else s_comp_print s1),
                s_verify_counter := verify\<rparr>)
     }"

definition OS_RemoveCounter :: "byte list \<Rightarrow> sec_state \<Rightarrow> sec_state" where
  "OS_RemoveCounter name s = s\<lparr>rids_dir := (rids_dir s)(name := None)\<rparr>"

subsection \<open>Creating a message\<close>

definition doEncryptByMethod ::
    "crypto \<Rightarrow> byte list \<Rightarrow> byte list \<Rightarrow> bool \<Rightarrow> crypt_method \<Rightarrow> nat \<times> byte list" where
  "doEncryptByMethod cr input key enc meth =
     (case meth of
        W_METH_BLOWFISH \<Rightarrow> OS_BF_Str cr input key enc
      | W_METH_AES \<Rightarrow> OS_AES_Str cr input key enc)"

definition crypto_token :: "crypt_method \<Rightarrow> byte list" where
  "crypto_token meth = (case meth of W_METH_BLOWFISH \<Rightarrow> [58] | W_METH_AES \<Rightarrow> [35, 65, 69, 83, 58])"

definition next_counters :: "sec_state \<Rightarrow> sec_state" where
  "next_counters s =
     (let s1 = (if local_count s \<ge> 9997
                then s\<lparr>local_count := 0, global_count := global_count s + 1\<rparr> else s)
      in s1\<lparr>local_count := local_count s1 + 1\<rparr>)"

text \<open>The text that is compressed: checksum, random number, counters and message.\<close>

definition sec_text :: "crypto \<Rightarrow> 16 word \<Rightarrow> uint32 \<Rightarrow> uint32 \<Rightarrow> byte list \<Rightarrow> byte list" where
  "sec_text cr rand1 g l msg =
     (let tmpmsg = dec_digits 5 (unat rand1) @ dec_digits 10 (unat g) @ [58] @ dec_digits 4 (unat l) @ [58] @ msg
      in OS_MD5_Str cr tmpmsg @ tmpmsg)"

definition padding :: "nat \<Rightarrow> nat" where
  "padding cmp_size = (let bfsize = 8 - cmp_size mod 8 in if bfsize = 8 then 0 else bfsize)"

definition count_sizes :: "nat \<Rightarrow> nat \<Rightarrow> sec_state \<Rightarrow> sec_state" where
  "count_sizes len cmp_size s =
     (let s1 = s\<lparr>c_orig_size := c_orig_size s + of_nat len, c_comp_size := c_comp_size s + of_nat cmp_size\<rparr>;
          s2 = (if evt_count s1 > s_comp_print s1
                then s1\<lparr>evt_count := 0, c_orig_size := 0, c_comp_size := 0\<rparr> else s1)
      in s2\<lparr>evt_count := evt_count s2 + 1\<rparr>)"

definition sec_header :: "bool \<Rightarrow> keyentry \<Rightarrow> byte list" where
  "sec_header client e =
     (if \<not> single_host e \<and> client
      then (let full = [33] @ key_id e @ [33] @ crypto_token (crypto_method e)
            in take 15 full @ replicate (length full - 15) 0)
      else crypto_token (crypto_method e))"

text \<open>
  The value returned, read as \<^verbatim>\<open>ssize_t\<close>, the bytes left in the output buffer and the state. \<open>client\<close> is
  whether the code is compiled for the agent, \<open>rand1\<close> the random number drawn.
\<close>

definition CreateSecMSG ::
    "crypto \<Rightarrow> bool \<Rightarrow> int \<Rightarrow> 16 word \<Rightarrow> byte list \<Rightarrow> nat \<Rightarrow> sec_state \<Rightarrow>
     (int \<times> byte list \<times> sec_state) option" where
  "CreateSecMSG cr client now rand1 msg i s =
     (if key_mode s \<noteq> W_ENCRYPTION_KEY \<and> key_mode s \<noteq> W_DUAL_KEY then Some (- 1, [], s)
      else if length msg > OS_MAXSTR - OS_HEADER_SIZE \<or> length msg < 1
      then Some (0, [], if now - saved_time s > 3600 then s\<lparr>saved_time := now\<rparr> else s)
      else
        (let e = entry s i;
             s1 = next_counters (ReloadCounter (keysize s) SENDER_COUNTER s);
             finmsg = sec_text cr rand1 (global_count s1) (local_count s1) msg;
             cmp = os_zlib_compress cr finmsg (OS_MAXSTR - 12)
         in if cmp = [] then Some (0, [], s1)
            else
              (let bfsize = padding (length cmp + 1);
                   cmp_size = length cmp + 1 + bfsize;
                   s2 = count_sizes (length finmsg) cmp_size s1;
                   hdr = sec_header client e
               in case doEncryptByMethod cr (replicate (bfsize + 1) 33 @ cmp) (encryption_key e) True
                    (crypto_method e) of (crypto_length, out) \<Rightarrow>
                    do {
                      s3 \<leftarrow> StoreSenderCounter (global_count s2) (local_count s2) s2;
                      let sz = max cmp_size crypto_length + length hdr;
                      Some (int sz, take sz (hdr @ out @ replicate sz 0), s3)
                    })))"

subsection \<open>Reading a message\<close>

text \<open>\<open>n\<close> bytes of a zero-padded array from \<open>off\<close> on.\<close>

definition bytes_at :: "byte list \<Rightarrow> nat \<Rightarrow> nat \<Rightarrow> byte list" where
  "bytes_at m off n = take n (drop off m @ replicate n 0)"

definition CheckSum :: "crypto \<Rightarrow> byte list \<Rightarrow> int \<Rightarrow> bool" where
  "CheckSum cr msg len =
     (let text = (if len - 32 < 0 then takeWhile (\<lambda>c. c \<noteq> 0) (drop 32 msg) else bytes_at msg 32 (nat (len - 32)))
      in OS_MD5_Str cr text = bytes_at msg 0 32)"

text \<open>The counters of a message against those of its agent.\<close>

definition newer :: "uint32 \<Rightarrow> uint32 \<Rightarrow> keyentry \<Rightarrow> bool" where
  "newer g l e \<longleftrightarrow> g > key_global e \<or> g = key_global e \<and> l > key_local e"

text \<open>A valid message updates the counters, and stores them every \<^verbatim>\<open>recv_counter_flush\<close> messages.\<close>

definition accept :: "int \<Rightarrow> nat \<Rightarrow> uint32 \<Rightarrow> uint32 \<Rightarrow> sec_state \<Rightarrow> sec_state option" where
  "accept now i g l s =
     do {
       let s1 = set_entry i ((entry s i)\<lparr>key_global := g, key_local := l\<rparr>) s;
       s2 \<leftarrow> (if rcv_count s1 \<ge> s_recv_flush s1
              then do { s2 \<leftarrow> StoreCounter now i g l s1; Some (s2\<lparr>rcv_count := 0\<rparr>) }
              else Some s1);
       Some (s2\<lparr>rcv_count := rcv_count s2 + 1\<rparr>)
     }"

definition read_compressed ::
    "crypto \<Rightarrow> int \<Rightarrow> byte list \<Rightarrow> nat \<Rightarrow> nat \<Rightarrow> sec_state \<Rightarrow> (key_state \<times> byte list \<times> sec_state) option" where
  "read_compressed cr now cleartext i buffer_size s =
     (let k = length (takeWhile (\<lambda>c. c = 33) (bytes_at cleartext 0 buffer_size));
          text = os_zlib_uncompress cr (bytes_at cleartext k (buffer_size - k)) OS_MAXSTR;
          f_msg = drop 37 text;
          msg_global = c_atoi f_msg;
          msg_local = c_atoi (drop 11 f_msg);
          out = drop 53 text
      in if length text < MSG_OVERHEAD then Some (KS_CORRUPT, [], s)
         else if \<not> CheckSum cr text (int (length text)) then Some (KS_CORRUPT, [], s)
         else if char_at f_msg 10 \<noteq> 58 then Some (KS_CORRUPT, [], s)
         else if char_at f_msg 15 \<noteq> 58 then Some (KS_CORRUPT, [], s)
         else if \<not> s_verify_counter s
         then do { s' \<leftarrow> accept now i msg_global msg_local s; Some (KS_VALID, out, s') }
         else
           (let s1 = (if rcv_count s \<ge> s_recv_flush s then ReloadCounter i (key_id (entry s i)) s else s) in
            if newer msg_global msg_local (entry s1 i)
            then do { s' \<leftarrow> accept now i msg_global msg_local s1; Some (KS_VALID, out, s') }
            else if msg_global = key_global (entry s1 i) then Some (KS_RIDS, [], s1)
            else Some (KS_ENCKEY, [], s1)))"

text \<open>The position after the first colon of a string, counted from its start.\<close>

definition after_colon :: "byte list \<Rightarrow> nat option" where
  "after_colon str =
     (let n = length (takeWhile (\<lambda>c. c \<noteq> 58 \<and> c \<noteq> 0) str)
      in if n < length str \<and> str ! n = 58 then Some (n + 1) else None)"

definition read_old ::
    "crypto \<Rightarrow> byte list \<Rightarrow> nat \<Rightarrow> nat \<Rightarrow> sec_state \<Rightarrow> key_state \<times> byte list \<times> sec_state" where
  "read_old cr cleartext i buffer_size s =
     (let str = bytes_at cleartext 1 (buffer_size - 1);
          f_msg = drop 32 str;
          msg_time = c_atoi f_msg;
          msg_count = c_atoi (drop 11 f_msg);
          deliver = (\<lambda>s'. case after_colon (drop 48 str) of
              None \<Rightarrow> (KS_CORRUPT, [], s')
            | Some n \<Rightarrow> (KS_VALID, bytes_at str (48 + n) (buffer_size - (48 + n)), s'))
      in if \<not> CheckSum cr str (int buffer_size) then (KS_CORRUPT, [], s)
         else if \<not> s_verify_counter s
         then deliver (set_entry i ((entry s i)\<lparr>key_global := msg_time, key_local := 0\<rparr>) s)
         else if newer msg_time msg_count (entry s i)
         then deliver (set_entry i ((entry s i)\<lparr>key_global := msg_time, key_local := msg_count\<rparr>) s)
         else (KS_RIDS, [], s))"

text \<open>A negative length is refused by the cipher.\<close>

definition ReadSecMSG ::
    "crypto \<Rightarrow> bool \<Rightarrow> int \<Rightarrow> byte list \<Rightarrow> nat \<Rightarrow> nat \<Rightarrow> sec_state \<Rightarrow>
     (key_state \<times> byte list \<times> sec_state) option" where
  "ReadSecMSG cr client now buffer i buffer_size s =
     (if key_mode s \<noteq> W_ENCRYPTION_KEY \<and> key_mode s \<noteq> W_DUAL_KEY then Some (KS_ERROR, [], s)
      else
        (let aes = (bytes_at buffer 0 4 = [35, 65, 69, 83]);
             b = (if aes then drop 4 buffer else buffer);
             s1 = (if client then s
                   else set_entry i ((entry s i)\<lparr>crypto_method := (if aes then W_METH_AES else W_METH_BLOWFISH)\<rparr>) s)
         in if char_at b 0 \<noteq> 58 then Some (KS_CORRUPT, [], s1)
            else if crypto_method (entry s1 i) = W_METH_AES \<and> buffer_size < 4 then Some (KS_ENCKEY, [], s1)
            else
              (let e = entry s1 i;
                   sz = (case crypto_method e of W_METH_BLOWFISH \<Rightarrow> buffer_size | W_METH_AES \<Rightarrow> buffer_size - 4)
               in case doEncryptByMethod cr (bytes_at b 1 sz) (encryption_key e) False (crypto_method e) of
                    (r, cleartext) \<Rightarrow>
                      if r = 0 then Some (KS_ENCKEY, [], s1)
                      else if char_at cleartext 0 = 33 then read_compressed cr now cleartext i buffer_size s1
                      else if char_at cleartext 0 = 58 then Some (read_old cr cleartext i buffer_size s1)
                      else Some (KS_ENCKEY, [], s1))))"

subsection \<open>What the code relies on\<close>

text \<open>
  Documented behaviour of the libraries: CBC decryption undoes encryption, on whole blocks for
  Blowfish and with padding to the next whole block for AES; an MD5 digest has 16 bytes; a zlib stream
  starts with the byte 0x78, is decoded whatever follows it, and compression succeeds into a buffer of
  \<^verbatim>\<open>compressBound\<close> bytes, which it does not exceed.
\<close>

definition compressBound :: "nat \<Rightarrow> nat" where
  "compressBound n = n + n div 4096 + n div 16384 + n div 33554432 + 13"

definition crypto_ok :: "crypto \<Rightarrow> bool" where
  "crypto_ok cr \<longleftrightarrow>
     (\<forall>key iv x. length x mod 8 = 0 \<longrightarrow>
        bf_cbc cr key iv False (bf_cbc cr key iv True x) = x \<and> length (bf_cbc cr key iv True x) = length x)
     \<and> (\<forall>key iv x. \<exists>y. aes_enc cr key iv x = Some y \<and> aes_dec cr key iv y = Some x
          \<and> length y = 16 * (length x div 16 + 1))
     \<and> (\<forall>x. length (md5 cr x) = 16)
     \<and> (\<forall>cap x. length x \<le> OS_MAXSTR \<longrightarrow> compressBound (length x) \<le> cap \<longrightarrow> z_compress cr cap x \<noteq> None)
     \<and> (\<forall>cap x y. z_compress cr cap x = Some y \<longrightarrow> char_at y 0 = 0x78 \<and> length y \<le> compressBound (length x)
          \<and> (\<forall>cap' junk. length x \<le> cap' \<longrightarrow> z_uncompress cr cap' (y @ junk) = Some x))"

lemma crypto_okD:
  assumes "crypto_ok cr"
  shows crypto_ok_bf: "length x mod 8 = 0 \<Longrightarrow> bf_cbc cr key iv False (bf_cbc cr key iv True x) = x
      \<and> length (bf_cbc cr key iv True x) = length x"
    and crypto_ok_aes: "\<exists>y. aes_enc cr key iv x = Some y \<and> aes_dec cr key iv y = Some x
      \<and> length y = 16 * (length x div 16 + 1)"
    and crypto_ok_md5: "length (md5 cr x) = 16"
    and crypto_ok_total: "length x \<le> OS_MAXSTR \<Longrightarrow> compressBound (length x) \<le> cap \<Longrightarrow> z_compress cr cap x \<noteq> None"
    and crypto_ok_z: "z_compress cr cap x = Some y \<Longrightarrow> char_at y 0 = 0x78 \<and> length y \<le> compressBound (length x)"
    and crypto_ok_unz: "z_compress cr cap x = Some y \<Longrightarrow> length x \<le> cap' \<Longrightarrow> z_uncompress cr cap' (y @ junk) = Some x"
proof -
  note ok = assms[unfolded crypto_ok_def]
  show "length x mod 8 = 0 \<Longrightarrow> bf_cbc cr key iv False (bf_cbc cr key iv True x) = x
      \<and> length (bf_cbc cr key iv True x) = length x" using ok by simp
  show "\<exists>y. aes_enc cr key iv x = Some y \<and> aes_dec cr key iv y = Some x \<and> length y = 16 * (length x div 16 + 1)"
    using ok by (elim conjE) (erule allE[of _ key], erule allE[of _ iv], erule allE[of _ x], assumption)
  show "length (md5 cr x) = 16" using ok by simp
  show "length x \<le> OS_MAXSTR \<Longrightarrow> compressBound (length x) \<le> cap \<Longrightarrow> z_compress cr cap x \<noteq> None" using ok by simp
  show "z_compress cr cap x = Some y \<Longrightarrow> char_at y 0 = 0x78 \<and> length y \<le> compressBound (length x)" using ok by metis
  show "z_compress cr cap x = Some y \<Longrightarrow> length x \<le> cap' \<Longrightarrow> z_uncompress cr cap' (y @ junk) = Some x" using ok by metis
qed

subsection \<open>Numbers as text\<close>

lemma length_dec_digits [simp]: "length (dec_digits w n) = w"
  by (induction w arbitrary: n) simp_all

lemma uint_digit: "uint (of_nat (48 + n mod 10) :: byte) = 48 + int (n mod 10)"
proof -
  have "48 + n mod 10 < 58" by simp
  then have "(48 + n mod 10) mod 256 = 48 + n mod 10" by (intro mod_less) linarith
  then have "unat (of_nat (48 + n mod 10) :: byte) = 48 + n mod 10" by (simp only: unat_of_nat) (simp add: take_bit_eq_mod)
  then show ?thesis by (metis of_nat_add of_nat_numeral uint_nat)
qed

lemma digit_is_digit: "is_digit (of_nat (48 + n mod 10))"
proof -
  let ?c = "of_nat (48 + n mod 10) :: byte"
  have "uint ?c \<le> 57" "48 \<le> uint ?c" unfolding uint_digit by simp_all
  then show ?thesis by (simp add: is_digit_def word_le_def)
qed

lemma dec_digits_digits: "\<forall>c \<in> set (dec_digits w n). is_digit c"
  by (induction w arbitrary: n) (auto simp: digit_is_digit simp del: of_nat_add)

lemma digits_value_dec: "digits_value (dec_digits w n) = int (n mod 10 ^ w)"
proof (induction w arbitrary: n)
  case 0
  show ?case by (simp add: digits_value_def)
next
  case (Suc w)
  have "digits_value (dec_digits (Suc w) n)
      = digits_value (dec_digits w (n div 10)) * 10 + (uint (of_nat (48 + n mod 10) :: byte) - 48)"
    by (simp add: digits_value_def del: of_nat_add)
  also have "\<dots> = int ((n div 10) mod 10 ^ w) * 10 + int (n mod 10)" unfolding Suc uint_digit by simp
  also have "\<dots> = int (n mod 10 ^ Suc w)"
    using mod_mult2_eq[of n 10 "10 ^ w"] by simp
  finally show ?case .
qed

lemma digit_not_space: "is_digit c \<Longrightarrow> \<not> is_space c \<and> c \<noteq> 45 \<and> c \<noteq> 43"
  by (auto simp: is_digit_def is_space_def word_le_nat_alt)

text \<open>\<^verbatim>\<open>atoi\<close> reads back what \<^verbatim>\<open>snprintf\<close> wrote.\<close>

lemma c_atoi_dec:
  assumes "0 < w" "n < 10 ^ w" "\<not> is_digit c"
  shows "c_atoi (dec_digits w n @ c # rest) = of_nat n"
proof -
  have all: "\<forall>d \<in> set (dec_digits w n). is_digit d" by (rule dec_digits_digits)
  obtain d ds where d: "dec_digits w n = d # ds" using assms(1) length_dec_digits[of w n] by (cases "dec_digits w n") auto
  have first: "\<not> is_space d" "d \<noteq> 45" "d \<noteq> 43" using all d digit_not_space[of d] by auto
  have "takeWhile is_digit (dec_digits w n @ c # rest) = dec_digits w n"
    using all assms(3) by (simp add: takeWhile_append)
  then show ?thesis
    using first d digits_value_dec[of w n] assms(2) by (simp add: c_atoi_def char_at_def Let_def)
qed

subsection \<open>What is sent is what is read\<close>

lemma length_OS_MD5: "length (md5 cr x) = 16 \<Longrightarrow> length (OS_MD5_Str cr x) = 32"
proof -
  have "length (concat (map hex_byte bs)) = 2 * length bs" for bs by (induction bs) (simp_all add: hex_byte_def)
  then show "length (md5 cr x) = 16 \<Longrightarrow> length (OS_MD5_Str cr x) = 32" by (simp add: OS_MD5_Str_def)
qed

lemma bytes_at_prefix: "bytes_at (xs @ ys) 0 (length xs) = xs"
  by (simp add: bytes_at_def)

lemma bytes_at_all: "bytes_at (xs @ ys) (length xs) (length ys) = ys"
  by (simp add: bytes_at_def)

lemma char_at_append: "char_at (xs @ ys) n = (if n < length xs then xs ! n else char_at ys (n - length xs))"
  by (auto simp: char_at_def nth_append)

lemma sec_text_fields:
  assumes "\<forall>x. length (md5 cr x) = 16" "unat l < 10000" and t_def: "t = sec_text cr r g l msg"
  shows "length t = 53 + length msg" "CheckSum cr t (int (length t))" "char_at (drop 37 t) 10 = 58"
    "char_at (drop 37 t) 15 = 58" "c_atoi (drop 37 t) = g" "c_atoi (drop 11 (drop 37 t)) = l" "drop 53 t = msg"
proof -
  define body where "body = dec_digits 5 (unat r) @ dec_digits 10 (unat g) @ [58] @ dec_digits 4 (unat l) @ [58] @ msg"
  have t: "t = OS_MD5_Str cr body @ body" by (simp add: t_def sec_text_def body_def Let_def)
  have sum: "length (OS_MD5_Str cr body) = 32" using assms(1) by (simp add: length_OS_MD5)
  then have d37: "drop 37 t = dec_digits 10 (unat g) @ [58] @ dec_digits 4 (unat l) @ [58] @ msg"
    unfolding t by (simp add: body_def)
  have nd: "\<not> is_digit 58" by (simp add: is_digit_def word_le_nat_alt)
  show "length t = 53 + length msg" unfolding t using sum by (simp add: body_def)
  show "CheckSum cr t (int (length t))"
    using sum bytes_at_prefix[of "OS_MD5_Str cr body" body] bytes_at_all[of "OS_MD5_Str cr body" body]
    by (simp add: CheckSum_def t)
  show "char_at (drop 37 t) 10 = 58" unfolding d37 by (simp add: char_at_def nth_append)
  show "char_at (drop 37 t) 15 = 58" unfolding d37 by (simp add: char_at_def nth_append)
  have "unat g < 2 ^ LENGTH(32)" by (rule unsigned_less)
  then have "unat g < 10 ^ 10" by simp
  then show "c_atoi (drop 37 t) = g" unfolding d37 using c_atoi_dec[OF _ _ nd, of 10 "unat g"] by simp
  show "c_atoi (drop 11 (drop 37 t)) = l" unfolding d37 using c_atoi_dec[OF _ _ nd, of 4 "unat l"] assms(2) by simp
  show "drop 53 t = msg" unfolding t using sum by (simp add: body_def)
qed

lemma next_counters_range:
  "1 \<le> unat (local_count (next_counters s)) \<and> unat (local_count (next_counters s)) \<le> 9997"
proof (cases "local_count s \<ge> 9997")
  case True
  then show ?thesis by (simp add: next_counters_def)
next
  case False
  then have "unat (local_count s) < 9997" by (simp add: word_le_nat_alt)
  then have "unat (local_count s + 1) = unat (local_count s) + 1" by (subst unat_word_ariths(1)) (simp add: take_bit_eq_mod)
  with False \<open>unat (local_count s) < 9997\<close> show ?thesis by (simp add: next_counters_def Let_def)
qed

lemma padding_block: "(n + padding n) mod 8 = 0" "padding n \<le> 7"
proof -
  have "n mod 8 < 8" by simp
  then show "padding n \<le> 7" unfolding padding_def Let_def by (simp, linarith)
  have "(n + (8 - n mod 8)) mod 8 = 0"
    by (metis add.commute le_add_diff_inverse less_imp_le mod_add_left_eq mod_less_divisor mod_self zero_less_numeral)
  then show "(n + padding n) mod 8 = 0"
    using \<open>n mod 8 < 8\<close> by (auto simp: padding_def Let_def)
qed

text \<open>
  What a successful creation leaves behind the header: the encryption of the padded, compressed
  text, and its length.
\<close>

lemma create_parts:
  assumes ok: "crypto_ok cr" and c: "CreateSecMSG cr client now r msg i s = Some (n, wire, s')" "0 < n"
  obtains cmp body where
    "z_compress cr (OS_MAXSTR - 12) (sec_text cr r (global_count s') (local_count s') msg) = Some cmp"
    "body = snd (doEncryptByMethod cr (replicate (padding (length cmp + 1) + 1) 33 @ cmp)
       (encryption_key (entry s i)) True (crypto_method (entry s i)))"
    "wire = sec_header client (entry s i) @ body" "n = int (length wire)"
    "length msg \<le> OS_MAXSTR - OS_HEADER_SIZE" "unat (local_count s') < 10000"
    "key_mode s = W_ENCRYPTION_KEY \<or> key_mode s = W_DUAL_KEY"
    "StoreSenderCounter (global_count s') (local_count s') (count_sizes
       (length (sec_text cr r (global_count s') (local_count s') msg)) (length cmp + 1 + padding (length cmp + 1))
       (next_counters (ReloadCounter (keysize s) SENDER_COUNTER s))) = Some s'"
proof -
  define s1 where "s1 = next_counters (ReloadCounter (keysize s) SENDER_COUNTER s)"
  define t where "t = sec_text cr r (global_count s1) (local_count s1) msg"
  define cmp where "cmp = os_zlib_compress cr t (OS_MAXSTR - 12)"
  define p where "p = padding (length cmp + 1)"
  define x where "x = replicate (p + 1) 33 @ cmp"
  define s2 where "s2 = count_sizes (length t) (length cmp + 1 + p) s1"
  let ?e = "entry s i"
  obtain cl body where enc: "doEncryptByMethod cr x (encryption_key ?e) True (crypto_method ?e) = (cl, body)" by fastforce
  from c have mode: "key_mode s = W_ENCRYPTION_KEY \<or> key_mode s = W_DUAL_KEY"
    and msg: "length msg \<le> OS_MAXSTR - OS_HEADER_SIZE" and ne: "cmp \<noteq> []" "msg \<noteq> []"
    by (auto simp: CreateSecMSG_def s1_def[symmetric] t_def[symmetric] cmp_def[symmetric] Let_def split: if_splits)
  have len: "length x = length cmp + 1 + p" "length x mod 8 = 0"
    using padding_block(1)[of "length cmp + 1"] by (simp_all add: x_def p_def add.commute)
  have cmp: "z_compress cr (OS_MAXSTR - 12) t = Some cmp"
    using ne(1) by (auto simp: cmp_def os_zlib_compress_def split: option.splits)
  have sz: "max (length x) cl = length body"
  proof (cases "crypto_method ?e")
    case W_METH_BLOWFISH
    with enc crypto_ok_bf[OF ok len(2)] show ?thesis by (auto simp: doEncryptByMethod_def OS_BF_Str_def len(1))
  next
    case W_METH_AES
    obtain y where "aes_enc cr (encryption_key ?e) aes_iv x = Some y" "length y = 16 * (length x div 16 + 1)"
      using crypto_ok_aes[OF ok] by blast
    with W_METH_AES enc show ?thesis by (auto simp: doEncryptByMethod_def OS_AES_Str_def max_def)
  qed
  have sz': "max (Suc (length cmp + p)) cl = length body" using sz len(1) by simp
  from c(1) mode msg ne enc obtain s3 where st: "StoreSenderCounter (global_count s2) (local_count s2) s2 = Some s3"
    and w: "n = int (length body + length (sec_header client ?e))" "wire = sec_header client ?e @ body" "s3 = s'"
    unfolding CreateSecMSG_def Let_def s1_def[symmetric] t_def[symmetric] cmp_def[symmetric] p_def[symmetric]
      x_def[symmetric] len(1)[symmetric]
    by (auto simp: bind_eq_Some_conv s2_def len(1) sz' split: if_splits)
  have eq: "global_count s' = global_count s1" "local_count s' = local_count s1"
      "global_count s2 = global_count s1" "local_count s2 = local_count s1"
    using st w(3) by (auto simp: StoreSenderCounter_def s2_def count_sizes_def Let_def split: option.splits)
  show thesis
  proof (rule that[of cmp body])
    show "z_compress cr (OS_MAXSTR - 12) (sec_text cr r (global_count s') (local_count s') msg) = Some cmp"
      using cmp by (simp add: eq t_def)
    show "unat (local_count s') < 10000" using next_counters_range[of "ReloadCounter (keysize s) SENDER_COUNTER s"] by (simp add: eq s1_def)
    show "StoreSenderCounter (global_count s') (local_count s') (count_sizes
       (length (sec_text cr r (global_count s') (local_count s') msg)) (length cmp + 1 + padding (length cmp + 1))
       (next_counters (ReloadCounter (keysize s) SENDER_COUNTER s))) = Some s'"
      using st w(3) unfolding eq by (simp add: t_def s2_def p_def s1_def)
  qed (use w mode msg enc in \<open>simp_all add: x_def p_def\<close>)
qed

lemma entry_set_entry [simp]:
  "i < length (keyentries s) \<Longrightarrow> entry (set_entry i e s) j = (if i = j then e else entry s j)"
  by (simp add: entry_def set_entry_def)

lemma accept_quick:
  assumes "rcv_count s < s_recv_flush s"
  shows "accept now i g l s = Some ((set_entry i ((entry s i)\<lparr>key_global := g, key_local := l\<rparr>) s)
    \<lparr>rcv_count := rcv_count s + 1\<rparr>)"
proof -
  have "\<not> s_recv_flush s \<le> rcv_count s" using assms by simp
  then show ?thesis by (simp add: accept_def set_entry_def Let_def)
qed

lemma bytes_at_over: "length xs \<le> n \<Longrightarrow> bytes_at xs 0 n = xs @ replicate (n - length xs) 0"
  by (simp add: bytes_at_def)

lemma bytes_at_skip: "bytes_at (xs @ ys) (length xs) n = bytes_at ys 0 n"
  by (simp add: bytes_at_def)

lemma takeWhile_pad:
  "char_at cmp 0 \<noteq> 33 \<Longrightarrow> takeWhile (\<lambda>c. c = 33) (replicate k 33 @ cmp @ junk) = replicate k (33 :: byte)"
  if "cmp \<noteq> []"
  using that by (cases cmp) (simp_all add: char_at_def takeWhile_append)

text \<open>The receiver's side, from the decrypted text on: \<open>sz\<close> may reach beyond it.\<close>

lemma read_compressed_own:
  assumes ok: "crypto_ok cr" and z: "z_compress cr cap (sec_text cr r g l msg) = Some cmp"
    and "unat l < 10000" "length msg \<le> OS_MAXSTR - OS_HEADER_SIZE" "k + 1 + length cmp \<le> sz"
    and "\<not> s_verify_counter t \<or> newer g l (entry t j)" "rcv_count t < s_recv_flush t"
  shows "read_compressed cr now (replicate (k + 1) 33 @ cmp) j sz t
    = Some (KS_VALID, msg, (set_entry j ((entry t j)\<lparr>key_global := g, key_local := l\<rparr>) t)\<lparr>rcv_count := rcv_count t + 1\<rparr>)"
proof -
  let ?x = "replicate (k + 1) 33 @ cmp"
  have md: "\<forall>x. length (md5 cr x) = 16" using crypto_ok_md5[OF ok] by blast
  have zl: "char_at cmp 0 = 0x78"
    "\<And>cap' junk. 53 + length msg \<le> cap' \<Longrightarrow> z_uncompress cr cap' (cmp @ junk) = Some (sec_text cr r g l msg)"
    using crypto_ok_z[OF ok z] crypto_ok_unz[OF ok z] sec_text_fields(1)[OF md assms(3) refl, of r g msg] by simp_all
  note f = sec_text_fields[OF md assms(3) refl, of r g msg]
  have ne: "cmp \<noteq> []" using zl(1) by (auto simp: char_at_def)
  have all: "bytes_at ?x 0 sz = replicate (k + 1) 33 @ cmp @ replicate (sz - (k + 1 + length cmp)) 0"
    using bytes_at_over[of ?x sz] assms(5) by simp
  have pre: "length (takeWhile (\<lambda>c. c = 33) (bytes_at ?x 0 sz)) = k + 1"
    unfolding all using takeWhile_pad[OF ne, of "k + 1" "replicate (sz - (k + 1 + length cmp)) 0"] zl(1) by simp
  have src: "bytes_at ?x (k + 1) (sz - (k + 1)) = cmp @ replicate (sz - (k + 1) - length cmp) 0"
    using bytes_at_skip[of "replicate (k + 1) 33" cmp "sz - (k + 1)"] bytes_at_over[of cmp "sz - (k + 1)"] assms(5)
    by simp
  have un: "os_zlib_uncompress cr (bytes_at ?x (k + 1) (sz - (k + 1))) OS_MAXSTR = sec_text cr r g l msg"
    unfolding src using zl(2)[of OS_MAXSTR] assms(4) by (simp add: os_zlib_uncompress_def OS_MAXSTR_def OS_HEADER_SIZE_def)
  show ?thesis
    unfolding read_compressed_def Let_def pre un
    using f assms(6,7) accept_quick[OF assms(7), of now j g l] by (auto simp: MSG_OVERHEAD_def)
qed

lemma decrypt_own:
  assumes "crypto_ok cr" "length x mod 8 = 0" "x \<noteq> []"
    and "body = snd (doEncryptByMethod cr x key True meth)"
  shows "\<exists>n. doEncryptByMethod cr body key False meth = (Suc n, x)"
proof (cases meth)
  case W_METH_BLOWFISH
  with crypto_ok_bf[OF assms(1,2)] assms(4) show ?thesis by (simp add: doEncryptByMethod_def OS_BF_Str_def)
next
  case W_METH_AES
  obtain y where "aes_enc cr key aes_iv x = Some y" "aes_dec cr key aes_iv y = Some x"
    using crypto_ok_aes[OF assms(1)] by blast
  with W_METH_AES assms(3,4) show ?thesis by (cases x) (auto simp: doEncryptByMethod_def OS_AES_Str_def)
qed

text \<open>The reader finds the method in the token and decrypts what follows it.\<close>

lemma ReadSecMSG_token:
  assumes "key_mode s = W_ENCRYPTION_KEY \<or> key_mode s = W_DUAL_KEY" and "i < length (keyentries s)"
    and "client \<Longrightarrow> crypto_method (entry s i) = meth"
    and "doEncryptByMethod cr body (encryption_key (entry s i)) False meth = (Suc r, x)" "char_at x 0 = 33"
    and "b = crypto_token meth @ body"
  shows "ReadSecMSG cr client now b i (length b - 1) s = read_compressed cr now x i (length b - 1)
    (if client then s else set_entry i ((entry s i)\<lparr>crypto_method := meth\<rparr>) s)"
proof (cases meth)
  case W_METH_BLOWFISH
  have aes: "bytes_at b 0 4 \<noteq> [35, 65, 69, 83]" by (simp add: assms(6) W_METH_BLOWFISH crypto_token_def bytes_at_def)
  have "char_at b 0 = 58" "bytes_at b 1 (length b - 1) = body"
    by (simp_all add: assms(6) W_METH_BLOWFISH crypto_token_def bytes_at_def char_at_def)
  with aes assms W_METH_BLOWFISH show ?thesis unfolding ReadSecMSG_def Let_def by auto
next
  case W_METH_AES
  have aes: "bytes_at b 0 4 = [35, 65, 69, 83]" by (simp add: assms(6) W_METH_AES crypto_token_def bytes_at_def)
  have "char_at (drop 4 b) 0 = 58" "bytes_at (drop 4 b) 1 (length b - 1 - 4) = body" "\<not> length b - 1 < 4"
    by (simp_all add: assms(6) W_METH_AES crypto_token_def bytes_at_def char_at_def)
  with aes assms W_METH_AES show ?thesis unfolding ReadSecMSG_def Let_def by auto
qed

lemma sec_header_token:
  assumes "length (key_id e) \<le> 8"
  shows "drop (length (sec_header client e) - length (crypto_token (crypto_method e))) (sec_header client e @ body)
    = crypto_token (crypto_method e) @ body"
  using assms by (cases "crypto_method e") (auto simp: sec_header_def crypto_token_def Let_def)

lemma encrypt_longer:
  assumes "crypto_ok cr" "length x mod 8 = 0" and "body = snd (doEncryptByMethod cr x key True meth)"
  shows "length x \<le> length body"
proof (cases meth)
  case W_METH_BLOWFISH
  with crypto_ok_bf[OF assms(1,2)] assms(3) show ?thesis by (simp add: doEncryptByMethod_def OS_BF_Str_def)
next
  case W_METH_AES
  obtain y where "aes_enc cr key aes_iv x = Some y" "length y = 16 * (length x div 16 + 1)"
    using crypto_ok_aes[OF assms(1)] by blast
  with W_METH_AES assms(3) show ?thesis by (auto simp: doEncryptByMethod_def OS_AES_Str_def)
qed

lemma length_crypto_token: "length (crypto_token meth) = (case meth of W_METH_BLOWFISH \<Rightarrow> 1 | W_METH_AES \<Rightarrow> 5)"
  by (simp add: crypto_token_def split: crypt_method.split)

subsection \<open>The counters of the sender\<close>

text \<open>The sender's counter file is open, and is the one its name stands for.\<close>

definition sender_open :: "sec_state \<Rightarrow> bool" where
  "sender_open s \<longleftrightarrow>
     (case rids_dir s SENDER_COUNTER of
        None \<Rightarrow> False
      | Some f \<Rightarrow> key_inode (entry s (keysize s)) = f \<and> key_fp (entry s (keysize s)) = Some f \<and> f < next_inode s)"

lemma sender_open_cong:
  assumes "keyentries s = keyentries s'" "rids_dir s = rids_dir s'" "next_inode s = next_inode s'"
  shows "sender_open s = sender_open s'"
  using assms by (simp add: sender_open_def entry_def keysize_def split: option.split)

lemma next_counters_frame [simp]:
  "keyentries (next_counters s) = keyentries s" "rids_dir (next_counters s) = rids_dir s"
  "rids_disk (next_counters s) = rids_disk s" "key_mode (next_counters s) = key_mode s"
  "s_writable (next_counters s) = s_writable s" "next_inode (next_counters s) = next_inode s"
  by (simp_all add: next_counters_def Let_def)

lemma count_sizes_frame [simp]:
  "keyentries (count_sizes n m s) = keyentries s" "rids_dir (count_sizes n m s) = rids_dir s"
  "rids_disk (count_sizes n m s) = rids_disk s" "key_mode (count_sizes n m s) = key_mode s"
  "s_writable (count_sizes n m s) = s_writable s" "next_inode (count_sizes n m s) = next_inode s"
  "global_count (count_sizes n m s) = global_count s" "local_count (count_sizes n m s) = local_count s"
  by (simp_all add: count_sizes_def Let_def)

lemma reload_open: "sender_open s \<Longrightarrow> ReloadCounter (keysize s) SENDER_COUNTER s = s"
  by (auto simp: sender_open_def ReloadCounter_def File_Inode_def split: option.splits)

lemma compress_fits: "length x \<le> OS_MAXSTR - 75 \<Longrightarrow> compressBound (length x) \<le> OS_MAXSTR - 44"
proof -
  assume "length x \<le> OS_MAXSTR - 75"
  then have "length x \<le> 65461" by (simp add: OS_MAXSTR_def)
  then have "length x div 4096 \<le> 15" "length x div 16384 \<le> 3" "length x div 33554432 = 0" by linarith+
  then show ?thesis using \<open>length x \<le> 65461\<close> by (simp add: compressBound_def OS_MAXSTR_def)
qed

lemma create_succeeds:
  assumes ok: "crypto_ok cr" and mode: "key_mode s = W_ENCRYPTION_KEY \<or> key_mode s = W_DUAL_KEY"
    and msg: "msg \<noteq> []" "length msg \<le> OS_MAXSTR - OS_HEADER_SIZE" and so: "sender_open s"
  shows "\<exists>n wire s'. CreateSecMSG cr client now r msg i s = Some (n, wire, s') \<and> 0 < n
    \<and> global_count s' = global_count (next_counters s) \<and> local_count s' = local_count (next_counters s)
    \<and> rids_dir s' = rids_dir s \<and> keyentries s' = keyentries s \<and> key_mode s' = key_mode s
    \<and> s_writable s' = s_writable s \<and> next_inode s' = next_inode s
    \<and> rids_disk s' = (rids_disk s)(the (rids_dir s SENDER_COUNTER) \<mapsto> (global_count s', local_count s'))"
proof -
  define t where "t = sec_text cr r (global_count (next_counters s)) (local_count (next_counters s)) msg"
  obtain f where f: "rids_dir s SENDER_COUNTER = Some f" "key_fp (entry s (keysize s)) = Some f"
    using so by (auto simp: sender_open_def split: option.splits)
  have t: "length t = 53 + length msg"
    using next_counters_range[of s] unfolding t_def by (intro sec_text_fields(1)) (auto simp: crypto_ok_md5[OF ok])
  have "length t \<le> OS_MAXSTR - 75" using t msg(2) by (simp add: OS_MAXSTR_def OS_HEADER_SIZE_def)
  then have "compressBound (length t) \<le> OS_MAXSTR - 12" "length t \<le> OS_MAXSTR"
    using compress_fits[of t] by (simp_all add: OS_MAXSTR_def)
  then obtain cmp where z: "z_compress cr (OS_MAXSTR - 12) t = Some cmp" "char_at cmp 0 = 0x78"
    using crypto_ok_total[OF ok] crypto_ok_z[OF ok] by blast
  then have cmp: "os_zlib_compress cr t (OS_MAXSTR - 12) = cmp" "cmp \<noteq> []"
    by (auto simp: os_zlib_compress_def char_at_def)
  have ks: "keysize (count_sizes a b (next_counters s)) = keysize s" "entry (count_sizes a b (next_counters s)) = entry s"
    for a b by (simp_all add: keysize_def entry_def fun_eq_iff)
  show ?thesis
    using mode msg f cmp(2) unfolding CreateSecMSG_def Let_def reload_open[OF so] t_def[symmetric] cmp(1)
    by (auto simp: StoreSenderCounter_def ks not_less Suc_le_eq split: prod.split)
qed

subsection \<open>Size of what is sent\<close>

lemma encrypt_bound:
  assumes "crypto_ok cr" "length x mod 8 = 0" and "body = snd (doEncryptByMethod cr x key True meth)"
  shows "length body \<le> length x + 16"
proof (cases meth)
  case W_METH_BLOWFISH
  with crypto_ok_bf[OF assms(1,2)] assms(3) show ?thesis by (simp add: doEncryptByMethod_def OS_BF_Str_def)
next
  case W_METH_AES
  obtain y where "aes_enc cr key aes_iv x = Some y" "length y = 16 * (length x div 16 + 1)"
    using crypto_ok_aes[OF assms(1)] by blast
  with W_METH_AES assms(3) show ?thesis by (auto simp: doEncryptByMethod_def OS_AES_Str_def)
qed

lemma create_bound:
  assumes ok: "crypto_ok cr" and c: "CreateSecMSG cr client now r msg i s = Some (n, wire, s')" "0 < n"
    and id: "length (key_id (entry s i)) \<le> 8"
  shows "n = int (length wire)" "length wire \<le> OS_MAXSTR"
proof -
  obtain cmp body where p:
      "z_compress cr (OS_MAXSTR - 12) (sec_text cr r (global_count s') (local_count s') msg) = Some cmp"
      "body = snd (doEncryptByMethod cr (replicate (padding (length cmp + 1) + 1) 33 @ cmp)
         (encryption_key (entry s i)) True (crypto_method (entry s i)))"
      "wire = sec_header client (entry s i) @ body" "n = int (length wire)"
      "length msg \<le> OS_MAXSTR - OS_HEADER_SIZE" "unat (local_count s') < 10000"
    by (rule create_parts[OF ok c]) blast
  let ?x = "replicate (padding (length cmp + 1) + 1) 33 @ cmp" and ?t = "sec_text cr r (global_count s') (local_count s') msg"
  have "length ?t = 53 + length msg" using crypto_ok_md5[OF ok] p(6) by (intro sec_text_fields(1)) auto
  then have "length cmp \<le> OS_MAXSTR - 44"
    using crypto_ok_z[OF ok p(1)] compress_fits[of ?t] p(5) by (simp add: OS_MAXSTR_def OS_HEADER_SIZE_def)
  moreover have "length ?x \<le> length cmp + 8" using padding_block(2)[of "length cmp + 1"] by simp
  moreover have "length body \<le> length ?x + 16"
    using padding_block(1)[of "length cmp + 1"] by (intro encrypt_bound[OF ok _ p(2)]) (simp add: add.commute)
  moreover have "length (sec_header client (entry s i)) \<le> 15"
    using id by (simp add: sec_header_def Let_def length_crypto_token split: crypt_method.split)
  ultimately show "length wire \<le> OS_MAXSTR" by (simp add: p(3) OS_MAXSTR_def)
  show "n = int (length wire)" by (rule p(4))
qed

subsection \<open>Order of the counters\<close>

definition stamp :: "uint32 \<Rightarrow> uint32 \<Rightarrow> nat" where
  "stamp g l = unat g * 2 ^ 32 + unat l"

lemma stamp_less: "stamp g l < stamp g' l' \<longleftrightarrow> g < g' \<or> g = g' \<and> l < l'"
proof -
  have u: "unat l < 2 ^ 32" "unat l' < 2 ^ 32" using unsigned_less[of l] unsigned_less[of l'] by simp_all
  consider "unat g < unat g'" | "unat g = unat g'" | "unat g' < unat g" by linarith
  then show ?thesis
  proof cases
    case 1
    then have "(unat g + 1) * 2 ^ 32 \<le> unat g' * 2 ^ 32" by (intro mult_right_mono) simp_all
    with 1 u show ?thesis by (simp add: stamp_def word_less_nat_alt)
  next
    case 2
    then have "g = g'" by (simp add: word_unat_eq_iff)
    then show ?thesis by (simp add: stamp_def word_less_nat_alt)
  next
    case 3
    then have "(unat g' + 1) * 2 ^ 32 \<le> unat g * 2 ^ 32" by (intro mult_right_mono) simp_all
    with 3 u show ?thesis by (auto simp: stamp_def word_less_nat_alt)
  qed
qed

lemma next_counters_stamp:
  assumes "global_count s < 4294967295"
  shows "stamp (global_count s) (local_count s) < stamp (global_count (next_counters s)) (local_count (next_counters s))"
proof (cases "local_count s \<ge> 9997")
  case True
  have "unat (global_count s) < 4294967295" using assms by (simp add: word_less_nat_alt)
  then have "unat (global_count s + 1) = unat (global_count s) + 1" by (subst unat_word_ariths(1)) (simp add: take_bit_eq_mod)
  then have "global_count s < global_count s + 1" by (simp add: word_less_nat_alt)
  with True show ?thesis by (simp add: next_counters_def stamp_less)
next
  case False
  then have "unat (local_count s) < 9997" by (simp add: word_le_nat_alt)
  then have "unat (local_count s + 1) = unat (local_count s) + 1" by (subst unat_word_ariths(1)) (simp add: take_bit_eq_mod)
  with False show ?thesis by (simp add: next_counters_def stamp_less Let_def word_less_nat_alt)
qed

subsection \<open>Counters across a restart\<close>

lemma store_sender:
  assumes "sender_open s" "StoreSenderCounter g l (count_sizes a b (next_counters s)) = Some s'"
  shows "global_count s' = global_count (next_counters s) \<and> local_count s' = local_count (next_counters s)
    \<and> rids_dir s' = rids_dir s \<and> next_inode s' = next_inode s
    \<and> rids_disk s' (the (rids_dir s SENDER_COUNTER)) = Some (g, l)"
proof -
  have "keysize (count_sizes a b (next_counters s)) = keysize s" "entry (count_sizes a b (next_counters s)) = entry s"
    by (simp_all add: keysize_def entry_def fun_eq_iff)
  then show ?thesis using assms by (auto simp: StoreSenderCounter_def sender_open_def split: option.splits)
qed

lemma create_counters:
  assumes "crypto_ok cr" "CreateSecMSG cr client now r msg i s = Some (n, wire, s')" "0 < n" "sender_open s"
  shows "global_count s' = global_count (next_counters s)" "local_count s' = local_count (next_counters s)"
    "rids_dir s' = rids_dir s" "next_inode s' = next_inode s"
    "rids_disk s' (the (rids_dir s SENDER_COUNTER)) = Some (global_count s', local_count s')"
proof -
  obtain cmp :: "byte list" where "StoreSenderCounter (global_count s') (local_count s') (count_sizes
       (length (sec_text cr r (global_count s') (local_count s') msg)) (length cmp + 1 + padding (length cmp + 1))
       (next_counters (ReloadCounter (keysize s) SENDER_COUNTER s))) = Some s'"
    by (rule create_parts[OF assms(1-3)]) blast
  then have "StoreSenderCounter (global_count s') (local_count s') (count_sizes
       (length (sec_text cr r (global_count s') (local_count s') msg)) (length cmp + 1 + padding (length cmp + 1))
       (next_counters s)) = Some s'"
    unfolding reload_open[OF assms(4)] .
  then show "global_count s' = global_count (next_counters s)" "local_count s' = local_count (next_counters s)"
    "rids_dir s' = rids_dir s" "next_inode s' = next_inode s"
    "rids_disk s' (the (rids_dir s SENDER_COUNTER)) = Some (global_count s', local_count s')"
    by (auto dest: store_sender[OF assms(4)])
qed

text \<open>The file \<open>f\<close> holds the counters of the sender.\<close>

definition sender_file :: "nat \<Rightarrow> uint32 \<times> uint32 \<Rightarrow> sec_state \<Rightarrow> bool" where
  "sender_file f c s \<longleftrightarrow> rids_dir s SENDER_COUNTER = Some f \<and> rids_disk s f = Some c \<and> f < next_inode s"

lemma set_entry_frame [simp]:
  "length (keyentries (set_entry i e s)) = length (keyentries s)" "keysize (set_entry i e s) = keysize s"
  "rids_dir (set_entry i e s) = rids_dir s" "rids_disk (set_entry i e s) = rids_disk s"
  "next_inode (set_entry i e s) = next_inode s" "global_count (set_entry i e s) = global_count s"
  "local_count (set_entry i e s) = local_count s" "sender_file f c (set_entry i e s) = sender_file f c s"
  by (simp_all add: set_entry_def keysize_def sender_file_def)

lemma open_w_sender: "open_w name s = Some (g, s1) \<Longrightarrow> rids_dir s name = None \<Longrightarrow> sender_file f c s \<Longrightarrow>
    sender_file f c s1 \<and> keyentries s1 = keyentries s"
  by (auto simp: open_w_def sender_file_def split: if_splits)

lemma start_entry_sender:
  assumes "start_entry i s = Some s1" "sender_file f c s"
  shows "sender_file f c s1" "length (keyentries s1) = length (keyentries s)"
  using assms open_w_sender[of _ s _ _ f c]
  by (auto simp: start_entry_def bind_eq_Some_conv Let_def sender_file_def split: option.splits if_splits prod.splits)

lemma start_entries_sender:
  assumes "start_entries is s = Some s1" "sender_file f c s"
  shows "sender_file f c s1 \<and> length (keyentries s1) = length (keyentries s)"
  using assms by (induction "is" arbitrary: s) (auto simp: bind_eq_Some_conv start_entry_sender)

lemma start_sender:
  assumes "start_entry (keysize s) s = Some s1" "sender_file f c s" "keyentries s \<noteq> []"
  shows "sender_open s1" "(global_count s1, local_count s1) = c"
proof -
  obtain g l where c: "c = (g, l)" by fastforce
  have k: "keysize s < length (keyentries s)" using assms(3) by (simp add: keysize_def)
  then have "s1 = set_entry (keysize s) ((entry s (keysize s))\<lparr>key_fp := Some f, key_inode := f\<rparr>)
      (s\<lparr>global_count := g, local_count := l\<rparr>)"
    using assms(1,2) by (simp add: start_entry_def sender_file_def Let_def c File_Inode_def entry_def keysize_def)
  then show "sender_open s1" "(global_count s1, local_count s1) = c"
    using k assms(2) by (simp_all add: sender_open_def sender_file_def c set_entry_def entry_def keysize_def)
qed

lemma start_entries_append:
  "start_entries (is @ js) s = Option.bind (start_entries is s) (start_entries js)"
  by (induction "is" arbitrary: s) (auto split: bind_split)

lemma start_counter_sender:
  assumes "OS_StartCounter fl pr v s = Some s1" "sender_file f c s" "keyentries s \<noteq> []"
  shows "sender_open s1" "(global_count s1, local_count s1) = c"
proof -
  have "[0..<length (keyentries s)] = [0..<keysize s] @ [keysize s]"
    using assms(3) by (cases "keyentries s" rule: rev_cases) (simp_all add: keysize_def)
  then obtain s2 s3 where s2: "start_entries [0..<keysize s] s = Some s2" "start_entry (keysize s) s2 = Some s3"
      "s1 = s3\<lparr>opened_fp_queue := linked_queue_init,
                s_recv_flush := (if s_recv_flush s3 = 0 then fl else s_recv_flush s3),
                s_comp_print := (if s_comp_print s3 = 0 then pr else s_comp_print s3), s_verify_counter := v\<rparr>"
    using assms(1) by (auto simp: OS_StartCounter_def bind_eq_Some_conv start_entries_append)
  have k: "sender_file f c s2" "length (keyentries s2) = length (keyentries s)"
    using start_entries_sender[OF s2(1) assms(2)] by auto
  then have "keysize s2 = keysize s" "keyentries s2 \<noteq> []" using assms(3) by (auto simp: keysize_def)
  with start_sender[of s2 s3 f c] s2(2) k(1) have "sender_open s3" "(global_count s3, local_count s3) = c" by auto
  moreover have "sender_open s1 = sender_open s3" by (rule sender_open_cong) (simp_all add: s2(3))
  ultimately show "sender_open s1" "(global_count s1, local_count s1) = c" by (simp_all add: s2(3))
qed

subsection \<open>Reading a sequence of messages\<close>

text \<open>What every read keeps, the counters of other agents included.\<close>

definition keeps :: "bool \<Rightarrow> nat \<Rightarrow> sec_state \<Rightarrow> sec_state \<Rightarrow> bool" where
  "keeps client i s s' \<longleftrightarrow>
     length (keyentries s') = length (keyentries s) \<and> s_verify_counter s' = s_verify_counter s
     \<and> (\<forall>name. rids_dir s name \<noteq> None \<longrightarrow> rids_dir s' name = rids_dir s name)
     \<and> (\<forall>j < length (keyentries s). key_id (entry s' j) = key_id (entry s j)
          \<and> encryption_key (entry s' j) = encryption_key (entry s j) \<and> key_inode (entry s' j) = key_inode (entry s j)
          \<and> (client \<longrightarrow> crypto_method (entry s' j) = crypto_method (entry s j))
          \<and> (j \<noteq> i \<longrightarrow> key_global (entry s' j) = key_global (entry s j) \<and> key_local (entry s' j) = key_local (entry s j)))"

lemma keeps_refl [simp]: "keeps client i s s"
  by (simp add: keeps_def)

lemma keeps_trans: "keeps client i s s1 \<Longrightarrow> keeps client i s1 s2 \<Longrightarrow> keeps client i s s2"
  by (auto simp: keeps_def)

lemma keeps_set_entry:
  assumes "i < length (keyentries s)" "key_id e = key_id (entry s i)" "encryption_key e = encryption_key (entry s i)"
    "key_inode e = key_inode (entry s i)" "client \<Longrightarrow> crypto_method e = crypto_method (entry s i)"
  shows "keeps client i s (set_entry i e s)"
  using assms by (auto simp: keeps_def set_entry_def entry_def nth_list_update)

lemma keeps_other:
  assumes "keyentries s' = keyentries s" "s_verify_counter s' = s_verify_counter s"
    "\<And>name. rids_dir s name \<noteq> None \<Longrightarrow> rids_dir s' name = rids_dir s name"
  shows "keeps client i s s'"
  using assms by (simp add: keeps_def entry_def)

lemma counter_file_keeps:
  assumes "counter_file i s = Some (f, s1)"
  shows "keyentries s1 = keyentries s" "s_verify_counter s1 = s_verify_counter s"
    "rids_dir s name \<noteq> None \<Longrightarrow> rids_dir s1 name = rids_dir s name"
  using assms by (auto simp: counter_file_def open_w_def split: option.splits if_splits)

lemma StoreCounter_keeps:
  assumes "StoreCounter now i g l s = Some s'" "i < length (keyentries s)"
  shows "keeps client i s s'" "key_global (entry s' i) = key_global (entry s i)" "key_local (entry s' i) = key_local (entry s i)"
proof -
  obtain f s1 where cf: "counter_file i s = Some (f, s1)"
    using assms(1) by (auto simp: StoreCounter_def bind_eq_Some_conv)
  note o = counter_file_keeps[OF cf]
  obtain q n where s': "s' = set_entry i ((entry s1 i)\<lparr>key_fp := Some f, updating_time := now, rids_node := n\<rparr>)
              (s1\<lparr>rids_disk := (rids_disk s1)(f \<mapsto> (g, l)), opened_fp_queue := q\<rparr>)"
  proof (cases "rids_node (entry s1 i)")
    case None
    with assms(1) cf that show ?thesis by (auto simp: StoreCounter_def Let_def bind_eq_Some_conv entry_def)
  next
    case (Some a)
    then obtain q where q: "s' = set_entry i ((entry s1 i)\<lparr>key_fp := Some f, updating_time := now\<rparr>)
              (s1\<lparr>rids_disk := (rids_disk s1)(f \<mapsto> (g, l)), opened_fp_queue := q\<rparr>)"
      using assms(1) cf by (auto simp: StoreCounter_def Let_def bind_eq_Some_conv entry_def)
    have e: "(entry s1 i)\<lparr>key_fp := Some f, updating_time := now\<rparr>
        = (entry s1 i)\<lparr>key_fp := Some f, updating_time := now, rids_node := Some a\<rparr>"
      using Some by (cases "entry s1 i") simp
    show ?thesis by (rule that[of "Some a" q]) (subst e[symmetric], rule q)
  qed
  show "keeps client i s s'"
    unfolding s' using assms(2) o
    by (intro keeps_trans[OF keeps_other keeps_set_entry]) (simp_all add: entry_def)
  show "key_global (entry s' i) = key_global (entry s i)" "key_local (entry s' i) = key_local (entry s i)"
    unfolding s' using assms(2) o(1) by (simp_all add: entry_def set_entry_def)
qed

lemma accept_keeps:
  assumes "accept now i g l s = Some s'" "i < length (keyentries s)"
  shows "keeps client i s s'" "key_global (entry s' i) = g" "key_local (entry s' i) = l"
proof -
  let ?s1 = "set_entry i ((entry s i)\<lparr>key_global := g, key_local := l\<rparr>) s"
  have k1: "keeps client i s ?s1" using assms(2) by (intro keeps_set_entry) simp_all
  obtain s2 where s2: "s2 = ?s1 \<or> (\<exists>s3. StoreCounter now i g l ?s1 = Some s3 \<and> s2 = s3\<lparr>rcv_count := 0\<rparr>)"
      "s' = s2\<lparr>rcv_count := rcv_count s2 + 1\<rparr>"
    using assms(1) by (auto simp: accept_def Let_def bind_eq_Some_conv split: if_splits)
  have "keeps client i ?s1 s2 \<and> key_global (entry s2 i) = g \<and> key_local (entry s2 i) = l"
  proof (cases "s2 = ?s1")
    case True
    then show ?thesis using assms(2) by simp
  next
    case False
    with s2(1) obtain s3 where s3: "StoreCounter now i g l ?s1 = Some s3" "s2 = s3\<lparr>rcv_count := 0\<rparr>" by blast
    note k = StoreCounter_keeps[OF s3(1)]
    have "keeps client i ?s1 s3" using assms(2) k(1) by simp
    moreover have "keeps client i s3 s2" by (rule keeps_other) (simp_all add: s3(2))
    ultimately have "keeps client i ?s1 s2" by (rule keeps_trans)
    then show ?thesis using assms(2) k(2,3) s3(2) by (simp add: entry_def set_entry_def)
  qed
  moreover have "keeps client i s2 s'" by (rule keeps_other) (simp_all add: s2(2))
  ultimately show "keeps client i s s'" "key_global (entry s' i) = g" "key_local (entry s' i) = l"
    using k1 keeps_trans by (blast, simp_all add: s2(2) entry_def)
qed

definition stamp_of :: "keyentry \<Rightarrow> nat" where
  "stamp_of e = stamp (key_global e) (key_local e)"

lemma newer_stamp: "newer g l e \<longleftrightarrow> stamp_of e < stamp g l"
  by (auto simp: newer_def stamp_of_def stamp_less)

text \<open>Every counter file is the one read last.\<close>

definition rids_ok :: "sec_state \<Rightarrow> bool" where
  "rids_ok s \<longleftrightarrow> (\<forall>i < keysize s. rids_dir s (key_id (entry s i)) = Some (key_inode (entry s i)))"

lemma reload_same: "rids_ok s \<Longrightarrow> i < keysize s \<Longrightarrow> ReloadCounter i (key_id (entry s i)) s = s"
  by (simp add: rids_ok_def ReloadCounter_def File_Inode_def)

lemma keeps_rids_ok: "keeps client i s s' \<Longrightarrow> rids_ok s \<Longrightarrow> rids_ok s'"
  by (auto simp: keeps_def rids_ok_def keysize_def)

text \<open>The counters inside a message, which depend on its bytes, the method and the key alone.\<close>

definition compressed_stamp :: "crypto \<Rightarrow> byte list \<Rightarrow> nat \<Rightarrow> nat" where
  "compressed_stamp cr cleartext buffer_size =
     (let k = length (takeWhile (\<lambda>c. c = 33) (bytes_at cleartext 0 buffer_size));
          text = os_zlib_uncompress cr (bytes_at cleartext k (buffer_size - k)) OS_MAXSTR
      in stamp (c_atoi (drop 37 text)) (c_atoi (drop 11 (drop 37 text))))"

definition old_stamp :: "byte list \<Rightarrow> nat \<Rightarrow> nat" where
  "old_stamp cleartext buffer_size =
     (let f_msg = drop 32 (bytes_at cleartext 1 (buffer_size - 1)) in stamp (c_atoi f_msg) (c_atoi (drop 11 f_msg)))"

definition wire_stamp :: "crypto \<Rightarrow> crypt_method \<Rightarrow> byte list \<Rightarrow> byte list \<Rightarrow> nat \<Rightarrow> nat" where
  "wire_stamp cr meth key buffer buffer_size =
     (let b = (if bytes_at buffer 0 4 = [35, 65, 69, 83] then drop 4 buffer else buffer);
          sz = (case meth of W_METH_BLOWFISH \<Rightarrow> buffer_size | W_METH_AES \<Rightarrow> buffer_size - 4);
          cleartext = snd (doEncryptByMethod cr (bytes_at b 1 sz) key False meth)
      in if char_at cleartext 0 = 33 then compressed_stamp cr cleartext buffer_size else old_stamp cleartext buffer_size)"

text \<open>What one read does to the counters of its agent: \<open>v\<close> is the stamp of the message.\<close>

definition read_step :: "bool \<Rightarrow> nat \<Rightarrow> nat \<Rightarrow> key_state \<Rightarrow> sec_state \<Rightarrow> sec_state \<Rightarrow> bool" where
  "read_step client i v r s s' \<longleftrightarrow> keeps client i s s' \<and> stamp_of (entry s i) \<le> stamp_of (entry s' i)
     \<and> (r = KS_VALID \<longrightarrow> stamp_of (entry s i) < v \<and> stamp_of (entry s' i) = v)"

lemma read_step_refl: "r \<noteq> KS_VALID \<Longrightarrow> read_step client i v r s s"
  by (simp add: read_step_def)

lemma read_compressed_step:
  assumes "read_compressed cr now cleartext i sz s = Some (r, out, s')"
    "s_verify_counter s" "rids_ok s" "i < keysize s"
  shows "read_step client i (compressed_stamp cr cleartext sz) r s s'"
proof -
  define tx where "tx = os_zlib_uncompress cr (bytes_at cleartext
    (length (takeWhile (\<lambda>c. c = 33) (bytes_at cleartext 0 sz)))
    (sz - length (takeWhile (\<lambda>c. c = 33) (bytes_at cleartext 0 sz)))) OS_MAXSTR"
  let ?g = "c_atoi (drop 37 tx)" and ?l = "c_atoi (drop 11 (drop 37 tx))"
  have v: "compressed_stamp cr cleartext sz = stamp ?g ?l" by (simp add: compressed_stamp_def tx_def Let_def)
  from assms(4) have i: "i < length (keyentries s)" by (simp add: keysize_def)
  consider "s' = s" "r \<noteq> KS_VALID" | "newer ?g ?l (entry s i)" "accept now i ?g ?l s = Some s'"
    using assms(1,2) unfolding read_compressed_def Let_def tx_def[symmetric] reload_same[OF assms(3,4)] if_cancel
    by (auto simp: bind_eq_Some_conv split: if_splits)
  then show ?thesis
  proof cases
    case 1
    then show ?thesis by (simp add: read_step_refl)
  next
    case 2
    then show ?thesis using accept_keeps[OF 2(2) i] unfolding v read_step_def newer_stamp by (simp add: stamp_of_def)
  qed
qed

lemma read_old_step:
  assumes "read_old cr cleartext i sz s = (r, out, s')" "s_verify_counter s" "i < length (keyentries s)"
  shows "read_step client i (old_stamp cleartext sz) r s s'"
proof -
  define f where "f = drop 32 (bytes_at cleartext 1 (sz - 1))"
  let ?s = "set_entry i ((entry s i)\<lparr>key_global := c_atoi f, key_local := c_atoi (drop 11 f)\<rparr>) s"
  have v: "old_stamp cleartext sz = stamp (c_atoi f) (c_atoi (drop 11 f))" by (simp add: old_stamp_def f_def Let_def)
  have k: "keeps client i s ?s" using assms(3) by (intro keeps_set_entry) simp_all
  consider "s' = s" "r \<noteq> KS_VALID" | "newer (c_atoi f) (c_atoi (drop 11 f)) (entry s i)" "s' = ?s"
    using assms(1,2) unfolding read_old_def Let_def f_def[symmetric]
    by (cases "CheckSum cr (bytes_at cleartext 1 (sz - 1)) (int sz)"; cases "newer (c_atoi f) (c_atoi (drop 11 f)) (entry s i)";
        cases "after_colon (drop 48 (bytes_at cleartext 1 (sz - 1)))") simp_all
  then show ?thesis
  proof cases
    case 1
    then show ?thesis by (simp add: read_step_refl)
  next
    case 2
    then show ?thesis using k assms(3) unfolding v read_step_def newer_stamp by (simp add: stamp_of_def)
  qed
qed

definition wire_method :: "bool \<Rightarrow> byte list \<Rightarrow> keyentry \<Rightarrow> crypt_method" where
  "wire_method client buffer e =
     (if client then crypto_method e else if bytes_at buffer 0 4 = [35, 65, 69, 83] then W_METH_AES else W_METH_BLOWFISH)"

lemma ReadSecMSG_step:
  assumes r: "ReadSecMSG cr client now b i sz s = Some (r, out, s')"
    and v: "s_verify_counter s" and ok: "rids_ok s" and i: "i < keysize s"
  shows "read_step client i (wire_stamp cr (wire_method client b (entry s i)) (encryption_key (entry s i)) b sz) r s s'"
proof -
  define m where "m = wire_method client b (entry s i)"
  define s1 where "s1 = (if client then s else set_entry i ((entry s i)\<lparr>crypto_method := m\<rparr>) s)"
  define b1 where "b1 = (if bytes_at b 0 4 = [35, 65, 69, 83] then drop 4 b else b)"
  define z where "z = (case m of W_METH_BLOWFISH \<Rightarrow> sz | W_METH_AES \<Rightarrow> sz - 4)"
  define c where "c = snd (doEncryptByMethod cr (bytes_at b1 1 z) (encryption_key (entry s i)) False m)"
  from i have i': "i < length (keyentries s)" by (simp add: keysize_def)
  have k: "keeps client i s s1" unfolding s1_def using i' by (auto intro: keeps_set_entry)
  have e1: "encryption_key (entry s1 i) = encryption_key (entry s i)" "crypto_method (entry s1 i) = m"
      "stamp_of (entry s1 i) = stamp_of (entry s i)" "i < keysize s1" "s_verify_counter s1"
    using i' i v by (auto simp: s1_def m_def wire_method_def stamp_of_def set_entry_def entry_def keysize_def)
  have s1_eq: "(if client then s else set_entry i ((entry s i)\<lparr>crypto_method :=
      (if bytes_at b 0 4 = [35, 65, 69, 83] then W_METH_AES else W_METH_BLOWFISH)\<rparr>) s) = s1"
    by (simp add: s1_def m_def wire_method_def)
  obtain d c' where c': "doEncryptByMethod cr (bytes_at b1 1 z) (encryption_key (entry s i)) False m = (d, c')" by fastforce
  then have cc: "c' = c" by (simp add: c_def)
  consider "s' = s \<or> s' = s1" "r \<noteq> KS_VALID"
    | "char_at c 0 = 33" "read_compressed cr now c i sz s1 = Some (r, out, s')"
    | "char_at c 0 = 58" "read_old cr c i sz s1 = (r, out, s')"
    using r unfolding ReadSecMSG_def Let_def s1_eq b1_def[symmetric] e1(1,2) z_def[symmetric] c' cc
    by (auto split: if_splits)
  then have "read_step client i (wire_stamp cr m (encryption_key (entry s i)) b sz) r s1 s' \<or> s' = s \<and> r \<noteq> KS_VALID"
  proof cases
    case 1
    then show ?thesis by (auto simp: read_step_refl)
  next
    case 2
    then show ?thesis using read_compressed_step[OF 2(2) e1(5) keeps_rids_ok[OF k ok] e1(4)]
      unfolding wire_stamp_def Let_def b1_def[symmetric] z_def[symmetric] c_def[symmetric] by simp
  next
    case 3
    then show ?thesis using read_old_step[OF 3(2) e1(5)] e1(4)
      unfolding wire_stamp_def Let_def b1_def[symmetric] z_def[symmetric] c_def[symmetric] by (simp add: keysize_def)
  qed
  then show ?thesis
    unfolding m_def[symmetric] using k e1(3) keeps_trans by (auto simp: read_step_def)
qed

text \<open>A sequence of messages, each with the time, its bytes, the index of its agent and its size.\<close>

fun read_run ::
    "crypto \<Rightarrow> bool \<Rightarrow> (int \<times> byte list \<times> nat \<times> nat) list \<Rightarrow> sec_state \<Rightarrow> (key_state list \<times> sec_state) option" where
  "read_run cr client [] s = Some ([], s)"
| "read_run cr client ((now, b, i, sz) # ms) s =
     do {
       (r, out, s1) \<leftarrow> ReadSecMSG cr client now b i sz s;
       (rs, s2) \<leftarrow> read_run cr client ms s1;
       Some (r # rs, s2)
     }"

definition advances :: "bool \<Rightarrow> sec_state \<Rightarrow> sec_state \<Rightarrow> bool" where
  "advances client s s' \<longleftrightarrow>
     length (keyentries s') = length (keyentries s) \<and> s_verify_counter s' \<and> rids_ok s'
     \<and> (\<forall>j < length (keyentries s). encryption_key (entry s' j) = encryption_key (entry s j)
          \<and> (client \<longrightarrow> crypto_method (entry s' j) = crypto_method (entry s j))
          \<and> stamp_of (entry s j) \<le> stamp_of (entry s' j))"

lemma advances_step:
  assumes "read_step client i v r s s'" "s_verify_counter s" "rids_ok s"
  shows "advances client s s'"
  unfolding advances_def
proof (intro conjI allI impI)
  from assms(1) have k: "keeps client i s s'" by (simp add: read_step_def)
  then show "length (keyentries s') = length (keyentries s)" "s_verify_counter s'" "rids_ok s'"
    using assms(2,3) keeps_rids_ok by (auto simp: keeps_def)
  show "stamp_of (entry s j) \<le> stamp_of (entry s' j)" if "j < length (keyentries s)" for j
    using assms(1) k that by (cases "j = i") (auto simp: read_step_def keeps_def stamp_of_def)
qed (use assms(1) in \<open>auto simp: read_step_def keeps_def\<close>)

lemma advances_trans: "advances client s s1 \<Longrightarrow> advances client s1 s2 \<Longrightarrow> advances client s s2"
  unfolding advances_def by (metis le_trans)

lemma read_run_advances:
  assumes "read_run cr client ms s = Some (rs, s')" "s_verify_counter s" "rids_ok s"
    and "\<forall>(now, b, i, sz) \<in> set ms. i < keysize s"
  shows "advances client s s' \<and> length rs = length ms"
  using assms
proof (induction ms arbitrary: s rs)
  case Nil
  then show ?case by (auto simp: advances_def)
next
  case (Cons m ms)
  obtain now b i sz where m: "m = (now, b, i, sz)" by (cases m) auto
  obtain r out s1 rs' where r: "ReadSecMSG cr client now b i sz s = Some (r, out, s1)"
      "read_run cr client ms s1 = Some (rs', s')" "rs = r # rs'"
    using Cons.prems(1) by (auto simp: m bind_eq_Some_conv)
  have a: "advances client s s1" using ReadSecMSG_step[OF r(1)] Cons.prems(2-4) advances_step by (simp add: m)
  moreover have "advances client s1 s' \<and> length rs' = length ms"
    using a Cons.prems(4) by (intro Cons.IH[OF r(2)]) (auto simp: advances_def keysize_def)
  ultimately show ?case using advances_trans r(3) by auto
qed

lemma read_run_append:
  "read_run cr client (ms @ ns) s = do {
     (rs, s1) \<leftarrow> read_run cr client ms s; (rs', s2) \<leftarrow> read_run cr client ns s1; Some (rs @ rs', s2) }"
  by (induction cr client ms s rule: read_run.induct) (auto split: bind_split prod.split)

subsection \<open>The counters at the start\<close>

definition rids_has :: "sec_state \<Rightarrow> nat \<Rightarrow> bool" where
  "rids_has s i \<longleftrightarrow> rids_dir s (key_id (entry s i)) = Some (key_inode (entry s i))"

text \<open>The file of an entry at the start, and the state in which it is recorded.\<close>

lemma start_entry_parts:
  assumes "start_entry j s = Some s1"
  obtains e s2 where "s1 = set_entry j e s2" "length (keyentries s2) = length (keyentries s)"
    "\<And>i. i \<noteq> j \<Longrightarrow> entry s2 i = entry s i" "key_id e = key_id (entry s2 j)"
    "\<And>name. rids_dir s name \<noteq> None \<Longrightarrow> rids_dir s2 name = rids_dir s name"
    "j < keysize s \<Longrightarrow> key_id (entry s2 j) = key_id (entry s j) \<and> rids_dir s2 (key_id (entry s j)) = Some (key_inode e)"
proof -
  define name where "name = (if j = keysize s then SENDER_COUNTER else key_id (entry s j))"
  obtain f s2 where s2: "(case rids_dir s name of None \<Rightarrow> open_w name s
       | Some f \<Rightarrow> (let (g, l) = (case rids_disk s f of None \<Rightarrow> (0, 0) | Some c \<Rightarrow> c)
           in Some (f, if j = keysize s then s\<lparr>global_count := g, local_count := l\<rparr>
                       else set_entry j ((entry s j)\<lparr>key_global := g, key_local := l\<rparr>) s))) = Some (f, s2)"
      "s1 = set_entry j ((entry s2 j)\<lparr>key_fp := (if j = keysize s then Some f else None),
          key_inode := File_Inode s2 name\<rparr>) s2"
    using assms unfolding start_entry_def name_def[symmetric] Let_def[of name] by (auto simp: bind_eq_Some_conv)
  let ?e = "(entry s2 j)\<lparr>key_fp := (if j = keysize s then Some f else None), key_inode := File_Inode s2 name\<rparr>"
  show thesis
  proof (cases "rids_dir s name")
    case None
    then have "s2 = s\<lparr>rids_dir := (rids_dir s)(name \<mapsto> next_inode s), rids_disk := (rids_disk s)(next_inode s := None),
            next_inode := next_inode s + 1\<rparr>"
      using s2(1) by (auto simp: open_w_def split: if_splits)
    then show thesis using None s2(2) by (intro that[of ?e s2]) (auto simp: entry_def File_Inode_def name_def)
  next
    case (Some h)
    then obtain g l where "s2 = (if j = keysize s then s\<lparr>global_count := g, local_count := l\<rparr>
                       else set_entry j ((entry s j)\<lparr>key_global := g, key_local := l\<rparr>) s)"
      using s2(1) by (auto simp: Let_def split: prod.splits)
    then show thesis using Some s2(2)
      by (intro that[of ?e s2]) (auto simp: entry_def File_Inode_def name_def set_entry_def keysize_def)
  qed
qed

lemma start_entry_length: "start_entry i s = Some s1 \<Longrightarrow> length (keyentries s1) = length (keyentries s)"
  by (erule start_entry_parts) simp

lemma start_entries_length: "start_entries is s = Some s1 \<Longrightarrow> length (keyentries s1) = length (keyentries s)"
  by (induction "is" arbitrary: s) (auto simp: bind_eq_Some_conv start_entry_length)

lemma start_entry_has:
  assumes "start_entry j s = Some s1" "j < length (keyentries s)" "i < keysize s" "i = j \<or> rids_has s i"
  shows "rids_has s1 i"
proof -
  obtain s2 e where p: "s1 = set_entry j e s2" "length (keyentries s2) = length (keyentries s)"
    "\<And>i. i \<noteq> j \<Longrightarrow> entry s2 i = entry s i" "key_id e = key_id (entry s2 j)"
    "\<And>name. rids_dir s name \<noteq> None \<Longrightarrow> rids_dir s2 name = rids_dir s name"
    "j < keysize s \<Longrightarrow> key_id (entry s2 j) = key_id (entry s j) \<and> rids_dir s2 (key_id (entry s j)) = Some (key_inode e)"
    using start_entry_parts[OF assms(1)] by metis
  show ?thesis using assms(2-4) p(2-6) by (cases "i = j") (auto simp: p(1) rids_has_def)
qed

lemma start_entries_has:
  assumes "start_entries is s = Some s1" "set is \<subseteq> {..<length (keyentries s)}" "i < keysize s" "i \<in> set is \<or> rids_has s i"
  shows "rids_has s1 i"
  using assms
proof (induction "is" arbitrary: s)
  case (Cons j "is")
  then obtain s2 where s2: "start_entry j s = Some s2" "start_entries is s2 = Some s1" by (auto simp: bind_eq_Some_conv)
  have k: "length (keyentries s2) = length (keyentries s)"
    by (rule start_entry_length[OF s2(1)])
  show ?case
  proof (cases "i = j \<or> rids_has s i")
    case True
    then have "rids_has s2 i" using start_entry_has[OF s2(1) _ Cons.prems(3)] Cons.prems(2) by simp
    then show ?thesis using Cons.IH[OF s2(2)] Cons.prems(2,3) k by (simp add: keysize_def)
  next
    case False
    then show ?thesis using Cons.IH[OF s2(2)] Cons.prems k by (simp add: keysize_def)
  qed
qed simp

lemma start_counter_rids_ok:
  assumes "OS_StartCounter fl pr v s = Some s1"
  shows "rids_ok s1" "s_verify_counter s1 = v" "keysize s1 = keysize s"
proof -
  obtain s2 where s2: "start_entries [0..<length (keyentries s)] s = Some s2"
      "s1 = s2\<lparr>opened_fp_queue := linked_queue_init,
                s_recv_flush := (if s_recv_flush s2 = 0 then fl else s_recv_flush s2),
                s_comp_print := (if s_comp_print s2 = 0 then pr else s_comp_print s2), s_verify_counter := v\<rparr>"
    using assms by (auto simp: OS_StartCounter_def bind_eq_Some_conv)
  have h: "rids_has s2 i" if "i < keysize s" for i
    using that by (intro start_entries_has[OF s2(1) _ that]) (auto simp: keysize_def)
  have len: "length (keyentries s2) = length (keyentries s)" by (rule start_entries_length[OF s2(1)])
  then show "rids_ok s1" using h unfolding rids_ok_def s2(2) by (auto simp: rids_has_def entry_def keysize_def)
  show "s_verify_counter s1 = v" by (simp add: s2(2))
  show "keysize s1 = keysize s" using len by (simp add: s2(2) keysize_def)
qed

subsection \<open>A message read back\<close>

lemma sec_msg_read_back:
  assumes "crypto_ok cr" and "CreateSecMSG cr client now r msg i s = Some (n, wire, s')" and "0 < n"
    and "b = drop (length (sec_header client (entry s i)) - length (crypto_token (crypto_method (entry s i)))) wire"
    and "length (key_id (entry s i)) \<le> 8" and "j < length (keyentries t)"
    and "encryption_key (entry t j) = encryption_key (entry s i)"
    and "client' \<Longrightarrow> crypto_method (entry t j) = crypto_method (entry s i)"
    and "key_mode t = W_ENCRYPTION_KEY \<or> key_mode t = W_DUAL_KEY" and "rcv_count t < s_recv_flush t"
    and "\<not> s_verify_counter t \<or> newer (global_count s') (local_count s') (entry t j)"
  shows "\<exists>t'. ReadSecMSG cr client' now' b j (length b - 1) t = Some (KS_VALID, msg, t')
    \<and> key_global (entry t' j) = global_count s' \<and> key_local (entry t' j) = local_count s'
    \<and> rcv_count t' = rcv_count t + 1 \<and> s_recv_flush t' = s_recv_flush t"
proof -
  obtain cmp body where p:
      "z_compress cr (OS_MAXSTR - 12) (sec_text cr r (global_count s') (local_count s') msg) = Some cmp"
      "body = snd (doEncryptByMethod cr (replicate (padding (length cmp + 1) + 1) 33 @ cmp)
         (encryption_key (entry s i)) True (crypto_method (entry s i)))"
      "wire = sec_header client (entry s i) @ body"
      "length msg \<le> OS_MAXSTR - OS_HEADER_SIZE" "unat (local_count s') < 10000"
    by (rule create_parts[OF assms(1-3)]) blast
  let ?k = "padding (length cmp + 1)" and ?m = "crypto_method (entry s i)"
  let ?x = "replicate (?k + 1) 33 @ cmp"
  let ?t = "if client' then t else set_entry j ((entry t j)\<lparr>crypto_method := ?m\<rparr>) t"
  have blk: "length ?x mod 8 = 0" using padding_block(1)[of "length cmp + 1"] by (simp add: add.commute)
  have b: "b = crypto_token ?m @ body" using assms(4,5) p(3) sec_header_token by simp
  obtain d where d: "doEncryptByMethod cr body (encryption_key (entry t j)) False ?m = (Suc d, ?x)"
    using decrypt_own[OF assms(1) blk _ p(2)] assms(7) by auto
  have "ReadSecMSG cr client' now' b j (length b - 1) t = read_compressed cr now' ?x j (length b - 1) ?t"
    by (rule ReadSecMSG_token[OF assms(9,6,8) d _ b]) (simp_all add: char_at_def)
  also have "\<dots> = Some (KS_VALID, msg, (set_entry j ((entry ?t j)\<lparr>key_global := global_count s',
      key_local := local_count s'\<rparr>) ?t)\<lparr>rcv_count := rcv_count ?t + 1\<rparr>)"
  proof (rule read_compressed_own[OF assms(1) p(1,5,4)])
    have "length ?x \<le> length body" by (rule encrypt_longer[OF assms(1) blk p(2)])
    then show "?k + 1 + length cmp \<le> length b - 1" by (simp add: b length_crypto_token split: crypt_method.split)
  qed (use assms(6,10,11) in \<open>auto simp: newer_def set_entry_def entry_def\<close>)
  finally show ?thesis using assms(6) by (auto simp: entry_def set_entry_def)
qed

text \<open>A read always returns when it need not store the counters.\<close>

lemma read_compressed_total:
  assumes "rcv_count s < s_recv_flush s"
  shows "\<exists>x. read_compressed cr now c i sz s = Some x"
proof -
  have "\<not> s_recv_flush s \<le> rcv_count s" using assms by simp
  then show ?thesis unfolding read_compressed_def Let_def by (simp add: accept_quick[OF assms])
qed

lemma ReadSecMSG_total:
  assumes "rcv_count s < s_recv_flush s"
  shows "\<exists>x. ReadSecMSG cr client now b i sz s = Some x"
proof -
  have "rcv_count (set_entry i e s) < s_recv_flush (set_entry i e s)" for e using assms by (simp add: set_entry_def)
  then show ?thesis
    unfolding ReadSecMSG_def Let_def using assms read_compressed_total
    by (simp del: split_paired_Ex split: prod.split if_split)
qed

subsection \<open>Properties\<close>


text \<open>
  A set of primitives that meets \<open>crypto_ok\<close>: identity for Blowfish, padding alone for AES, and stored
  data behind the byte 0x78 and its length for zlib.
\<close>

definition crypto_demo :: crypto where
  "crypto_demo =
     \<lparr>bf_cbc = (\<lambda>key iv enc x. x),
      aes_enc = (\<lambda>key iv x. let p = 16 - length x mod 16 in Some (x @ replicate p (of_nat p))),
      aes_dec = (\<lambda>key iv y. Some (take (length y - unat (last y)) y)),
      md5 = (\<lambda>x. replicate 16 0),
      z_compress = (\<lambda>cap x. if length x \<le> OS_MAXSTR then Some (0x78 # frame x) else None),
      z_uncompress = (\<lambda>cap y. Some (take (unat (load_le (drop 1 y))) (drop 5 y)))\<rparr>"

lemma aes_demo:
  "\<exists>y. aes_enc crypto_demo key iv x = Some y \<and> aes_dec crypto_demo key iv y = Some x
    \<and> length y = 16 * (length x div 16 + 1)"
proof -
  define p where "p = 16 - length x mod 16"
  have m: "length x mod 16 < 16" by simp
  then have p: "0 < p" "p < 256" unfolding p_def by linarith+
  then have u: "unat (of_nat p :: byte) = p" by (simp add: unat_of_nat take_bit_eq_mod)
  from p(1) have l: "last (x @ replicate p (of_nat p)) = (of_nat p :: byte)" by simp
  have "length x + p = 16 * (length x div 16 + 1)" using m unfolding p_def by presburger
  moreover have "aes_enc crypto_demo key iv x = Some (x @ replicate p (of_nat p))"
    by (simp add: crypto_demo_def p_def Let_def)
  moreover have "aes_dec crypto_demo key iv (x @ replicate p (of_nat p)) = Some x"
    by (simp add: crypto_demo_def l u del: last_append last_replicate)
  ultimately show ?thesis by simp
qed

lemma z_demo:
  assumes "z_compress crypto_demo cap x = Some y"
  shows "char_at y 0 = 0x78 \<and> length y \<le> compressBound (length x)
    \<and> (\<forall>cap' junk. length x \<le> cap' \<longrightarrow> z_uncompress crypto_demo cap' (y @ junk) = Some x)"
proof -
  from assms have y: "y = 0x78 # frame x" and x: "length x < 2 ^ 32"
    by (auto simp: crypto_demo_def OS_MAXSTR_def split: if_splits)
  have "unat (of_nat (length x) :: uint32) = length x" using x by (simp add: unat_of_nat take_bit_eq_mod)
  then show ?thesis by (simp add: y crypto_demo_def char_at_def compressBound_def frame_def)
qed

lemma crypto_demo_ok: "crypto_ok crypto_demo"
proof -
  have "length x mod 8 = 0 \<longrightarrow> bf_cbc crypto_demo key iv False (bf_cbc crypto_demo key iv True x) = x
      \<and> length (bf_cbc crypto_demo key iv True x) = length x" for key iv x by (simp add: crypto_demo_def)
  moreover have "length (md5 crypto_demo x) = 16" for x by (simp add: crypto_demo_def)
  moreover have "length x \<le> OS_MAXSTR \<longrightarrow> compressBound (length x) \<le> cap \<longrightarrow> z_compress crypto_demo cap x \<noteq> None"
    for x cap by (simp add: crypto_demo_def)
  ultimately show ?thesis unfolding crypto_ok_def using aes_demo z_demo by (intro conjI allI impI) simp_all
qed

definition demo_entry :: "crypt_method \<Rightarrow> keyentry" where
  "demo_entry meth = \<lparr>key_id = [48, 48, 49], encryption_key = [1, 2, 3], crypto_method = meth, key_global = 0,
     key_local = 0, key_inode = 5, single_host = False, key_fp = None, rids_node = None, updating_time = 0\<rparr>"

definition demo_keys :: "crypt_method \<Rightarrow> sec_state" where
  "demo_keys meth = \<lparr>keyentries = [demo_entry meth, (demo_entry meth)\<lparr>key_inode := 6, key_fp := Some 6\<rparr>],
     key_mode = W_DUAL_KEY, opened_fp_queue = linked_queue_init, global_count = 0, local_count = 7,
     evt_count = 0, rcv_count = 0, c_orig_size = 0, c_comp_size = 0, saved_time = 0, s_comp_print = 100,
     s_recv_flush = 128, s_verify_counter = True,
     rids_dir = [[48, 48, 49] \<mapsto> 5, SENDER_COUNTER \<mapsto> 6], rids_disk = [5 \<mapsto> (0, 0), 6 \<mapsto> (0, 7)],
     next_inode = 7, s_writable = True\<rparr>"

lemma demo_create:
  "\<exists>n wire s'. CreateSecMSG crypto_demo True 0 42 [104, 105] 0 (demo_keys W_METH_AES) = Some (n, wire, s')
    \<and> 0 < n \<and> global_count s' = 0 \<and> local_count s' = 8"
proof -
  have "sender_open (demo_keys W_METH_AES)" "length [104 :: byte, 105] \<le> OS_MAXSTR - OS_HEADER_SIZE"
    by (simp_all add: sender_open_def demo_keys_def entry_def keysize_def SENDER_COUNTER_def OS_MAXSTR_def OS_HEADER_SIZE_def)
  then show ?thesis
    using create_succeeds[OF crypto_demo_ok, of "demo_keys W_METH_AES" "[104, 105]" True 0 42 0]
    by (auto simp: demo_keys_def next_counters_def)
qed


lemma start_entry_total:
  "s_writable s \<Longrightarrow> \<exists>s'. start_entry i s = Some s' \<and> s_writable s' \<and> key_mode s' = key_mode s"
  by (auto simp: start_entry_def open_w_def Let_def set_entry_def split: option.split prod.split)

lemma start_entries_total:
  "s_writable s \<Longrightarrow> \<exists>s'. start_entries is s = Some s' \<and> s_writable s' \<and> key_mode s' = key_mode s"
proof (induction "is" arbitrary: s)
  case (Cons i "is")
  then obtain s1 where s1: "start_entry i s = Some s1" "s_writable s1" "key_mode s1 = key_mode s"
    using start_entry_total by blast
  with Cons.IH[of s1] show ?case by auto
qed simp

lemma start_counter_total:
  "s_writable s \<Longrightarrow> \<exists>s'. OS_StartCounter fl pr v s = Some s' \<and> key_mode s' = key_mode s"
  using start_entries_total[of s "[0..<length (keyentries s)]"] by (auto simp: OS_StartCounter_def)

text \<open>
  C7: every message of admissible length is sent: creation returns its encrypted form, which fits the
  largest frame the transport accepts, whatever the cipher and the compression do with it.
\<close>

theorem sec_msg_fits:
  assumes "crypto_ok cr" and "key_mode s = W_ENCRYPTION_KEY \<or> key_mode s = W_DUAL_KEY" and "sender_open s"
    and "msg \<noteq> []" and "length msg \<le> OS_MAXSTR - OS_HEADER_SIZE" and "length (key_id (entry s i)) \<le> 8"
  shows "\<exists>wire s'. CreateSecMSG cr client now r msg i s = Some (int (length wire), wire, s')
    \<and> wire \<noteq> [] \<and> length wire \<le> OS_MAXSTR"
proof -
  obtain n wire s' where c: "CreateSecMSG cr client now r msg i s = Some (n, wire, s')" "0 < n"
    using create_succeeds[OF assms(1,2,4,5,3)] by blast
  with create_bound[OF assms(1) c assms(6)] show ?thesis by auto
qed

theorem sec_msg_fits_witness:
  "\<exists>wire s'. CreateSecMSG crypto_demo True 0 42 [104, 105] 0 (demo_keys W_METH_AES) = Some (int (length wire), wire, s')
    \<and> wire \<noteq> [] \<and> length wire \<le> OS_MAXSTR"
  by (rule sec_msg_fits[OF crypto_demo_ok])
    (simp_all add: sender_open_def demo_keys_def demo_entry_def entry_def keysize_def SENDER_COUNTER_def
      OS_MAXSTR_def OS_HEADER_SIZE_def)

text \<open>
  C8: counters are never reused, not even over a crash: if a process has sent a message and another
  starts later from the same counter directory, with whatever keys, then the next message it sends has
  larger counters, as long as the global counter has not reached its last value.
\<close>

theorem sender_counters_survive_restart:
  assumes "crypto_ok cr" and "sender_open s" and "CreateSecMSG cr client now r msg i s = Some (n, wire, s1)" and "0 < n"
    and "rids_dir t = rids_dir s1" and "rids_disk t = rids_disk s1" and "next_inode t = next_inode s1"
    and "keyentries t \<noteq> []" and "OS_StartCounter fl pr v t = Some t1"
    and "CreateSecMSG cr client' now' r' msg' i' t1 = Some (m, wire', t2)" and "0 < m"
    and "global_count s1 < 4294967295"
  shows "stamp (global_count s1) (local_count s1) < stamp (global_count t2) (local_count t2)"
proof -
  note c = create_counters[OF assms(1,3,4,2)]
  obtain f where "rids_dir s SENDER_COUNTER = Some f" "f < next_inode s"
    using assms(2) by (auto simp: sender_open_def split: option.splits)
  then have "sender_file f (global_count s1, local_count s1) t" using c assms(5-7) by (simp add: sender_file_def)
  from start_counter_sender[OF assms(9) this assms(8)]
  have t1: "sender_open t1" "global_count t1 = global_count s1" "local_count t1 = local_count s1" by simp_all
  show ?thesis using create_counters[OF assms(1,10,11) t1(1)] next_counters_stamp[of t1] assms(12) t1 by simp
qed

theorem sender_counters_survive_restart_witness:
  "\<exists>n wire s1 t1 m wire' t2.
     CreateSecMSG crypto_demo True 0 42 [104, 105] 0 (demo_keys W_METH_AES) = Some (n, wire, s1)
     \<and> OS_StartCounter 0 0 True (s1\<lparr>global_count := 0, local_count := 0\<rparr>) = Some t1
     \<and> CreateSecMSG crypto_demo True 0 43 [104, 105] 0 t1 = Some (m, wire', t2)
     \<and> stamp (global_count s1) (local_count s1) < stamp (global_count t2) (local_count t2)"
proof -
  let ?d = "demo_keys W_METH_AES"
  have d: "sender_open ?d" "key_mode ?d = W_DUAL_KEY" "rids_dir ?d SENDER_COUNTER = Some 6" "6 < next_inode ?d"
      "length [104 :: byte, 105] \<le> OS_MAXSTR - OS_HEADER_SIZE"
    by (simp_all add: sender_open_def demo_keys_def entry_def keysize_def SENDER_COUNTER_def OS_MAXSTR_def OS_HEADER_SIZE_def)
  obtain n wire s1 where c: "CreateSecMSG crypto_demo True 0 42 [104, 105] 0 ?d = Some (n, wire, s1)" "0 < n"
      "rids_dir s1 = rids_dir ?d" "keyentries s1 = keyentries ?d" "next_inode s1 = next_inode ?d" "global_count s1 = 0"
      "key_mode s1 = W_DUAL_KEY" "s_writable s1"
    using create_succeeds[OF crypto_demo_ok _ _ d(5,1), of True 0 42 0] d(2) by (auto simp: demo_keys_def next_counters_def)
  let ?t = "s1\<lparr>global_count := 0, local_count := 0\<rparr>"
  obtain t1 where t1: "OS_StartCounter 0 0 True ?t = Some t1" "key_mode t1 = W_DUAL_KEY"
    using start_counter_total[of ?t 0 0 True] c by auto
  have "sender_file 6 (global_count s1, local_count s1) ?t"
    using create_counters[OF crypto_demo_ok c(1,2) d(1)] d(3,4) by (simp add: sender_file_def)
  then have "sender_open t1" using start_counter_sender[OF t1(1)] c(4) by (simp add: demo_keys_def)
  then obtain m wire' t2 where t2: "CreateSecMSG crypto_demo True 0 43 [104, 105] 0 t1 = Some (m, wire', t2)" "0 < m"
    using create_succeeds[OF crypto_demo_ok, of t1 "[104, 105]" True 0 43 0] t1(2) d(5) by auto
  show ?thesis
    using sender_counters_survive_restart[OF crypto_demo_ok d(1) c(1,2) _ _ _ _ t1(1) t2] c t1(1) t2(1)
    by (auto simp: demo_keys_def)
qed

text \<open>
  C2: replay protection. With verification of counters on, a message that has been accepted for an
  agent since the start is never accepted for that agent again, whatever arrives before, in between,
  in either format and for any agent, and whenever counters are stored.
\<close>

theorem no_replay:
  assumes "OS_StartCounter fl pr True s0 = Some s"
    and "\<forall>(now, b, i, sz) \<in> set (before @ (now1, m, i, n) # between @ [(now2, m, i, n)]). i < keysize s0"
    and "read_run cr client (before @ (now1, m, i, n) # between @ [(now2, m, i, n)]) s = Some (rs, s')"
    and "rs ! length before = KS_VALID"
  shows "last rs \<noteq> KS_VALID"
proof -
  note st = start_counter_rids_ok[OF assms(1)]
  obtain rs1 s1 r out s2 rs2 s3 r' out' where
      run: "read_run cr client before s = Some (rs1, s1)" "ReadSecMSG cr client now1 m i n s1 = Some (r, out, s2)"
        "read_run cr client between s2 = Some (rs2, s3)" "ReadSecMSG cr client now2 m i n s3 = Some (r', out', s')"
    and rs: "rs = rs1 @ r # rs2 @ [r']"
    using assms(3) by (auto simp: read_run_append bind_eq_Some_conv)
  have a1: "advances client s s1" "length rs1 = length before"
    using read_run_advances[OF run(1)] st assms(2) by auto
  then have i: "i < keysize s1" "s_verify_counter s1" "rids_ok s1" and k1: "keysize s1 = keysize s0"
    using assms(2) st(3) by (auto simp: advances_def keysize_def)
  note first = ReadSecMSG_step[OF run(2) i(2,3,1)]
  note a2 = advances_step[OF first i(2,3)]
  then have k2: "s_verify_counter s2" "rids_ok s2" "keysize s2 = keysize s0" using k1 by (auto simp: advances_def keysize_def)
  have a3: "advances client s2 s3" using read_run_advances[OF run(3) k2(1,2)] assms(2) k2(3) by auto
  then have k3: "s_verify_counter s3" "rids_ok s3" "i < keysize s3" using i(1) k1 k2(3) by (auto simp: advances_def keysize_def)
  note second = ReadSecMSG_step[OF run(4) k3]
  have a: "advances client s1 s3" by (rule advances_trans[OF a2 a3])
  let ?v = "wire_stamp cr (wire_method client m (entry s1 i)) (encryption_key (entry s1 i)) m n"
  have same: "wire_stamp cr (wire_method client m (entry s3 i)) (encryption_key (entry s3 i)) m n = ?v"
    using a i(1) by (simp add: advances_def wire_method_def keysize_def)
  have "r = KS_VALID" using assms(4) a1(2) by (simp add: rs nth_append)
  then have "stamp_of (entry s2 i) = ?v" using first by (simp add: read_step_def)
  moreover have "stamp_of (entry s2 i) \<le> stamp_of (entry s3 i)"
    using a3 i(1) k1 k2(3) by (simp add: advances_def keysize_def)
  ultimately show ?thesis using second same by (auto simp: read_step_def rs)
qed

theorem no_replay_witness:
  "\<exists>n wire s' s rs t. CreateSecMSG crypto_demo True 0 42 [104, 105] 0 (demo_keys W_METH_AES) = Some (n, wire, s')
    \<and> OS_StartCounter 0 0 True (demo_keys W_METH_AES) = Some s
    \<and> read_run crypto_demo False [(0, drop 5 wire, 0, length (drop 5 wire) - 1), (0, drop 5 wire, 0, length (drop 5 wire) - 1)] s
        = Some (rs, t) \<and> hd rs = KS_VALID \<and> last rs \<noteq> KS_VALID"
proof -
  let ?d = "demo_keys W_METH_AES"
  obtain n wire s' where c: "CreateSecMSG crypto_demo True 0 42 [104, 105] 0 ?d = Some (n, wire, s')"
      "0 < n" "global_count s' = 0" "local_count s' = 8"
    using demo_create by blast
  obtain s where s: "OS_StartCounter 0 0 True ?d = Some s" "keyentries s \<noteq> []" "encryption_key (entry s 0) = [1, 2, 3]"
      "key_mode s = W_DUAL_KEY" "rcv_count s = 0" "s_recv_flush s = 128" "stamp_of (entry s 0) = 0"
    by (simp add: OS_StartCounter_def demo_keys_def start_entry_def Let_def SENDER_COUNTER_def keysize_def
      entry_def set_entry_def demo_entry_def stamp_of_def stamp_def)
  define b where "b = drop 5 wire"
  have b: "b = drop (length (sec_header True (entry ?d 0)) - length (crypto_token (crypto_method (entry ?d 0)))) wire"
    by (simp add: b_def sec_header_def demo_keys_def demo_entry_def entry_def crypto_token_def Let_def eval_nat_numeral)
  have "newer (global_count s') (local_count s') (entry s 0)" using s(7) c by (simp add: newer_stamp stamp_def)
  then obtain t1 where t1: "ReadSecMSG crypto_demo False 0 b 0 (length b - 1) s = Some (KS_VALID, [104, 105], t1)"
      "rcv_count t1 < s_recv_flush t1"
    using sec_msg_read_back[OF crypto_demo_ok c(1,2) b, of 0 s False 0] s
    by (auto simp: demo_keys_def demo_entry_def entry_def)
  obtain r out t where t: "ReadSecMSG crypto_demo False 0 b 0 (length b - 1) t1 = Some (r, out, t)"
    using ReadSecMSG_total[OF t1(2)] by fast
  have run: "read_run crypto_demo False ([] @ (0, b, 0, length b - 1) # [] @ [(0, b, 0, length b - 1)]) s
      = Some ([KS_VALID, r], t)"
    using t1(1) t by simp
  have "last [KS_VALID, r] \<noteq> KS_VALID"
    by (rule no_replay[OF s(1) _ run]) (simp_all add: demo_keys_def keysize_def)
  then show ?thesis using c(1) s(1) run unfolding b_def append_Nil by (metis list.sel(1))
qed

end
