(* ===== verification/Str_Map.thy ===== *)
theory Str_Map
  imports Prelude "HOL-Library.Monad_Syntax"
begin

text \<open>
  The interface of a map from strings: what a client relies on when it keeps its objects in a hash
  map or a tree. Every operation may fail to return (\<open>None\<close>); an implementation promises that none
  does and that they act on the map as lookup, update and removal. What a client sees of any sequence
  of calls then is what a mathematical map gives.
\<close>

type_synonym cstring = "byte list"

datatype 'v map_op = Map_get cstring | Map_put cstring 'v | Map_del cstring

text \<open>What a call returns: the value found, or whether the key was there before.\<close>

datatype 'v map_result = Found "'v option" | Was_there bool

fun map_spec :: "'v map_op \<Rightarrow> (cstring \<rightharpoonup> 'v) \<Rightarrow> 'v map_result \<times> (cstring \<rightharpoonup> 'v)" where
  "map_spec (Map_get k) m = (Found (m k), m)"
| "map_spec (Map_put k v) m = (Was_there (m k \<noteq> None), m(k \<mapsto> v))"
| "map_spec (Map_del k) m = (Was_there (m k \<noteq> None), m(k := None))"

fun map_spec_run :: "'v map_op list \<Rightarrow> (cstring \<rightharpoonup> 'v) \<Rightarrow> 'v map_result list \<times> (cstring \<rightharpoonup> 'v)" where
  "map_spec_run [] m = ([], m)"
| "map_spec_run (op # ops) m =
     (case map_spec op m of (r, m1) \<Rightarrow> case map_spec_run ops m1 of (rs, m2) \<Rightarrow> (r # rs, m2))"

text \<open>The same calls on an implementation.\<close>

fun map_step :: "('s \<Rightarrow> cstring \<Rightarrow> 'v option option) \<Rightarrow> ('s \<Rightarrow> cstring \<Rightarrow> 'v \<Rightarrow> (bool \<times> 's) option) \<Rightarrow>
    ('s \<Rightarrow> cstring \<Rightarrow> (bool \<times> 's) option) \<Rightarrow> 'v map_op \<Rightarrow> 's \<Rightarrow> ('v map_result \<times> 's) option" where
  "map_step get put del (Map_get k) s = do { r \<leftarrow> get s k; Some (Found r, s) }"
| "map_step get put del (Map_put k v) s = do { (b, s1) \<leftarrow> put s k v; Some (Was_there b, s1) }"
| "map_step get put del (Map_del k) s = do { (b, s1) \<leftarrow> del s k; Some (Was_there b, s1) }"

fun map_run :: "('s \<Rightarrow> cstring \<Rightarrow> 'v option option) \<Rightarrow> ('s \<Rightarrow> cstring \<Rightarrow> 'v \<Rightarrow> (bool \<times> 's) option) \<Rightarrow>
    ('s \<Rightarrow> cstring \<Rightarrow> (bool \<times> 's) option) \<Rightarrow> 'v map_op list \<Rightarrow> 's \<Rightarrow> ('v map_result list \<times> 's) option" where
  "map_run get put del [] s = Some ([], s)"
| "map_run get put del (op # ops) s =
     do {
       (r, s1) \<leftarrow> map_step get put del op s;
       (rs, s2) \<leftarrow> map_run get put del ops s1;
       Some (r # rs, s2)
     }"

locale str_map =
  fixes inv :: "'s \<Rightarrow> bool" and abs :: "'s \<Rightarrow> cstring \<rightharpoonup> 'v"
    and get :: "'s \<Rightarrow> cstring \<Rightarrow> 'v option option"
    and put :: "'s \<Rightarrow> cstring \<Rightarrow> 'v \<Rightarrow> (bool \<times> 's) option"
    and del :: "'s \<Rightarrow> cstring \<Rightarrow> (bool \<times> 's) option"
  assumes get_abs: "inv s \<Longrightarrow> get s k = Some (abs s k)"
    and put_abs: "inv s \<Longrightarrow> \<exists>s'. put s k v = Some (abs s k \<noteq> None, s') \<and> inv s' \<and> abs s' = (abs s)(k \<mapsto> v)"
    and del_abs: "inv s \<Longrightarrow> \<exists>s'. del s k = Some (abs s k \<noteq> None, s') \<and> inv s' \<and> abs s' = (abs s)(k := None)"
begin

lemma step_refines:
  assumes "inv s"
  shows "\<exists>s'. map_step get put del op s = Some (fst (map_spec op (abs s)), s') \<and> inv s'
    \<and> abs s' = snd (map_spec op (abs s))"
proof (cases op)
  case (Map_get k)
  then show ?thesis using assms get_abs by simp
next
  case (Map_put k v)
  then show ?thesis using put_abs[OF assms, of k v] by auto
next
  case (Map_del k)
  then show ?thesis using del_abs[OF assms, of k] by auto
qed

lemma run_refines:
  assumes "inv s"
  shows "\<exists>s'. map_run get put del ops s = Some (fst (map_spec_run ops (abs s)), s') \<and> inv s'
    \<and> abs s' = snd (map_spec_run ops (abs s))"
  using assms
proof (induction ops arbitrary: s)
  case (Cons op ops)
  obtain s1 where s1: "map_step get put del op s = Some (fst (map_spec op (abs s)), s1)" "inv s1"
      "abs s1 = snd (map_spec op (abs s))"
    using step_refines[OF Cons.prems] by blast
  with Cons.IH[OF s1(2)] show ?case by (auto split: prod.split)
qed simp

end

end
