(* ===== verification/Hash_Map.thy ===== *)
theory Hash_Map
  imports Str_Map
begin

text \<open>
  The hash map of \<^verbatim>\<open>src/src/shared/src/hashmap_op.c\<close>: open addressing with linear probing, deletion marks
  and growth at three quarters load. A C string is the list of its bytes before the terminator. The
  search loops of the code have no bound, so they are functions that may not return. Sizes are
  natural numbers: a table of 16-byte entries has fewer than \<open>2\<^sup>6\<^sup>0\<close> of them, and an allocation that
  fails ends the process.
\<close>

unbundle bit_operations_syntax

text \<open>\<open>key\<close> is \<^verbatim>\<open>NULL\<close> in an empty slot and \<open>-1\<close> in a deleted one.\<close>

datatype 'v hm_entry = Empty | Tomb | Occupied cstring 'v

fun is_occupied :: "'v hm_entry \<Rightarrow> bool" where
  "is_occupied (Occupied k v) = True"
| "is_occupied e = False"

fun is_tomb :: "'v hm_entry \<Rightarrow> bool" where
  "is_tomb Tomb = True"
| "is_tomb e = False"

record 'v hashmap =
  hm_entries :: "'v hm_entry list"
  hm_capacity :: nat
  hm_size :: nat
  hm_tombstones :: nat

definition fnv1a64 :: "cstring \<Rightarrow> uint64" where
  "fnv1a64 s = fold (\<lambda>c h. (h XOR ucast c) * 1099511628211) s 1469598103934665603"

definition HM_MIN_CAP :: uint64 where "HM_MIN_CAP = 16"

partial_function (option) next_pow2_loop :: "uint64 \<Rightarrow> uint64 \<Rightarrow> uint64 option" where
  "next_pow2_loop p x = (if p < x then next_pow2_loop (push_bit 1 p) x else Some p)"

definition next_pow2 :: "uint64 \<Rightarrow> uint64 option" where
  "next_pow2 x = next_pow2_loop HM_MIN_CAP x"

definition hm_index :: "nat \<Rightarrow> cstring \<Rightarrow> nat" where
  "hm_index m key = unat (fnv1a64 key AND of_nat m)"

text \<open>Reinsertion: the first empty slot.\<close>

partial_function (option) find_empty :: "'v hm_entry list \<Rightarrow> nat \<Rightarrow> nat \<Rightarrow> nat option" where
  "find_empty es m idx = (if es ! idx = Empty then Some idx else find_empty es m ((idx + 1) AND m))"

fun hm_reinsert :: "'v hm_entry list \<Rightarrow> nat \<Rightarrow> 'v hm_entry list \<times> nat \<Rightarrow> ('v hm_entry list \<times> nat) option" where
  "hm_reinsert [] m acc = Some acc"
| "hm_reinsert (Occupied k v # old) m (neu, n) =
     do { idx \<leftarrow> find_empty neu m (hm_index m k); hm_reinsert old m (neu[idx := Occupied k v], n + 1) }"
| "hm_reinsert (e # old) m acc = hm_reinsert old m acc"

definition hm_rehash :: "'v hashmap \<Rightarrow> nat \<Rightarrow> 'v hashmap option" where
  "hm_rehash hm new_cap =
     do {
       (neu, n) \<leftarrow> hm_reinsert (hm_entries hm) (new_cap - 1) (replicate new_cap Empty, 0);
       Some (hm\<lparr>hm_entries := neu, hm_capacity := new_cap, hm_size := n, hm_tombstones := 0\<rparr>)
     }"

definition hm_init :: "uint64 \<Rightarrow> 'v hashmap option" where
  "hm_init initial_capacity =
     do {
       cap \<leftarrow> next_pow2 (if initial_capacity \<noteq> 0 then initial_capacity else HM_MIN_CAP);
       Some \<lparr>hm_entries = replicate (unat cap) Empty, hm_capacity = unat cap, hm_size = 0, hm_tombstones = 0\<rparr>
     }"

definition hm_destroy :: "'v hashmap \<Rightarrow> 'v hashmap" where
  "hm_destroy hm = \<lparr>hm_entries = [], hm_capacity = 0, hm_size = 0, hm_tombstones = 0\<rparr>"

definition hm_maybe_grow :: "'v hashmap \<Rightarrow> 'v hashmap option" where
  "hm_maybe_grow hm =
     (if (hm_size hm + hm_tombstones hm) * 4 \<ge> hm_capacity hm * 3 then hm_rehash hm (push_bit 1 (hm_capacity hm))
      else Some hm)"

text \<open>The search of \<^verbatim>\<open>hm_get\<close> and of \<^verbatim>\<open>hm_del\<close>: the slot of the key, if there is one.\<close>

partial_function (option) hm_find :: "'v hm_entry list \<Rightarrow> nat \<Rightarrow> cstring \<Rightarrow> nat \<Rightarrow> nat option option" where
  "hm_find es m key idx =
     (case es ! idx of
        Empty \<Rightarrow> Some None
      | Tomb \<Rightarrow> hm_find es m key ((idx + 1) AND m)
      | Occupied k v \<Rightarrow> if k = key then Some (Some idx) else hm_find es m key ((idx + 1) AND m))"

definition hm_get :: "'v hashmap \<Rightarrow> cstring \<Rightarrow> 'v option option" where
  "hm_get hm key =
     (if hm_capacity hm = 0 then Some None
      else do {
        r \<leftarrow> hm_find (hm_entries hm) (hm_capacity hm - 1) key (hm_index (hm_capacity hm - 1) key);
        Some (case r of
          None \<Rightarrow> None
        | Some idx \<Rightarrow> (case hm_entries hm ! idx of Occupied k v \<Rightarrow> Some v | _ \<Rightarrow> None))
      })"

text \<open>The search of \<^verbatim>\<open>hm_put\<close>: the slot of the key, or the slot to use and whether it is a deleted one.\<close>

partial_function (option) hm_probe ::
    "'v hm_entry list \<Rightarrow> nat \<Rightarrow> cstring \<Rightarrow> nat \<Rightarrow> nat option \<Rightarrow> (nat + nat \<times> bool) option" where
  "hm_probe es m key idx first_tomb =
     (case es ! idx of
        Empty \<Rightarrow> Some (Inr (case first_tomb of None \<Rightarrow> (idx, False) | Some t \<Rightarrow> (t, True)))
      | Tomb \<Rightarrow> hm_probe es m key ((idx + 1) AND m) (if first_tomb = None then Some idx else first_tomb)
      | Occupied k v \<Rightarrow> if k = key then Some (Inl idx) else hm_probe es m key ((idx + 1) AND m) first_tomb)"

text \<open>Whether the key was there already, and the map.\<close>

definition hm_put :: "'v hashmap \<Rightarrow> cstring \<Rightarrow> 'v \<Rightarrow> (bool \<times> 'v hashmap) option" where
  "hm_put hm0 key value =
     do {
       hm \<leftarrow> hm_maybe_grow hm0;
       r \<leftarrow> hm_probe (hm_entries hm) (hm_capacity hm - 1) key (hm_index (hm_capacity hm - 1) key) None;
       Some (case r of
         Inl idx \<Rightarrow> (True, hm\<lparr>hm_entries := (hm_entries hm)[idx := Occupied key value]\<rparr>)
       | Inr (target, reused) \<Rightarrow>
           (False, hm\<lparr>hm_entries := (hm_entries hm)[target := Occupied key value],
              hm_tombstones := (if reused \<and> hm_tombstones hm > 0 then hm_tombstones hm - 1 else hm_tombstones hm),
              hm_size := hm_size hm + 1\<rparr>))
     }"

definition hm_del :: "'v hashmap \<Rightarrow> cstring \<Rightarrow> (bool \<times> 'v hashmap) option" where
  "hm_del hm key =
     (if hm_size hm = 0 then Some (False, hm)
      else do {
        r \<leftarrow> hm_find (hm_entries hm) (hm_capacity hm - 1) key (hm_index (hm_capacity hm - 1) key);
        Some (case r of
          None \<Rightarrow> (False, hm)
        | Some idx \<Rightarrow>
            (True, hm\<lparr>hm_entries := (hm_entries hm)[idx := Tomb], hm_size := hm_size hm - 1,
               hm_tombstones := hm_tombstones hm + 1\<rparr>))
      })"

text \<open>The next entry of an iterator at index \<open>idx\<close>, and its index after it.\<close>

function hm_iter_next :: "'v hashmap \<Rightarrow> nat \<Rightarrow> (cstring \<times> 'v) option \<times> nat" where
  "hm_iter_next hm idx =
     (if idx < hm_capacity hm
      then (case hm_entries hm ! idx of
          Occupied k v \<Rightarrow> (Some (k, v), idx + 1)
        | _ \<Rightarrow> hm_iter_next hm (idx + 1))
      else (None, idx))"
  by pat_completeness auto
termination by (relation "measure (\<lambda>(hm, idx). hm_capacity hm - idx)") auto

declare hm_iter_next.simps [simp del]

declare next_pow2_loop.simps [code] find_empty.simps [code] hm_find.simps [code] hm_probe.simps [code]

subsection \<open>Capacities\<close>

lemma push_bit_pow2: "k < 63 \<Longrightarrow> push_bit 1 (2 ^ k :: uint64) = 2 ^ Suc k"
  by (simp add: push_bit_eq_mult)

lemma unat_pow2: "k \<le> 63 \<Longrightarrow> unat (2 ^ k :: uint64) = 2 ^ k"
proof -
  assume "k \<le> 63"
  then have "(2 :: nat) ^ k < 2 ^ 64" by (intro power_strict_increasing) simp_all
  then have "unat (of_nat (2 ^ k) :: uint64) = 2 ^ k" by (simp only: unat_of_nat take_bit_eq_mod) simp
  then show ?thesis by simp
qed

lemma pow2_le_iff: "j \<le> 63 \<Longrightarrow> k \<le> 63 \<Longrightarrow> (2 ^ j :: uint64) \<le> 2 ^ k \<longleftrightarrow> j \<le> k"
proof -
  assume "j \<le> 63" "k \<le> 63"
  then show ?thesis by (simp add: word_le_nat_alt unat_pow2)
qed

lemma next_pow2_loop_returns:
  assumes "x \<le> 2 ^ 63" "k \<le> 63"
  shows "\<exists>j. k \<le> j \<and> j \<le> 63 \<and> next_pow2_loop (2 ^ k) x = Some (2 ^ j) \<and> x \<le> 2 ^ j \<and> (k < j \<longrightarrow> 2 ^ (j - 1) < x)"
  using assms(2)
proof (induction "63 - k" arbitrary: k)
  case 0
  then have "k = 63" by simp
  then show ?case using assms(1) by (subst next_pow2_loop.simps) (auto simp: not_less)
next
  case (Suc n)
  show ?case
  proof (cases "2 ^ k < x")
    case True
    have "n = 63 - Suc k" "Suc k \<le> 63" using Suc.hyps(2) by simp_all
    from Suc.hyps(1)[OF this] obtain j where
      j: "Suc k \<le> j" "j \<le> 63" "next_pow2_loop (2 ^ Suc k) x = Some (2 ^ j)" "x \<le> 2 ^ j" "Suc k < j \<longrightarrow> 2 ^ (j - 1) < x"
      by auto
    have "next_pow2_loop (2 ^ k) x = Some (2 ^ j)"
      using True j(3) push_bit_pow2[of k] Suc.hyps(2) by (subst next_pow2_loop.simps) (simp add: mult.commute)
    moreover have "2 ^ (j - 1) < x" using True j(1,5) by (cases "j = Suc k") auto
    ultimately show ?thesis using j by (intro exI[of _ j]) simp
  next
    case False
    then have "next_pow2_loop (2 ^ k) x = Some (2 ^ k)" by (subst next_pow2_loop.simps) simp
    with False Suc.hyps(2) show ?thesis by (intro exI[of _ k]) (simp add: not_less)
  qed
qed

lemma next_pow2_loop_diverges:
  assumes "2 ^ 63 < x" "p = 0 \<or> (\<exists>k \<le> 63. p = 2 ^ k)"
  shows "next_pow2_loop p x = None"
proof -
  define P where "P = (\<lambda>p x :: uint64. 2 ^ 63 < x \<and> (p = 0 \<or> (\<exists>k \<le> 63. p = (2 :: uint64) ^ k)))"
  have step: "P p x \<Longrightarrow> p < x \<and> P (push_bit 1 p) x" for p x
  proof
    assume a: "P p x"
    then have "p \<le> 2 ^ 63" using pow2_le_iff[of _ 63] by (auto simp: P_def)
    also have "2 ^ 63 < x" using a by (simp add: P_def)
    finally show "p < x" .
    show "P (push_bit 1 p) x"
    proof (cases "p = 0 \<or> p = 2 ^ 63")
      case True
      then show ?thesis using a by (auto simp: P_def)
    next
      case False
      with a obtain k where "k < 63" "p = 2 ^ k" by (auto simp: P_def le_less)
      then show ?thesis using push_bit_pow2[of k] a by (auto simp: P_def intro: exI[of _ "Suc k"])
    qed
  qed
  have "\<not> P p x" if ret: "next_pow2_loop p x = Some r" for r
  proof -
    have "(case (p, x) of (p, x) \<Rightarrow> \<lambda>r. \<not> P p x) r"
    proof (rule next_pow2_loop.raw_induct[where P = "\<lambda>p x r. \<not> P p x"])
      show "\<not> P p x" if "\<And>x b y. f x b = Some y \<Longrightarrow> \<not> P x b"
        "(if p < x then f (push_bit 1 p) x else Some p) = Some r" for f p x and r :: uint64
        using that step by metis
    qed (use ret in simp)
    then show ?thesis by simp
  qed
  with assms show ?thesis by (cases "next_pow2_loop p x") (auto simp: P_def)
qed

subsection \<open>Probe paths\<close>

text \<open>The slot \<open>d\<close> steps after slot \<open>i\<close> in a table of \<open>n\<close> slots.\<close>

abbreviation hm_slot :: "nat \<Rightarrow> nat \<Rightarrow> nat \<Rightarrow> nat" where
  "hm_slot n i d \<equiv> (i + d) mod n"

lemma mask_step: "(i + 1) AND (2 ^ k - 1 :: nat) = (i + 1) mod 2 ^ k"
  by (metis take_bit_eq_mask take_bit_eq_mod mask_eq_exp_minus_1)

lemma hm_index_less: "hm_index (2 ^ k - 1) key < 2 ^ k"
proof -
  have "of_nat (2 ^ k - 1) = (mask k :: uint64)" by (simp add: mask_eq_exp_minus_1 of_nat_diff)
  then have "hm_index (2 ^ k - 1) key = take_bit k (unat (fnv1a64 key))"
    by (simp add: hm_index_def flip: take_bit_eq_mask unsigned_take_bit_eq)
  then show ?thesis by simp
qed

lemma slot_step: "i < 2 ^ k \<Longrightarrow> hm_slot (2 ^ k) ((i + 1) AND (2 ^ k - 1)) d = hm_slot (2 ^ k) i (Suc d)"
  unfolding mask_step by (simp add: mod_add_left_eq)

text \<open>A path of \<open>d\<close> slots from \<open>i\<close> on with no empty one and none of the key.\<close>

definition no_stop :: "'v hm_entry list \<Rightarrow> cstring \<Rightarrow> nat \<Rightarrow> nat \<Rightarrow> bool" where
  "no_stop es key i d \<longleftrightarrow>
     (\<forall>j < d. es ! hm_slot (length es) i j \<noteq> Empty \<and> (\<forall>v. es ! hm_slot (length es) i j \<noteq> Occupied key v))"

lemma no_stop_Suc:
  assumes "length es = 2 ^ k" "i < 2 ^ k"
  shows "no_stop es key i (Suc d) \<longleftrightarrow>
    es ! i \<noteq> Empty \<and> (\<forall>v. es ! i \<noteq> Occupied key v) \<and> no_stop es key ((i + 1) AND (2 ^ k - 1)) d"
  unfolding no_stop_def assms(1)
proof -
  have z: "hm_slot (2 ^ k) i 0 = i" using assms(2) by simp
  have "(\<forall>j < Suc d. P (hm_slot (2 ^ k) i j)) \<longleftrightarrow> P i \<and> (\<forall>j < d. P (hm_slot (2 ^ k) i (Suc j)))" for P
    using z by (metis Suc_less_eq less_Suc_eq_0_disj)
  from this[of "\<lambda>p. es ! p \<noteq> Empty \<and> (\<forall>v. es ! p \<noteq> Occupied key v)"]
  show "(\<forall>j < Suc d. es ! hm_slot (2 ^ k) i j \<noteq> Empty \<and> (\<forall>v. es ! hm_slot (2 ^ k) i j \<noteq> Occupied key v)) \<longleftrightarrow>
      es ! i \<noteq> Empty \<and> (\<forall>v. es ! i \<noteq> Occupied key v) \<and>
      (\<forall>j < d. es ! hm_slot (2 ^ k) ((i + 1) AND (2 ^ k - 1)) j \<noteq> Empty \<and>
        (\<forall>v. es ! hm_slot (2 ^ k) ((i + 1) AND (2 ^ k - 1)) j \<noteq> Occupied key v))"
    unfolding slot_step[OF assms(2)] by (simp only: conj_assoc)
qed

lemma mask_less: "(i AND (2 ^ k - 1 :: nat)) < 2 ^ k"
  by (metis mask_eq_exp_minus_1 take_bit_eq_mask take_bit_nat_less_exp)

lemma hm_find_path:
  assumes "length es = 2 ^ k" "i < 2 ^ k" "no_stop es key i d"
  shows "hm_find es (2 ^ k - 1) key i = hm_find es (2 ^ k - 1) key (hm_slot (2 ^ k) i d)"
  using assms(2,3)
proof (induction d arbitrary: i)
  case 0
  then show ?case by simp
next
  case (Suc d)
  let ?i = "(i + 1) AND (2 ^ k - 1)"
  from Suc.prems(2)[unfolded no_stop_Suc[OF assms(1) Suc.prems(1)]]
  have s: "es ! i \<noteq> Empty" "\<forall>v. es ! i \<noteq> Occupied key v" "no_stop es key ?i d" by simp_all
  have "hm_find es (2 ^ k - 1) key i = hm_find es (2 ^ k - 1) key ?i"
    using s by (subst hm_find.simps) (auto split: hm_entry.split)
  also have "\<dots> = hm_find es (2 ^ k - 1) key (hm_slot (2 ^ k) ?i d)" by (rule Suc.IH[OF mask_less s(3)])
  finally show ?case unfolding slot_step[OF Suc.prems(1)] .
qed

lemma hm_probe_path:
  assumes "length es = 2 ^ k" "i < 2 ^ k" "no_stop es key i d"
  shows "\<exists>t'. hm_probe es (2 ^ k - 1) key i t = hm_probe es (2 ^ k - 1) key (hm_slot (2 ^ k) i d) t'
    \<and> (t' = t \<or> t = None \<and> (\<exists>j < d. t' = Some (hm_slot (2 ^ k) i j) \<and> es ! hm_slot (2 ^ k) i j = Tomb))"
  using assms(2,3)
proof (induction d arbitrary: i t)
  case 0
  then show ?case by auto
next
  case (Suc d)
  let ?i = "(i + 1) AND (2 ^ k - 1)" and ?t = "if es ! i = Tomb \<and> t = None then Some i else t"
  from Suc.prems(2)[unfolded no_stop_Suc[OF assms(1) Suc.prems(1)]]
  have s: "es ! i \<noteq> Empty" "\<forall>v. es ! i \<noteq> Occupied key v" "no_stop es key ?i d" by simp_all
  have e: "hm_probe es (2 ^ k - 1) key i t = hm_probe es (2 ^ k - 1) key ?i ?t"
    using s by (subst hm_probe.simps) (auto split: hm_entry.split)
  obtain t' where t': "hm_probe es (2 ^ k - 1) key ?i ?t = hm_probe es (2 ^ k - 1) key (hm_slot (2 ^ k) ?i d) t'"
      "t' = ?t \<or> ?t = None \<and> (\<exists>j < d. t' = Some (hm_slot (2 ^ k) ?i j) \<and> es ! hm_slot (2 ^ k) ?i j = Tomb)"
    using Suc.IH[OF mask_less s(3)] by blast
  have z: "hm_slot (2 ^ k) i 0 = i" using Suc.prems(1) by simp
  have "t' = t \<or> t = None \<and> (\<exists>j < Suc d. t' = Some (hm_slot (2 ^ k) i j) \<and> es ! hm_slot (2 ^ k) i j = Tomb)"
    using t'(2) z unfolding slot_step[OF Suc.prems(1)] by (auto split: if_splits)
  with e t'(1) show ?case unfolding slot_step[OF Suc.prems(1)] by metis
qed

subsection \<open>Tables\<close>

text \<open>
  A table in which every key is reached from the slot of its hash before any empty slot, and is
  there once.
\<close>

definition tbl_ok :: "nat \<Rightarrow> 'v hm_entry list \<Rightarrow> bool" where
  "tbl_ok k es \<longleftrightarrow> length es = 2 ^ k
     \<and> (\<forall>p < 2 ^ k. \<forall>key v. es ! p = Occupied key v \<longrightarrow>
          (\<exists>d < 2 ^ k. p = hm_slot (2 ^ k) (hm_index (2 ^ k - 1) key) d
             \<and> (\<forall>j < d. es ! hm_slot (2 ^ k) (hm_index (2 ^ k - 1) key) j \<noteq> Empty)))
     \<and> (\<forall>p < 2 ^ k. \<forall>q < 2 ^ k. \<forall>key v w. es ! p = Occupied key v \<longrightarrow> es ! q = Occupied key w \<longrightarrow> p = q)"

lemma tbl_len: "tbl_ok k es \<Longrightarrow> length es = 2 ^ k"
  by (simp add: tbl_ok_def)

lemma tbl_reach: "tbl_ok k es \<Longrightarrow> p < 2 ^ k \<Longrightarrow> es ! p = Occupied key v \<Longrightarrow>
    \<exists>d < 2 ^ k. p = hm_slot (2 ^ k) (hm_index (2 ^ k - 1) key) d
      \<and> (\<forall>j < d. es ! hm_slot (2 ^ k) (hm_index (2 ^ k - 1) key) j \<noteq> Empty)"
  unfolding tbl_ok_def by blast

lemma tbl_uniq: "tbl_ok k es \<Longrightarrow> p < 2 ^ k \<Longrightarrow> q < 2 ^ k \<Longrightarrow> es ! p = Occupied key v \<Longrightarrow> es ! q = Occupied key w \<Longrightarrow> p = q"
  unfolding tbl_ok_def by blast

text \<open>The map a table stands for.\<close>

fun tbl_pairs :: "'v hm_entry list \<Rightarrow> (cstring \<times> 'v) list" where
  "tbl_pairs [] = []"
| "tbl_pairs (Occupied k v # es) = (k, v) # tbl_pairs es"
| "tbl_pairs (e # es) = tbl_pairs es"

definition tbl_map :: "'v hm_entry list \<Rightarrow> cstring \<rightharpoonup> 'v" where
  "tbl_map es = map_of (tbl_pairs es)"

lemma set_tbl_pairs: "(key, v) \<in> set (tbl_pairs es) \<longleftrightarrow> Occupied key v \<in> set es"
  by (induction es rule: tbl_pairs.induct) auto

lemma tbl_map_None: "tbl_map es key = None \<longleftrightarrow> (\<forall>v. Occupied key v \<notin> set es)"
  by (force simp: tbl_map_def map_of_eq_None_iff simp flip: set_tbl_pairs)

lemma tbl_map_Some:
  assumes "tbl_ok k es"
  shows "tbl_map es key = Some v \<longleftrightarrow> (\<exists>p < 2 ^ k. es ! p = Occupied key v)"
proof -
  have len: "length es = 2 ^ k" using assms by (simp add: tbl_ok_def)
  have mem: "Occupied key v \<in> set es \<longleftrightarrow> (\<exists>p < 2 ^ k. es ! p = Occupied key v)" for v
    by (auto simp: in_set_conv_nth len)
  have found: "tbl_map es key = Some v \<Longrightarrow> \<exists>p < 2 ^ k. es ! p = Occupied key v" for v
    unfolding mem[symmetric] set_tbl_pairs[symmetric] tbl_map_def by (rule map_of_SomeD)
  show ?thesis
  proof
    assume "tbl_map es key = Some v"
    then show "\<exists>p < 2 ^ k. es ! p = Occupied key v" by (rule found)
  next
    assume r: "\<exists>p < 2 ^ k. es ! p = Occupied key v"
    then have "tbl_map es key \<noteq> None" unfolding tbl_map_None using mem by blast
    then obtain w where w: "tbl_map es key = Some w" by blast
    then have "\<exists>q < 2 ^ k. es ! q = Occupied key w" by (rule found)
    with r assms have "v = w" by (auto simp: tbl_ok_def)
    with w show "tbl_map es key = Some v" by simp
  qed
qed

lemma tbl_map_eqI:
  assumes "tbl_ok k es" "tbl_ok k' es'"
    "\<And>key v. (\<exists>p < 2 ^ k'. es' ! p = Occupied key v) \<longleftrightarrow> m key = Some v"
  shows "tbl_map es' = m"
proof
  fix key
  show "tbl_map es' key = m key"
    using tbl_map_Some[OF assms(2), of key] assms(3)[of key] by (cases "m key"; cases "tbl_map es' key") auto
qed

text \<open>From any slot there is a first empty one.\<close>

lemma first_empty:
  assumes "length es = n" "e < n" "es ! e = Empty" "i < n"
  shows "\<exists>d < n. es ! hm_slot n i d = Empty \<and> (\<forall>j < d. es ! hm_slot n i j \<noteq> Empty)"
proof -
  let ?P = "\<lambda>d. es ! hm_slot n i d = Empty"
  have "hm_slot n i ((e + n - i) mod n) = e" using assms(2,4) by (simp add: mod_add_right_eq)
  then have p: "?P ((e + n - i) mod n)" using assms(3) by simp
  then have "?P (LEAST d. ?P d)" by (rule LeastI)
  moreover have "(LEAST d. ?P d) \<le> (e + n - i) mod n" using p by (rule Least_le)
  moreover have "(e + n - i) mod n < n" using assms(2) by simp
  moreover have "\<forall>j < (LEAST d. ?P d). \<not> ?P j" using not_less_Least by blast
  ultimately show ?thesis by (meson le_less_trans)
qed

lemma slot_inj:
  assumes "hm_slot n i a = hm_slot n i b" "a < n" "b < n"
  shows "a = b"
proof -
  have "a = b" if "a \<le> b" "hm_slot n i a = hm_slot n i b" "b < n" for a b
  proof -
    from that have "n dvd (i + b) - (i + a)" by (metis mod_eq_dvd_iff_nat add_le_cancel_left)
    with that show ?thesis by (metis add_diff_cancel_left diff_less_mono2 dvd_imp_le le_antisym less_imp_diff_less
          not_less zero_less_diff)
  qed
  then show ?thesis using assms by (metis nat_le_linear)
qed

lemma tbl_no_stop:
  assumes "tbl_ok k es" "p < 2 ^ k" "es ! p = Occupied key v"
  obtains d where "no_stop es key (hm_index (2 ^ k - 1) key) d" "p = hm_slot (2 ^ k) (hm_index (2 ^ k - 1) key) d"
proof -
  let ?h = "hm_index (2 ^ k - 1) key"
  obtain d where d: "d < 2 ^ k" "p = hm_slot (2 ^ k) ?h d" "\<forall>j < d. es ! hm_slot (2 ^ k) ?h j \<noteq> Empty"
    using tbl_reach[OF assms] by blast
  have "es ! hm_slot (2 ^ k) ?h j \<noteq> Occupied key w" if "j < d" for j w
  proof
    assume "es ! hm_slot (2 ^ k) ?h j = Occupied key w"
    then have "hm_slot (2 ^ k) ?h j = p" by (intro tbl_uniq[OF assms(1) _ assms(2) _ assms(3)]) simp_all
    then have "hm_slot (2 ^ k) ?h j = hm_slot (2 ^ k) ?h d" by (simp only: d(2))
    from slot_inj[OF this] that d(1) show False by simp
  qed
  with d(3) have "no_stop es key ?h d" by (simp add: no_stop_def tbl_len[OF assms(1)])
  then show thesis using d(2) by (rule that)
qed

lemma tbl_absent_stop:
  assumes "tbl_ok k es" "tbl_map es key = None" "e < 2 ^ k" "es ! e = Empty"
  obtains d where "d < 2 ^ k" "no_stop es key (hm_index (2 ^ k - 1) key) d"
    "es ! hm_slot (2 ^ k) (hm_index (2 ^ k - 1) key) d = Empty"
proof -
  have len: "length es = 2 ^ k" by (rule tbl_len[OF assms(1)])
  obtain d where d: "d < 2 ^ k" "es ! hm_slot (2 ^ k) (hm_index (2 ^ k - 1) key) d = Empty"
      "\<forall>j < d. es ! hm_slot (2 ^ k) (hm_index (2 ^ k - 1) key) j \<noteq> Empty"
    using first_empty[OF len assms(3,4) hm_index_less[of k key]] by blast
  have "es ! hm_slot (2 ^ k) i j \<noteq> Occupied key v" for i j v
    using assms(2) len nth_mem[of "hm_slot (2 ^ k) i j" es] by (metis mod_less_divisor tbl_map_None zero_less_numeral zero_less_power)
  with d that show thesis by (auto simp: no_stop_def len)
qed

lemma hm_find_stop:
  "es ! p = Empty \<Longrightarrow> hm_find es m key p = Some None"
  "es ! p = Occupied key v \<Longrightarrow> hm_find es m key p = Some (Some p)"
  by (subst hm_find.simps; simp)+

lemma hm_probe_stop:
  "es ! p = Empty \<Longrightarrow> hm_probe es m key p None = Some (Inr (p, False))"
  "es ! p = Empty \<Longrightarrow> hm_probe es m key p (Some t) = Some (Inr (t, True))"
  "es ! p = Occupied key v \<Longrightarrow> hm_probe es m key p t' = Some (Inl p)"
  by (subst hm_probe.simps; simp)+

lemma hm_find_absent:
  assumes "tbl_ok k es" "tbl_map es key = None" "e < 2 ^ k" "es ! e = Empty"
  shows "hm_find es (2 ^ k - 1) key (hm_index (2 ^ k - 1) key) = Some None"
proof -
  obtain d where d: "no_stop es key (hm_index (2 ^ k - 1) key) d" "es ! hm_slot (2 ^ k) (hm_index (2 ^ k - 1) key) d = Empty"
    using tbl_absent_stop[OF assms] by blast
  have "length es = 2 ^ k" using assms(1) by (simp add: tbl_ok_def)
  from hm_find_path[OF this hm_index_less d(1)] hm_find_stop(1)[OF d(2)] show ?thesis by metis
qed

lemma hm_find_present:
  assumes "tbl_ok k es" "p < 2 ^ k" "es ! p = Occupied key v"
  shows "hm_find es (2 ^ k - 1) key (hm_index (2 ^ k - 1) key) = Some (Some p)"
proof -
  obtain d where d: "no_stop es key (hm_index (2 ^ k - 1) key) d" "p = hm_slot (2 ^ k) (hm_index (2 ^ k - 1) key) d"
    using tbl_no_stop[OF assms] by blast
  have "length es = 2 ^ k" using assms(1) by (simp add: tbl_ok_def)
  from hm_find_path[OF this hm_index_less d(1)] hm_find_stop(2)[OF assms(3)] d(2) show ?thesis by metis
qed

lemma hm_probe_present:
  assumes "tbl_ok k es" "p < 2 ^ k" "es ! p = Occupied key v"
  shows "hm_probe es (2 ^ k - 1) key (hm_index (2 ^ k - 1) key) None = Some (Inl p)"
proof -
  obtain d where d: "no_stop es key (hm_index (2 ^ k - 1) key) d" "p = hm_slot (2 ^ k) (hm_index (2 ^ k - 1) key) d"
    using tbl_no_stop[OF assms] by blast
  have "length es = 2 ^ k" using assms(1) by (simp add: tbl_ok_def)
  from hm_probe_path[OF this hm_index_less d(1), of None] hm_probe_stop(3)[OF assms(3)] d(2) show ?thesis by metis
qed

lemma hm_probe_absent:
  assumes "tbl_ok k es" "tbl_map es key = None" "e < 2 ^ k" "es ! e = Empty"
  shows "\<exists>d < 2 ^ k. \<exists>r. hm_probe es (2 ^ k - 1) key (hm_index (2 ^ k - 1) key) None
        = Some (Inr (hm_slot (2 ^ k) (hm_index (2 ^ k - 1) key) d, r))
    \<and> es ! hm_slot (2 ^ k) (hm_index (2 ^ k - 1) key) d = (if r then Tomb else Empty)
    \<and> (\<forall>j < d. es ! hm_slot (2 ^ k) (hm_index (2 ^ k - 1) key) j \<noteq> Empty)"
proof -
  let ?h = "hm_index (2 ^ k - 1) key"
  obtain d where d: "d < 2 ^ k" "no_stop es key ?h d" "es ! hm_slot (2 ^ k) ?h d = Empty"
    using tbl_absent_stop[OF assms] by blast
  have len: "length es = 2 ^ k" by (rule tbl_len[OF assms(1)])
  obtain t' where t': "hm_probe es (2 ^ k - 1) key ?h None = hm_probe es (2 ^ k - 1) key (hm_slot (2 ^ k) ?h d) t'"
      "t' = None \<or> (\<exists>j < d. t' = Some (hm_slot (2 ^ k) ?h j) \<and> es ! hm_slot (2 ^ k) ?h j = Tomb)"
    using hm_probe_path[OF len hm_index_less d(2), of None] by blast
  have ne: "\<forall>j < d. es ! hm_slot (2 ^ k) ?h j \<noteq> Empty" using d(2) by (simp add: no_stop_def len)
  from t'(2) show ?thesis
  proof
    assume "t' = None"
    then have "hm_probe es (2 ^ k - 1) key ?h None = Some (Inr (hm_slot (2 ^ k) ?h d, False))"
      unfolding t'(1) by (simp only: hm_probe_stop(1)[OF d(3)])
    then show ?thesis using d(1,3) ne by (intro exI[of _ d] conjI exI[of _ False]) simp_all
  next
    assume "\<exists>j < d. t' = Some (hm_slot (2 ^ k) ?h j) \<and> es ! hm_slot (2 ^ k) ?h j = Tomb"
    then obtain j where j: "j < d" "t' = Some (hm_slot (2 ^ k) ?h j)" "es ! hm_slot (2 ^ k) ?h j = Tomb" by blast
    then have "hm_probe es (2 ^ k - 1) key ?h None = Some (Inr (hm_slot (2 ^ k) ?h j, True))"
      unfolding t'(1) by (simp only: hm_probe_stop(2)[OF d(3)])
    then show ?thesis using d(1) j ne by (intro exI[of _ j] conjI exI[of _ True]) simp_all
  qed
qed

subsection \<open>Changes of a table\<close>

text \<open>A slot that is filled stays no empty slot, so the paths over it stay.\<close>

lemma tbl_fill:
  assumes "tbl_ok k es" "t < 2 ^ k" "e \<noteq> Empty"
    and "\<And>key v. e = Occupied key v \<Longrightarrow>
      (\<forall>p < 2 ^ k. \<forall>w. es ! p = Occupied key w \<longrightarrow> p = t)
      \<and> (\<exists>d < 2 ^ k. t = hm_slot (2 ^ k) (hm_index (2 ^ k - 1) key) d
           \<and> (\<forall>j < d. es ! hm_slot (2 ^ k) (hm_index (2 ^ k - 1) key) j \<noteq> Empty))"
  shows "tbl_ok k (es[t := e])"
proof -
  have len: "length es = 2 ^ k" by (rule tbl_len[OF assms(1)])
  have nth: "es[t := e] ! p = (if p = t then e else es ! p)" if "p < 2 ^ k" for p
    using that len by (simp add: nth_list_update)
  have keep: "(\<forall>j < d. es ! hm_slot (2 ^ k) h j \<noteq> Empty) \<Longrightarrow> (\<forall>j < d. es[t := e] ! hm_slot (2 ^ k) h j \<noteq> Empty)" for h d
    using assms(3) nth by simp
  show ?thesis
    unfolding tbl_ok_def
  proof (intro conjI allI impI)
    fix p key v assume p: "p < 2 ^ k" "es[t := e] ! p = Occupied key v"
    have "\<exists>d < 2 ^ k. p = hm_slot (2 ^ k) (hm_index (2 ^ k - 1) key) d
        \<and> (\<forall>j < d. es ! hm_slot (2 ^ k) (hm_index (2 ^ k - 1) key) j \<noteq> Empty)"
    proof (cases "p = t")
      case True
      then show ?thesis using assms(4)[of key v] nth[OF p(1)] p(2) by metis
    next
      case False
      then show ?thesis using tbl_reach[OF assms(1) p(1)] nth[OF p(1)] p(2) by metis
    qed
    then show "\<exists>d < 2 ^ k. p = hm_slot (2 ^ k) (hm_index (2 ^ k - 1) key) d
        \<and> (\<forall>j < d. es[t := e] ! hm_slot (2 ^ k) (hm_index (2 ^ k - 1) key) j \<noteq> Empty)"
      using keep by blast
  next
    fix p q key v w
    assume a: "p < 2 ^ k" "q < 2 ^ k" "es[t := e] ! p = Occupied key v" "es[t := e] ! q = Occupied key w"
    have one: "r = t" if "r < 2 ^ k" "es ! r = Occupied key u" "e = Occupied key u'" for r u u'
      using assms(4)[OF that(3)] that(1,2) by blast
    show "p = q" using a nth[OF a(1)] nth[OF a(2)] one tbl_uniq[OF assms(1) a(1,2)] by metis
  qed (simp add: len)
qed

lemma tbl_upd_Some:
  assumes "tbl_ok k es" "tbl_ok k (es[t := e])" "t < 2 ^ k"
  shows "tbl_map (es[t := e]) key = Some u \<longleftrightarrow> e = Occupied key u \<or> (\<exists>p < 2 ^ k. p \<noteq> t \<and> es ! p = Occupied key u)"
  unfolding tbl_map_Some[OF assms(2)] using assms(3) tbl_len[OF assms(1)]
  by (metis nth_list_update_eq nth_list_update_neq)

lemma map_eqI: "(\<And>k v. m k = Some v \<longleftrightarrow> m' k = Some v) \<Longrightarrow> m = m'"
  by (rule ext) (metis not_Some_eq)

lemma tbl_insert:
  assumes "tbl_ok k es" "tbl_map es key = None" "d < 2 ^ k" "t = hm_slot (2 ^ k) (hm_index (2 ^ k - 1) key) d"
    "\<forall>j < d. es ! hm_slot (2 ^ k) (hm_index (2 ^ k - 1) key) j \<noteq> Empty" "\<not> is_occupied (es ! t)"
  shows "tbl_ok k (es[t := Occupied key v])" "tbl_map (es[t := Occupied key v]) = (tbl_map es)(key \<mapsto> v)"
proof -
  have len: "length es = 2 ^ k" by (rule tbl_len[OF assms(1)])
  have t: "t < 2 ^ k" using assms(4) by simp
  have none: "es ! p \<noteq> Occupied key w" if "p < 2 ^ k" for p w
    using assms(2) that nth_mem[of p es] unfolding tbl_map_None len by metis
  have free: "es ! t \<noteq> Occupied key' w" for key' w using assms(6) by auto
  show ok: "tbl_ok k (es[t := Occupied key v])"
    by (rule tbl_fill[OF assms(1) t]) (use none assms(3-5) in auto)
  show "tbl_map (es[t := Occupied key v]) = (tbl_map es)(key \<mapsto> v)"
  proof (rule map_eqI)
    fix key' w
    show "tbl_map (es[t := Occupied key v]) key' = Some w \<longleftrightarrow> ((tbl_map es)(key \<mapsto> v)) key' = Some w"
      unfolding tbl_upd_Some[OF assms(1) ok t] using none free tbl_map_Some[OF assms(1), of key' w]
      by (cases "key' = key") (simp, metis hm_entry.inject)+
  qed
qed

lemma tbl_update:
  assumes "tbl_ok k es" "t < 2 ^ k" "es ! t = Occupied key w"
  shows "tbl_ok k (es[t := Occupied key v])" "tbl_map (es[t := Occupied key v]) = (tbl_map es)(key \<mapsto> v)"
proof -
  have uniq: "p = t" if "p < 2 ^ k" "es ! p = Occupied key u" for p u
    by (rule tbl_uniq[OF assms(1) that(1) assms(2) that(2) assms(3)])
  show ok: "tbl_ok k (es[t := Occupied key v])"
    by (rule tbl_fill[OF assms(1,2)]) (use uniq tbl_reach[OF assms] in auto)
  show "tbl_map (es[t := Occupied key v]) = (tbl_map es)(key \<mapsto> v)"
  proof (rule map_eqI)
    fix key' u
    show "tbl_map (es[t := Occupied key v]) key' = Some u \<longleftrightarrow> ((tbl_map es)(key \<mapsto> v)) key' = Some u"
      unfolding tbl_upd_Some[OF assms(1) ok assms(2)] using uniq assms(3) tbl_map_Some[OF assms(1), of key' u]
      by (cases "key' = key") (simp, metis hm_entry.inject)+
  qed
qed

lemma tbl_delete:
  assumes "tbl_ok k es" "t < 2 ^ k" "es ! t = Occupied key w"
  shows "tbl_ok k (es[t := Tomb])" "tbl_map (es[t := Tomb]) = (tbl_map es)(key := None)"
proof -
  have uniq: "p = t" if "p < 2 ^ k" "es ! p = Occupied key u" for p u
    by (rule tbl_uniq[OF assms(1) that(1) assms(2) that(2) assms(3)])
  show ok: "tbl_ok k (es[t := Tomb])" by (rule tbl_fill[OF assms(1,2)]) simp_all
  show "tbl_map (es[t := Tomb]) = (tbl_map es)(key := None)"
  proof (rule map_eqI)
    fix key' u
    show "tbl_map (es[t := Tomb]) key' = Some u \<longleftrightarrow> ((tbl_map es)(key := None)) key' = Some u"
      unfolding tbl_upd_Some[OF assms(1) ok assms(2)] using uniq assms(3) tbl_map_Some[OF assms(1), of key' u]
      by (cases "key' = key") (simp, metis hm_entry.inject)+
  qed
qed

subsection \<open>Counts\<close>

abbreviation occ :: "'v hm_entry list \<Rightarrow> nat" where
  "occ es \<equiv> length (filter is_occupied es)"

abbreviation tombs :: "'v hm_entry list \<Rightarrow> nat" where
  "tombs es \<equiv> length (filter is_tomb es)"

lemma length_filter_upd:
  "i < length xs \<Longrightarrow> length (filter P (xs[i := x])) + (if P (xs ! i) then 1 else 0)
    = length (filter P xs) + (if P x then 1 else 0)"
  by (subst (3) id_take_nth_drop[of i xs], simp) (simp add: upd_conv_take_nth_drop)

lemma empty_exists:
  assumes "occ es + tombs es < length es"
  shows "\<exists>e < length es. es ! e = Empty"
proof (rule ccontr)
  assume "\<not> ?thesis"
  then have "Empty \<notin> set es" by (auto simp: in_set_conv_nth)
  then have "filter is_tomb es = filter (\<lambda>e. \<not> is_occupied e) es"
    by (intro filter_cong) (auto elim: is_occupied.elims is_tomb.elims)
  with assms sum_length_filter_compl[of is_occupied es] show False by simp
qed

lemma length_tbl_pairs: "length (tbl_pairs es) = occ es"
  by (induction es rule: tbl_pairs.induct) simp_all

lemma tbl_pairs_distinct:
  assumes "\<And>p q key v w. p < length es \<Longrightarrow> q < length es \<Longrightarrow> es ! p = Occupied key v \<Longrightarrow> es ! q = Occupied key w \<Longrightarrow> p = q"
  shows "distinct (map fst (tbl_pairs es))"
  using assms
proof (induction es rule: tbl_pairs.induct)
  case (2 k v es)
  have "k \<notin> fst ` set (tbl_pairs es)"
  proof
    assume "k \<in> fst ` set (tbl_pairs es)"
    then obtain w where "Occupied k w \<in> set es" by (auto simp: set_tbl_pairs)
    then obtain q where "q < length es" "es ! q = Occupied k w" by (auto simp: in_set_conv_nth)
    then show False using "2.prems"[of 0 "Suc q" k v w] by simp
  qed
  moreover have "distinct (map fst (tbl_pairs es))"
    by (rule "2.IH") (use "2.prems"[of "Suc _" "Suc _"] in fastforce)
  ultimately show ?case by simp
next
  case "3_1"
  show ?case using "3_1.IH" "3_1.prems"[of "Suc _" "Suc _"] by fastforce
next
  case "3_2"
  show ?case using "3_2.IH" "3_2.prems"[of "Suc _" "Suc _"] by fastforce
qed simp

lemma tbl_empty: "tbl_ok k (replicate (2 ^ k) Empty)" "tbl_map (replicate n Empty) = Map.empty"
proof -
  show "tbl_ok k (replicate (2 ^ k) Empty)" by (simp add: tbl_ok_def)
  have "tbl_pairs (replicate n Empty) = []" by (induction n) simp_all
  then show "tbl_map (replicate n Empty) = Map.empty" by (simp add: tbl_map_def)
qed

subsection \<open>Growth\<close>

lemma find_empty_path:
  assumes "i < 2 ^ k" "\<forall>j < d. es ! hm_slot (2 ^ k) i j \<noteq> Empty" "es ! hm_slot (2 ^ k) i d = Empty"
  shows "find_empty es (2 ^ k - 1) i = Some (hm_slot (2 ^ k) i d)"
  using assms
proof (induction d arbitrary: i)
  case 0
  then show ?case by (subst find_empty.simps) simp
next
  case (Suc d)
  let ?i = "(i + 1) AND (2 ^ k - 1)"
  have "es ! i \<noteq> Empty" using Suc.prems(1) Suc.prems(2)[THEN spec[of _ 0]] by simp
  then have "find_empty es (2 ^ k - 1) i = find_empty es (2 ^ k - 1) ?i" by (subst find_empty.simps) simp
  also have "\<dots> = Some (hm_slot (2 ^ k) ?i d)"
    using Suc.prems(2,3) by (intro Suc.IH[OF mask_less]) (auto simp only: slot_step[OF Suc.prems(1)])
  finally show ?case unfolding slot_step[OF Suc.prems(1)] .
qed

lemma hm_reinsert_ok:
  assumes "tbl_ok k neu" "tombs neu = 0" "occ neu + occ old < 2 ^ k" "distinct (map fst (tbl_pairs old))"
    "\<forall>(key, v) \<in> set (tbl_pairs old). tbl_map neu key = None"
  shows "\<exists>neu'. hm_reinsert old (2 ^ k - 1) (neu, occ neu) = Some (neu', occ neu + occ old) \<and> tbl_ok k neu'
    \<and> tombs neu' = 0 \<and> occ neu' = occ neu + occ old \<and> tbl_map neu' = tbl_map neu ++ map_of (tbl_pairs old)"
  using assms
proof (induction old arbitrary: neu rule: tbl_pairs.induct)
  case (2 key v old)
  let ?h = "hm_index (2 ^ k - 1) key"
  have len: "length neu = 2 ^ k" by (rule tbl_len[OF "2.prems"(1)])
  have abs: "tbl_map neu key = None" using "2.prems"(5) by simp
  obtain e where "e < 2 ^ k" "neu ! e = Empty" using empty_exists[of neu] "2.prems"(2,3) len by auto
  from first_empty[OF len this hm_index_less] obtain d where
    d: "d < 2 ^ k" "neu ! hm_slot (2 ^ k) ?h d = Empty" "\<forall>j < d. neu ! hm_slot (2 ^ k) ?h j \<noteq> Empty" by blast
  let ?t = "hm_slot (2 ^ k) ?h d" and ?neu = "neu[hm_slot (2 ^ k) ?h d := Occupied key v]"
  note ins = tbl_insert[OF "2.prems"(1) abs d(1) refl d(3), of v]
  have t: "?t < length neu" using len by simp
  have cnt: "occ ?neu = Suc (occ neu)" "tombs ?neu = 0"
    using length_filter_upd[OF t, of is_occupied "Occupied key v"] length_filter_upd[OF t, of is_tomb "Occupied key v"]
      d(2) "2.prems"(2) by simp_all
  have step: "hm_reinsert (Occupied key v # old) (2 ^ k - 1) (neu, occ neu) = hm_reinsert old (2 ^ k - 1) (?neu, occ ?neu)"
    using find_empty_path[OF hm_index_less d(3,2)] cnt by simp
  have "\<exists>neu'. hm_reinsert old (2 ^ k - 1) (?neu, occ ?neu) = Some (neu', occ ?neu + occ old) \<and> tbl_ok k neu'
    \<and> tombs neu' = 0 \<and> occ neu' = occ ?neu + occ old \<and> tbl_map neu' = tbl_map ?neu ++ map_of (tbl_pairs old)"
  proof (rule "2.IH")
    show "\<forall>(key', v') \<in> set (tbl_pairs old). tbl_map ?neu key' = None"
      using "2.prems"(4,5) ins(2) d(2) by (force simp: image_iff)
  qed (use ins(1) d(2) cnt "2.prems"(3,4) in auto)
  then obtain neu' where neu': "hm_reinsert old (2 ^ k - 1) (?neu, occ ?neu) = Some (neu', occ ?neu + occ old)"
      "tbl_ok k neu'" "tombs neu' = 0" "occ neu' = occ ?neu + occ old" "tbl_map neu' = tbl_map ?neu ++ map_of (tbl_pairs old)"
    by blast
  have map: "tbl_map ?neu ++ map_of (tbl_pairs old) = tbl_map neu ++ map_of (tbl_pairs (Occupied key v # old))"
  proof -
    have "map_of (tbl_pairs old) key = None" using "2.prems"(4) by (simp add: map_of_eq_None_iff)
    then have "(tbl_map neu)(key \<mapsto> v) ++ map_of (tbl_pairs old) = tbl_map neu ++ (map_of (tbl_pairs old))(key \<mapsto> v)"
      by (auto simp: map_add_def fun_eq_iff split: option.split)
    then show ?thesis using ins(2) d(2) by simp
  qed
  show ?case
    unfolding step map[symmetric] using neu' cnt by (intro exI[of _ neu']) simp
qed simp_all

subsection \<open>The invariant\<close>

text \<open>A table of \<open>2\<^sup>k \<ge> 16\<close> slots with exact counts, at most three quarters of it in use.\<close>

definition hm_inv :: "'v hashmap \<Rightarrow> bool" where
  "hm_inv hm \<longleftrightarrow> (\<exists>k \<ge> 4. hm_capacity hm = 2 ^ k \<and> tbl_ok k (hm_entries hm)
     \<and> hm_size hm = occ (hm_entries hm) \<and> hm_tombstones hm = tombs (hm_entries hm)
     \<and> (hm_size hm + hm_tombstones hm) * 4 \<le> hm_capacity hm * 3)"

definition hm_map :: "'v hashmap \<Rightarrow> cstring \<rightharpoonup> 'v" where
  "hm_map hm = tbl_map (hm_entries hm)"

lemma load_less: "a * 4 \<le> c * 3 \<Longrightarrow> 0 < c \<Longrightarrow> (a :: nat) < c"
  by arith

lemma load_step: "a * 4 < 2 ^ k * 3 \<Longrightarrow> 2 \<le> k \<Longrightarrow> a * 4 + 4 \<le> (2 ^ k * 3 :: nat)"
proof -
  assume a: "a * 4 < 2 ^ k * 3" "2 \<le> k"
  have "k = k - 2 + 2" using a(2) by simp
  then have "(2 :: nat) ^ k = 2 ^ (k - 2) * 2 ^ 2" by (metis power_add)
  with a(1) show ?thesis by simp
qed

lemma hm_inv_free:
  assumes "tbl_ok k es" "(occ es + tombs es) * 4 \<le> 2 ^ k * 3"
  obtains e where "e < 2 ^ k" "es ! e = Empty"
proof -
  have "occ es + tombs es < length es" unfolding tbl_len[OF assms(1)] by (rule load_less[OF assms(2)]) simp
  with that show thesis using empty_exists[of es] tbl_len[OF assms(1)] by auto
qed

lemma hm_get_ok:
  assumes "hm_inv hm"
  shows "hm_get hm key = Some (hm_map hm key)"
proof -
  obtain k where k: "hm_capacity hm = 2 ^ k" "tbl_ok k (hm_entries hm)"
      "(occ (hm_entries hm) + tombs (hm_entries hm)) * 4 \<le> 2 ^ k * 3"
    using assms by (auto simp: hm_inv_def)
  obtain e where e: "e < 2 ^ k" "hm_entries hm ! e = Empty" by (rule hm_inv_free[OF k(2,3)])
  show ?thesis
  proof (cases "hm_map hm key")
    case None
    with hm_find_absent[OF k(2) _ e, of key] k(1) show ?thesis by (simp add: hm_get_def hm_map_def)
  next
    case (Some v)
    then obtain p where p: "p < 2 ^ k" "hm_entries hm ! p = Occupied key v"
      using tbl_map_Some[OF k(2)] by (auto simp: hm_map_def)
    with hm_find_present[OF k(2) p] k(1) Some show ?thesis by (simp add: hm_get_def)
  qed
qed

lemma hm_maybe_grow_ok:
  assumes "hm_inv hm"
  shows "\<exists>hm'. hm_maybe_grow hm = Some hm' \<and> hm_inv hm' \<and> hm_map hm' = hm_map hm \<and> hm_size hm' = hm_size hm
    \<and> (hm_size hm' + hm_tombstones hm') * 4 < hm_capacity hm' * 3"
proof (cases "(hm_size hm + hm_tombstones hm) * 4 \<ge> hm_capacity hm * 3")
  case False
  then show ?thesis using assms by (simp add: hm_maybe_grow_def)
next
  case True
  obtain k where k: "4 \<le> k" "hm_capacity hm = 2 ^ k" "tbl_ok k (hm_entries hm)" "hm_size hm = occ (hm_entries hm)"
      "(occ (hm_entries hm) + tombs (hm_entries hm)) * 4 \<le> 2 ^ k * 3"
    using assms by (auto simp: hm_inv_def)
  have "occ (hm_entries hm) + tombs (hm_entries hm) < 2 ^ k" by (rule load_less[OF k(5)]) simp
  then have small: "occ (hm_entries hm) < 2 ^ Suc k" "occ (hm_entries hm) * 4 < 2 ^ Suc k * 3" by simp_all
  have dist: "distinct (map fst (tbl_pairs (hm_entries hm)))"
    using tbl_uniq[OF k(3)] by (intro tbl_pairs_distinct) (simp add: tbl_len[OF k(3)])
  obtain neu where neu: "hm_reinsert (hm_entries hm) (2 ^ Suc k - 1) (replicate (2 ^ Suc k) Empty, 0)
        = Some (neu, occ (hm_entries hm))" "tbl_ok (Suc k) neu" "tombs neu = 0" "occ neu = occ (hm_entries hm)"
      "tbl_map neu = hm_map hm"
    using hm_reinsert_ok[OF tbl_empty(1)[of "Suc k"] _ _ dist] small(1) by (auto simp: tbl_empty(2) hm_map_def simp flip: tbl_map_def)
  have cap: "push_bit 1 (hm_capacity hm) = 2 ^ Suc k" by (simp add: k(2) push_bit_eq_mult)
  have "hm_maybe_grow hm = Some (hm\<lparr>hm_entries := neu, hm_capacity := 2 ^ Suc k, hm_size := occ (hm_entries hm), hm_tombstones := 0\<rparr>)"
    using True neu(1) unfolding hm_maybe_grow_def hm_rehash_def cap by simp
  then show ?thesis
    using neu(2-5) k(1,4) small(2) by (auto simp: hm_inv_def hm_map_def intro!: exI[of _ "Suc k"])
qed

lemma hm_put_ok:
  assumes "hm_inv hm0"
  shows "\<exists>hm'. hm_put hm0 key val = Some (hm_map hm0 key \<noteq> None, hm') \<and> hm_inv hm'
    \<and> hm_map hm' = (hm_map hm0)(key \<mapsto> val)"
proof -
  obtain hm where hm: "hm_maybe_grow hm0 = Some hm" "hm_inv hm" "hm_map hm = hm_map hm0"
      "(hm_size hm + hm_tombstones hm) * 4 < hm_capacity hm * 3"
    using hm_maybe_grow_ok[OF assms] by blast
  obtain k where k: "4 \<le> k" "hm_capacity hm = 2 ^ k" "tbl_ok k (hm_entries hm)" "hm_size hm = occ (hm_entries hm)"
      "hm_tombstones hm = tombs (hm_entries hm)" "(occ (hm_entries hm) + tombs (hm_entries hm)) * 4 \<le> 2 ^ k * 3"
    using hm(2) by (auto simp: hm_inv_def)
  let ?es = "hm_entries hm"
  have len: "length ?es = 2 ^ k" by (rule tbl_len[OF k(3)])
  show ?thesis
  proof (cases "hm_map hm key")
    case (Some w)
    then obtain p where p: "p < 2 ^ k" "?es ! p = Occupied key w" using tbl_map_Some[OF k(3)] by (auto simp: hm_map_def)
    have "hm_put hm0 key val = Some (True, hm\<lparr>hm_entries := ?es[p := Occupied key val]\<rparr>)"
      unfolding hm_put_def hm(1) k(2) using hm_probe_present[OF k(3) p] by (simp add: k(2))
    moreover have "occ (?es[p := Occupied key val]) = occ ?es" "tombs (?es[p := Occupied key val]) = tombs ?es"
      using length_filter_upd[of p ?es is_occupied "Occupied key val"] length_filter_upd[of p ?es is_tomb "Occupied key val"]
        p len by simp_all
    ultimately show ?thesis
      using tbl_update[OF k(3) p, of val] k hm(3) Some
      by (auto simp: hm_inv_def hm_map_def intro!: exI[of _ k])
  next
    case None
    obtain e where e: "e < 2 ^ k" "?es ! e = Empty" by (rule hm_inv_free[OF k(3,6)])
    let ?h = "hm_index (2 ^ k - 1) key"
    obtain d r where d: "d < 2 ^ k" "hm_probe ?es (2 ^ k - 1) key ?h None = Some (Inr (hm_slot (2 ^ k) ?h d, r))"
        "?es ! hm_slot (2 ^ k) ?h d = (if r then Tomb else Empty)" "\<forall>j < d. ?es ! hm_slot (2 ^ k) ?h j \<noteq> Empty"
      using hm_probe_absent[OF k(3) _ e, of key] None by (auto simp: hm_map_def)
    define t where "t = hm_slot (2 ^ k) ?h d"
    have t: "t < length ?es" using len by (simp add: t_def)
    have dt: "?es ! t = (if r then Tomb else Empty)" "hm_probe ?es (2 ^ k - 1) key ?h None = Some (Inr (t, r))"
      using d(2,3) by (simp_all only: t_def)
    have cnt: "occ (?es[t := Occupied key val]) = Suc (occ ?es)"
      "tombs (?es[t := Occupied key val]) + (if r then 1 else 0) = tombs ?es"
      using length_filter_upd[OF t, of is_occupied "Occupied key val"] length_filter_upd[OF t, of is_tomb "Occupied key val"]
        dt(1) by (auto split: if_splits)
    have "hm_put hm0 key val = Some (False, hm\<lparr>hm_entries := ?es[t := Occupied key val],
        hm_tombstones := tombs (?es[t := Occupied key val]), hm_size := hm_size hm + 1\<rparr>)"
      unfolding hm_put_def hm(1) using dt(2) cnt(2) k(5) by (auto simp: k(2))
    moreover have "\<not> is_occupied (?es ! t)" using dt(1) by simp
    moreover have "(occ ?es + tombs ?es) * 4 + 4 \<le> 2 ^ k * 3" using hm(4) k by (intro load_step) simp_all
    ultimately show ?thesis
      using tbl_insert[OF k(3) _ d(1) t_def d(4), of val] k(1,2,4,5) hm(3) None cnt
      by (auto simp: hm_inv_def hm_map_def intro!: exI[of _ k] split: if_splits)
  qed
qed

lemma hm_del_ok:
  assumes "hm_inv hm"
  shows "\<exists>hm'. hm_del hm key = Some (hm_map hm key \<noteq> None, hm') \<and> hm_inv hm' \<and> hm_map hm' = (hm_map hm)(key := None)"
proof -
  obtain k where k: "4 \<le> k" "hm_capacity hm = 2 ^ k" "tbl_ok k (hm_entries hm)" "hm_size hm = occ (hm_entries hm)"
      "hm_tombstones hm = tombs (hm_entries hm)" "(occ (hm_entries hm) + tombs (hm_entries hm)) * 4 \<le> 2 ^ k * 3"
    using assms by (auto simp: hm_inv_def)
  let ?es = "hm_entries hm"
  have len: "length ?es = 2 ^ k" by (rule tbl_len[OF k(3)])
  show ?thesis
  proof (cases "hm_map hm key")
    case None
    obtain e where e: "e < 2 ^ k" "?es ! e = Empty" by (rule hm_inv_free[OF k(3,6)])
    have "hm_del hm key = Some (False, hm)"
      using hm_find_absent[OF k(3) _ e, of key] None k(2) by (simp add: hm_del_def hm_map_def)
    then show ?thesis using None assms by (auto simp: fun_upd_idem)
  next
    case (Some w)
    then obtain p where p: "p < 2 ^ k" "?es ! p = Occupied key w" using tbl_map_Some[OF k(3)] by (auto simp: hm_map_def)
    have cnt: "occ (?es[p := Tomb]) + 1 = occ ?es" "tombs (?es[p := Tomb]) = tombs ?es + 1"
      using length_filter_upd[of p ?es is_occupied Tomb] length_filter_upd[of p ?es is_tomb Tomb] p len by simp_all
    have nz: "hm_size hm \<noteq> 0" using cnt(1) k(4) by linarith
    have "hm_del hm key = Some (True, hm\<lparr>hm_entries := ?es[p := Tomb], hm_size := hm_size hm - 1,
        hm_tombstones := hm_tombstones hm + 1\<rparr>)"
      using hm_find_present[OF k(3) p] k(2) nz by (simp add: hm_del_def)
    then show ?thesis
      using tbl_delete[OF k(3) p] k cnt Some by (auto simp: hm_inv_def hm_map_def intro!: exI[of _ k])
  qed
qed

interpretation hm: str_map hm_inv hm_map hm_get hm_put hm_del
  by unfold_locales (rule hm_get_ok hm_put_ok hm_del_ok, assumption)+

lemma hm_init_ok:
  assumes "n \<le> 2 ^ 63"
  shows "\<exists>hm. hm_init n = Some hm \<and> hm_inv hm \<and> hm_map hm = Map.empty \<and> unat n \<le> hm_capacity hm"
proof -
  have "(if n \<noteq> 0 then n else HM_MIN_CAP) \<le> 2 ^ 63" using assms by (simp add: HM_MIN_CAP_def)
  from next_pow2_loop_returns[OF this, of 4] obtain j where
    j: "4 \<le> j" "j \<le> 63" "next_pow2 (if n \<noteq> 0 then n else HM_MIN_CAP) = Some (2 ^ j)"
      "(if n \<noteq> 0 then n else HM_MIN_CAP) \<le> 2 ^ j"
    by (auto simp: next_pow2_def HM_MIN_CAP_def)
  have "unat n \<le> 2 ^ j" using j(2,4) unat_pow2[of j] by (cases "n = 0") (auto simp: word_le_nat_alt)
  moreover have "hm_init n = Some \<lparr>hm_entries = replicate (2 ^ j) Empty, hm_capacity = 2 ^ j, hm_size = 0, hm_tombstones = 0\<rparr>"
    using j(2,3) by (simp add: hm_init_def unat_pow2)
  ultimately show ?thesis
    using j(1) tbl_empty(1)[of j] by (auto simp: hm_inv_def hm_map_def tbl_empty(2) intro!: exI[of _ j])
qed

subsection \<open>Iteration\<close>

text \<open>The entries an iterator delivers in at most \<open>n\<close> calls, until it delivers none.\<close>

fun hm_iterate :: "nat \<Rightarrow> 'v hashmap \<Rightarrow> nat \<Rightarrow> (cstring \<times> 'v) list" where
  "hm_iterate 0 hm idx = []"
| "hm_iterate (Suc n) hm idx =
     (case hm_iter_next hm idx of
        (None, _) \<Rightarrow> []
      | (Some kv, idx') \<Rightarrow> kv # hm_iterate n hm idx')"

lemma tbl_pairs_drop:
  "idx < length es \<Longrightarrow> tbl_pairs (drop idx es) =
    (case es ! idx of Occupied k v \<Rightarrow> [(k, v)] | _ \<Rightarrow> []) @ tbl_pairs (drop (Suc idx) es)"
  by (subst Cons_nth_drop_Suc[symmetric]) (auto split: hm_entry.split)

lemma hm_iter_next_pairs:
  assumes "length (hm_entries hm) = hm_capacity hm"
  shows "case hm_iter_next hm idx of
      (None, _) \<Rightarrow> tbl_pairs (drop idx (hm_entries hm)) = []
    | (Some kv, idx') \<Rightarrow> idx < idx' \<and> tbl_pairs (drop idx (hm_entries hm)) = kv # tbl_pairs (drop idx' (hm_entries hm))"
  using assms
proof (induction hm idx rule: hm_iter_next.induct)
  case (1 hm idx)
  show ?case
  proof (cases "idx < hm_capacity hm")
    case False
    then show ?thesis using "1.prems" by (subst hm_iter_next.simps) simp
  next
    case True
    then show ?thesis
      using "1.IH"[OF True] "1.prems" tbl_pairs_drop[of idx "hm_entries hm"]
      by (subst hm_iter_next.simps) (auto split: hm_entry.splits prod.splits option.splits)
  qed
qed

lemma hm_iterate_pairs:
  assumes "length (hm_entries hm) = hm_capacity hm" "length (tbl_pairs (drop idx (hm_entries hm))) < n"
  shows "hm_iterate n hm idx = tbl_pairs (drop idx (hm_entries hm))"
  using assms(2)
proof (induction n arbitrary: idx)
  case (Suc n)
  show ?case
    using hm_iter_next_pairs[OF assms(1), of idx] Suc by (auto split: prod.splits option.splits)
qed simp

subsection \<open>Properties\<close>

text \<open>
  C27: from a map that was initialised, every sequence of lookups, insertions and deletions
  returns (no search runs forever, however many keys collide and however many deletion marks there
  are) and behaves as a mathematical map.
\<close>

theorem hm_run_refines:
  assumes "n \<le> 2 ^ 63"
  shows "\<exists>(hm :: 'v hashmap) hm'. hm_init n = Some hm
    \<and> map_run hm_get hm_put hm_del ops hm = Some (fst (map_spec_run ops Map.empty), hm')
    \<and> hm_map hm' = snd (map_spec_run ops Map.empty) \<and> hm_inv hm'"
proof -
  obtain hm :: "'v hashmap" where hm: "hm_init n = Some hm" "hm_inv hm" "hm_map hm = Map.empty"
    using hm_init_ok[OF assms] by blast
  from hm.run_refines[OF hm(2), of ops] hm(1,3) show ?thesis by auto
qed

theorem hm_run_refines_witness:
  "\<exists>hm hm'. hm_init 0 = Some hm
    \<and> map_run hm_get hm_put hm_del [Map_put [97] True, Map_get [97], Map_del [97], Map_get [97]] hm
      = Some ([Was_there False, Found (Some True), Was_there True, Found None], hm')
    \<and> hm_map hm' = Map.empty \<and> hm_inv hm'"
proof -
  have "map_spec_run [Map_put [97] True, Map_get [97], Map_del [97], Map_get [97]] Map.empty
      = ([Was_there False, Found (Some True), Was_there True, Found None], Map.empty)"
    by (auto simp: fun_eq_iff)
  with hm_run_refines[of 0 "[Map_put [97] True, Map_get [97], Map_del [97], Map_get [97]]"] show ?thesis
    by (simp del: map_run.simps map_spec_run.simps)
qed

text \<open>
  C29: the rounding of capacities returns exactly for requests up to \<open>2\<^sup>6\<^sup>3\<close>, and then with the
  smallest power of two that is at least 16 and the request. For larger ones the shift
  reaches zero and the loop never ends.
\<close>

theorem next_pow2_returns:
  "(next_pow2 x \<noteq> None) = (x \<le> 2 ^ 63)
    \<and> (x \<le> 2 ^ 63 \<longrightarrow> (\<exists>j \<ge> 4. next_pow2 x = Some (2 ^ j) \<and> x \<le> 2 ^ j \<and> (4 < j \<longrightarrow> 2 ^ (j - 1) < x)))"
proof (cases "x \<le> 2 ^ 63")
  case True
  then show ?thesis using next_pow2_loop_returns[OF True, of 4] by (auto simp: next_pow2_def HM_MIN_CAP_def)
next
  case False
  have "HM_MIN_CAP = 0 \<or> (\<exists>k \<le> 63. HM_MIN_CAP = 2 ^ k)" by (intro disjI2 exI[of _ 4]) (simp add: HM_MIN_CAP_def)
  then have "next_pow2 x = None"
    unfolding next_pow2_def using False by (intro next_pow2_loop_diverges) (simp_all add: not_le)
  then show ?thesis using False by simp
qed

theorem next_pow2_returns_witness: "\<exists>j \<ge> 4. next_pow2 100 = Some (2 ^ j) \<and> 100 \<le> (2 :: uint64) ^ j"
  using next_pow2_returns[of 100] by auto

text \<open>
  C28: an iteration delivers every key of the map with its value exactly once, and then ends.
\<close>

theorem hm_iterate_all:
  assumes "hm_inv hm" and "hm_size hm < n"
  shows "map_of (hm_iterate n hm 0) = hm_map hm \<and> distinct (map fst (hm_iterate n hm 0))
    \<and> length (hm_iterate n hm 0) = hm_size hm"
proof -
  obtain k where k: "hm_capacity hm = 2 ^ k" "tbl_ok k (hm_entries hm)" "hm_size hm = occ (hm_entries hm)"
    using assms(1) by (auto simp: hm_inv_def)
  have "hm_iterate n hm 0 = tbl_pairs (hm_entries hm)"
    using hm_iterate_pairs[of hm 0 n] k assms(2) by (simp add: tbl_len length_tbl_pairs)
  moreover have "distinct (map fst (tbl_pairs (hm_entries hm)))"
    using tbl_uniq[OF k(2)] by (intro tbl_pairs_distinct) (simp add: tbl_len[OF k(2)])
  ultimately show ?thesis by (simp add: hm_map_def tbl_map_def k(3) length_tbl_pairs)
qed

theorem hm_iterate_all_witness:
  "\<exists>hm hm'. hm_init 0 = Some hm \<and> hm_put hm [97] True = Some (False, hm')
    \<and> hm_iterate (hm_size hm' + 1) hm' 0 = [([97], True)]"
proof -
  obtain hm :: "bool hashmap" where hm: "hm_init 0 = Some hm" "hm_inv hm" "hm_map hm = Map.empty" using hm_init_ok[of 0] by auto
  obtain hm' where hm': "hm_put hm [97] True = Some (False, hm')" "hm_inv hm'" "hm_map hm' = [[97] \<mapsto> True]"
    using hm_put_ok[OF hm(2), of "[97]" True] hm(3) by auto
  define l where "l = hm_iterate (hm_size hm' + 1) hm' 0"
  have l: "map_of l = [[97] \<mapsto> True]" "distinct (map fst l)" using hm_iterate_all[OF hm'(2), of "hm_size hm' + 1"] hm'(3) unfolding l_def by (simp_all del: hm_iterate.simps)
  have "fst ` set l = {[97]}" using l(1) dom_map_of_conv_image_fst[of l] by simp
  then have "length (map fst l) = 1" using distinct_card[OF l(2)] by simp
  then obtain x where "l = [x]" by (auto simp: length_Suc_conv)
  with l(1) have "l = [([97], True)]" by (cases x) (auto simp: fun_eq_iff split: if_splits)
  with hm(1) hm'(1) show ?thesis unfolding l_def by blast
qed

end
