(* ===== verification/Batch_Queue.thy ===== *)
theory Batch_Queue
  imports Hash_Map Linked_Queue
begin

text \<open>
  The event queue of \<^verbatim>\<open>remoted\<close>, \<^verbatim>\<open>src/src/shared/src/batch_queue_op.c\<close>: a queue per agent, a hash map from agents
  to their slots, and a circular ring of the slots that have events, drained in turn. Slots live in
  an explicit store; allocation hands out addresses in increasing order, never one used before.
  Event counts are natural numbers, as each counted event is an object in memory. A \<open>None\<close> result is
  the dereference of a bad pointer or a loop that does not end. The dispose callback is the list of
  what it was called on.
\<close>

record 'a rr_agent_slot =
  slot_key :: cstring
  slot_q :: "'a linked_queue"
  slot_next :: "nat option"
  in_ring :: bool

record 'a rr_queue =
  rr_heap :: "nat \<Rightarrow> 'a rr_agent_slot option"
  rr_brk :: nat
  ring_head :: "nat option"
  ring_tail :: "nat option"
  cursor :: "nat option"
  prev_cursor :: "nat option"
  agent_index :: "nat hashmap"
  ring_slots :: nat
  max_items_global :: nat
  max_items_per_agent :: nat
  items_global :: nat
  rr_dispose :: bool

definition with_slot :: "nat \<Rightarrow> ('a rr_agent_slot \<Rightarrow> 'a rr_agent_slot) \<Rightarrow> 'a rr_queue \<Rightarrow> 'a rr_queue option" where
  "with_slot a f s = do { sl \<leftarrow> rr_heap s a; Some (s\<lparr>rr_heap := (rr_heap s)(a \<mapsto> f sl)\<rparr>) }"

subsection \<open>The ring\<close>

definition ring_append :: "'a rr_queue \<Rightarrow> nat \<Rightarrow> 'a rr_queue option" where
  "ring_append s a =
     do {
       s1 \<leftarrow> (case ring_head s of
           None \<Rightarrow> do {
             s1 \<leftarrow> with_slot a (\<lambda>sl. sl\<lparr>slot_next := Some a\<rparr>) s;
             Some (s1\<lparr>ring_head := Some a, ring_tail := Some a, cursor := Some a, prev_cursor := Some a\<rparr>)
           }
         | Some h \<Rightarrow> do {
             s1 \<leftarrow> with_slot a (\<lambda>sl. sl\<lparr>slot_next := Some h\<rparr>) s;
             t \<leftarrow> ring_tail s1;
             s2 \<leftarrow> with_slot t (\<lambda>sl. sl\<lparr>slot_next := Some a\<rparr>) s1;
             let s3 = s2\<lparr>ring_tail := Some a\<rparr>;
             Some (if cursor s3 = ring_head s3 then s3\<lparr>prev_cursor := ring_tail s3\<rparr> else s3)
           });
       s2 \<leftarrow> with_slot a (\<lambda>sl. sl\<lparr>in_ring := True\<rparr>) s1;
       Some (s2\<lparr>ring_slots := ring_slots s2 + 1\<rparr>)
     }"

definition ring_remove_node :: "'a rr_queue \<Rightarrow> nat \<Rightarrow> nat option \<Rightarrow> 'a rr_queue option" where
  "ring_remove_node s node prev_opt =
     (case prev_opt of
        None \<Rightarrow> Some s
      | Some prev \<Rightarrow>
          if ring_head s = None then Some s
          else if node = prev
          then with_slot node (\<lambda>sl. sl\<lparr>in_ring := False, slot_next := None\<rparr>)
            (s\<lparr>ring_head := None, ring_tail := None, cursor := None, prev_cursor := None, ring_slots := 0\<rparr>)
          else do {
            n \<leftarrow> rr_heap s node;
            s1 \<leftarrow> with_slot prev (\<lambda>sl. sl\<lparr>slot_next := slot_next n\<rparr>) s;
            let s2 = (if Some node = ring_head s1 then s1\<lparr>ring_head := slot_next n\<rparr> else s1);
            let s3 = (if Some node = ring_tail s2 then s2\<lparr>ring_tail := Some prev\<rparr> else s2);
            let s4 = (if cursor s3 = Some node then s3\<lparr>cursor := slot_next n\<rparr> else s3);
            let s5 = (if prev_cursor s4 = Some node then s4\<lparr>prev_cursor := Some prev\<rparr> else s4);
            s6 \<leftarrow> with_slot node (\<lambda>sl. sl\<lparr>in_ring := False, slot_next := None\<rparr>) s5;
            Some (if ring_slots s6 > 0 then s6\<lparr>ring_slots := ring_slots s6 - 1\<rparr> else s6)
          })"

definition batch_queue_ring_size :: "'a rr_queue \<Rightarrow> nat" where
  "batch_queue_ring_size s = ring_slots s"

text \<open>\<^verbatim>\<open>ring_find_prev\<close>, from the slot \<open>p\<close> on.\<close>

partial_function (option) find_prev_loop :: "'a rr_queue \<Rightarrow> nat \<Rightarrow> nat \<Rightarrow> nat option option" where
  "find_prev_loop s slot p =
     do {
       sl \<leftarrow> rr_heap s p;
       (case slot_next sl of
          None \<Rightarrow> Some None
        | Some nx \<Rightarrow>
            if nx = slot then Some (Some p)
            else if Some nx = ring_head s then Some None
            else find_prev_loop s slot nx)
     }"

definition ring_find_prev :: "'a rr_queue \<Rightarrow> nat \<Rightarrow> nat option option" where
  "ring_find_prev s slot = (case ring_head s of None \<Rightarrow> Some None | Some h \<Rightarrow> find_prev_loop s slot h)"

subsection \<open>Slots\<close>

text \<open>The events of a detached chain of nodes, each node freed after it was read.\<close>

partial_function (option) consume_chain ::
    "(nat \<Rightarrow> 'a lq_node option) \<Rightarrow> nat option \<Rightarrow> ('a option list \<times> (nat \<Rightarrow> 'a lq_node option)) option" where
  "consume_chain h p =
     (case p of
        None \<Rightarrow> Some ([], h)
      | Some a \<Rightarrow> do {
          n \<leftarrow> h a;
          (ds, h') \<leftarrow> consume_chain (h(a := None)) (node_next n);
          Some (node_data n # ds, h')
        })"

text \<open>Detaching the whole queue of a slot: its events, and the queue left.\<close>

definition steal_chain :: "'a linked_queue \<Rightarrow> ('a option list \<times> 'a linked_queue) option" where
  "steal_chain q =
     do {
       (ds, h) \<leftarrow> consume_chain (lq_heap q) (lq_first q);
       Some (ds, q\<lparr>lq_heap := h, lq_first := None, lq_last := None, lq_elements := 0\<rparr>)
     }"

definition make_slot :: "cstring \<Rightarrow> 'a rr_queue \<Rightarrow> nat \<times> 'a rr_queue" where
  "make_slot key s =
     (rr_brk s, s\<lparr>rr_heap := (rr_heap s)(rr_brk s \<mapsto>
        \<lparr>slot_key = key, slot_q = linked_queue_init, slot_next = None, in_ring = False\<rparr>), rr_brk := rr_brk s + 1\<rparr>)"

definition disposes :: "'a rr_queue \<Rightarrow> 'a list \<Rightarrow> 'a list" where
  "disposes s xs = (if rr_dispose s then xs else [])"

text \<open>What was disposed, and the state.\<close>

definition free_slot :: "'a rr_queue \<Rightarrow> nat \<Rightarrow> bool \<Rightarrow> ('a list \<times> 'a rr_queue) option" where
  "free_slot s a adjust_global =
     do {
       sl \<leftarrow> rr_heap s a;
       (ds, q) \<leftarrow> steal_chain (slot_q sl);
       let n = unat (lq_elements (slot_q sl));
       let s1 = s\<lparr>rr_heap := (rr_heap s)(a := None)\<rparr>;
       Some (disposes s (map the ds), if adjust_global then s1\<lparr>items_global := items_global s1 - n\<rparr> else s1)
     }"

subsection \<open>Initialisation and limits\<close>

definition batch_queue_init :: "nat \<Rightarrow> 'a rr_queue option" where
  "batch_queue_init max_items =
     do {
       index \<leftarrow> hm_init 64;
       Some \<lparr>rr_heap = (\<lambda>_. None), rr_brk = 0, ring_head = None, ring_tail = None, cursor = None, prev_cursor = None,
         agent_index = index, ring_slots = 0, max_items_global = max_items, max_items_per_agent = 0,
         items_global = 0, rr_dispose = False\<rparr>
     }"

definition batch_queue_set_dispose :: "'a rr_queue \<Rightarrow> bool \<Rightarrow> 'a rr_queue" where
  "batch_queue_set_dispose s f = s\<lparr>rr_dispose := f\<rparr>"

definition batch_queue_set_agent_max :: "'a rr_queue \<Rightarrow> nat \<Rightarrow> 'a rr_queue" where
  "batch_queue_set_agent_max s n = s\<lparr>max_items_per_agent := n\<rparr>"

subsection \<open>Enqueue\<close>

definition ENOMEM :: int where "ENOMEM = 12"
definition ENOSPC :: int where "ENOSPC = 28"

text \<open>Step 0, without a lock: whether the limit is exceeded.\<close>

definition enqueue_count :: "'a rr_queue \<Rightarrow> bool \<times> 'a rr_queue" where
  "enqueue_count s =
     (max_items_global s \<noteq> 0 \<and> items_global s + 1 > max_items_global s, s\<lparr>items_global := items_global s + 1\<rparr>)"

text \<open>Every failure takes the count back and disposes of the event.\<close>

definition enqueue_undo :: "'a \<Rightarrow> 'a rr_queue \<Rightarrow> 'a list \<times> 'a rr_queue" where
  "enqueue_undo data s = (disposes s [data], s\<lparr>items_global := items_global s - 1\<rparr>)"

text \<open>The event becomes the last node of the queue of its agent.\<close>

definition enqueue_node :: "'a linked_queue \<Rightarrow> 'a \<Rightarrow> 'a linked_queue option" where
  "enqueue_node q data =
     (let n = lq_brk q;
          node = \<lparr>node_data = Some data, node_next = None, node_prev = lq_last q\<rparr>;
          q1 = q\<lparr>lq_heap := (lq_heap q)(n \<mapsto> node), lq_brk := lq_brk q + 1\<rparr>
      in do {
        q2 \<leftarrow> (case lq_last q1 of
            Some l \<Rightarrow> do { q2 \<leftarrow> set_next (Some n) l q1; Some (q2\<lparr>lq_last := Some n\<rparr>) }
          | None \<Rightarrow> Some (q1\<lparr>lq_first := Some n, lq_last := Some n\<rparr>));
        Some (q2\<lparr>lq_elements := lq_elements q2 + 1\<rparr>)
      })"

datatype enqueue_result = Stored nat bool | No_space | No_memory

text \<open>
  Steps 1 to 4: the slot is looked up or made under the lock of the ring, the lock of its queue is
  taken before that one is released, and the event is stored. The result has the slot and whether its
  queue was empty.
\<close>

definition enqueue_store :: "cstring \<Rightarrow> 'a \<Rightarrow> 'a rr_queue \<Rightarrow> (enqueue_result \<times> 'a rr_queue) option" where
  "enqueue_store key data s =
     do {
       found \<leftarrow> hm_get (agent_index s) key;
       (slot, s1) \<leftarrow> (case found of
           Some a \<Rightarrow> Some (Some a, s)
         | None \<Rightarrow> (case make_slot key s of (a, s1) \<Rightarrow> do {
             (was, index) \<leftarrow> hm_put (agent_index s1) key a;
             if was then do { (_, s2) \<leftarrow> free_slot (s1\<lparr>agent_index := index\<rparr>) a False; Some (None, s2) }
             else Some (Some a, s1\<lparr>agent_index := index\<rparr>)
           }));
       (case slot of
          None \<Rightarrow> Some (No_memory, s1)
        | Some a \<Rightarrow> do {
            sl \<leftarrow> rr_heap s1 a;
            let need_ring_append = (lq_elements (slot_q sl) = 0);
            if max_items_per_agent s1 \<noteq> 0 \<and> unat (lq_elements (slot_q sl)) \<ge> max_items_per_agent s1
            then Some (No_space, s1)
            else do {
              q \<leftarrow> enqueue_node (slot_q sl) data;
              Some (Stored a need_ring_append, s1\<lparr>rr_heap := (rr_heap s1)(a \<mapsto> sl\<lparr>slot_q := q\<rparr>)\<rparr>)
            }
          })
     }"

text \<open>Step 5: the slot joins the ring, unless it is gone or there already; whether the consumer is signalled.\<close>

definition enqueue_join :: "cstring \<Rightarrow> nat \<Rightarrow> 'a rr_queue \<Rightarrow> (bool \<times> 'a rr_queue) option" where
  "enqueue_join key a s =
     do {
       found \<leftarrow> hm_get (agent_index s) key;
       if found = Some a then do {
         sl \<leftarrow> rr_heap s a;
         if in_ring sl then Some (False, s) else do { s1 \<leftarrow> ring_append s a; Some (True, s1) }
       } else Some (False, s)
     }"

text \<open>The whole of it, when no other thread comes in between: the value returned and what was disposed.\<close>

definition batch_queue_enqueue_ex :: "'a rr_queue \<Rightarrow> cstring \<Rightarrow> 'a \<Rightarrow> (int \<times> 'a list \<times> 'a rr_queue) option" where
  "batch_queue_enqueue_ex s key data =
     (case enqueue_count s of (over, s1) \<Rightarrow>
        if over then (case enqueue_undo data s1 of (ds, s2) \<Rightarrow> Some (- ENOSPC, ds, s2))
        else do {
          (r, s2) \<leftarrow> enqueue_store key data s1;
          (case r of
             No_memory \<Rightarrow> (case enqueue_undo data s2 of (ds, s3) \<Rightarrow> Some (- ENOMEM, ds, s3))
           | No_space \<Rightarrow> (case enqueue_undo data s2 of (ds, s3) \<Rightarrow> Some (- ENOSPC, ds, s3))
           | Stored a need_ring_append \<Rightarrow>
               if need_ring_append then do { (_, s3) \<leftarrow> enqueue_join key a s2; Some (0, [], s3) }
               else Some (0, [], s2))
        })"

subsection \<open>Drain\<close>

text \<open>
  The consumer takes the slot at the cursor out of the ring and detaches its queue, or waits. The
  events and the agent they are of.
\<close>

definition drain_take :: "'a rr_queue \<Rightarrow> ('a list \<times> cstring, 'a rr_queue) outcome option" where
  "drain_take s =
     (case cursor s of
        None \<Rightarrow> Some (Waits s)
      | Some slot \<Rightarrow>
          (let prev = (if prev_cursor s \<noteq> None then prev_cursor s else ring_tail s) in
           do {
             sl \<leftarrow> rr_heap s slot;
             s1 \<leftarrow> ring_remove_node (s\<lparr>cursor := slot_next sl, prev_cursor := prev\<rparr>) slot prev;
             sl1 \<leftarrow> rr_heap s1 slot;
             (ds, q) \<leftarrow> steal_chain (slot_q sl1);
             Some (Returns (map the ds, slot_key sl1) (s1\<lparr>rr_heap := (rr_heap s1)(slot \<mapsto> sl1\<lparr>slot_q := q\<rparr>)\<rparr>))
           }))"

definition drain_done :: "nat \<Rightarrow> 'a rr_queue \<Rightarrow> 'a rr_queue" where
  "drain_done drained s = (if drained \<noteq> 0 then s\<lparr>items_global := items_global s - drained\<rparr> else s)"

definition batch_queue_drain_next_ex :: "'a rr_queue \<Rightarrow> ('a list \<times> cstring, 'a rr_queue) outcome option" where
  "batch_queue_drain_next_ex s =
     do {
       r \<leftarrow> drain_take s;
       Some (case r of
         Waits s1 \<Rightarrow> Waits s1
       | Returns (ds, key) s1 \<Rightarrow> Returns (ds, key) (drain_done (length ds) s1))
     }"

subsection \<open>Metrics and removal\<close>

definition batch_queue_empty :: "'a rr_queue \<Rightarrow> bool" where
  "batch_queue_empty s = (cursor s = None)"

definition batch_queue_size :: "'a rr_queue \<Rightarrow> nat" where
  "batch_queue_size s = items_global s"

definition batch_queue_agent_size :: "'a rr_queue \<Rightarrow> cstring \<Rightarrow> nat option" where
  "batch_queue_agent_size s key =
     do {
       found \<leftarrow> hm_get (agent_index s) key;
       (case found of
          None \<Rightarrow> Some 0
        | Some a \<Rightarrow> do { sl \<leftarrow> rr_heap s a; Some (unat (lq_elements (slot_q sl))) })
     }"

definition batch_queue_drop_agent :: "'a rr_queue \<Rightarrow> cstring \<Rightarrow> (bool \<times> 'a list \<times> 'a rr_queue) option" where
  "batch_queue_drop_agent s key =
     do {
       found \<leftarrow> hm_get (agent_index s) key;
       (case found of
          None \<Rightarrow> Some (False, [], s)
        | Some a \<Rightarrow> do {
            sl \<leftarrow> rr_heap s a;
            prev \<leftarrow> (if in_ring sl then ring_find_prev s a else Some None);
            if in_ring sl \<and> prev = None then Some (False, [], s)
            else do {
              s1 \<leftarrow> (if in_ring sl then ring_remove_node s a prev else Some s);
              (_, index) \<leftarrow> hm_del (agent_index s1) key;
              (ds, s2) \<leftarrow> free_slot (s1\<lparr>agent_index := index\<rparr>) a True;
              Some (True, ds, s2)
            }
          })
     }"

subsection \<open>The producer in remoted\<close>

text \<open>What \<^verbatim>\<open>HandleSecureMessage\<close> does with an event it keeps: the events disposed, in order.\<close>

definition remoted_enqueue :: "'a rr_queue \<Rightarrow> cstring \<Rightarrow> 'a \<Rightarrow> (int \<times> 'a list \<times> 'a rr_queue) option" where
  "remoted_enqueue s agent e =
     do {
       (rc, ds, s1) \<leftarrow> batch_queue_enqueue_ex s agent e;
       Some (rc, if rc < 0 then ds @ [e] else ds, s1)
     }"

declare find_prev_loop.simps [code] consume_chain.simps [code]

subsection \<open>Queues of agents\<close>

lemma enqueue_node_push:
  assumes "lq_rep q cells"
  shows "Some (enqueue_node q d) = map_option (\<lambda>(a, q', _). Some q') (linked_queue_push_ex q (Some d))"
proof -
  obtain q' where q': "linked_queue_push_ex q (Some d) = Some (lq_brk q, q', True)" using lq_push_rep[OF assms] by blast
  have new: "lq_brk q \<notin> fst ` set cells" using assms by (auto simp: lq_rep_def)
  have "lq_first q = None \<longleftrightarrow> cells = []" "lq_last q = None \<longleftrightarrow> cells = []"
    using assms by (auto simp: lq_rep_def lq_head_def lq_end_def)
  moreover have "lq_last q \<noteq> Some (lq_brk q)"
  proof
    assume "lq_last q = Some (lq_brk q)"
    then have "cells \<noteq> []" "fst (last cells) = lq_brk q" using assms by (auto simp: lq_rep_def lq_end_def split: if_splits)
    then show False using new last_in_set[of cells] by (metis imageI)
  qed
  ultimately have ends: "lq_first q = None \<longleftrightarrow> lq_last q = None" "lq_last q \<noteq> Some (lq_brk q)" by simp_all
  have "enqueue_node q d = Some q'"
    using q' ends by (auto simp: enqueue_node_def linked_queue_push_ex_def lq_alloc_def linked_queue_append_node_def
      Let_def set_next_def set_prev_def bind_eq_Some_conv fun_upd_twist split: option.splits)
  then show ?thesis by (simp add: q')
qed

lemma enqueue_node_rep:
  assumes "lq_rep q cells"
  shows "\<exists>q'. enqueue_node q d = Some q' \<and> lq_rep q' (cells @ [(lq_brk q, Some d)])"
  using enqueue_node_push[OF assms, of d] lq_push_rep[OF assms, of "Some d"] by auto

lemma consume_chain_seg:
  assumes "lq_seg h p cells None" "distinct (map fst cells)"
  shows "\<exists>h'. consume_chain h (lq_head cells) = Some (map snd cells, h')"
  using assms
proof (induction cells arbitrary: h p)
  case Nil
  then show ?case by (subst consume_chain.simps) simp
next
  case (Cons c cells)
  obtain a d where c: "c = (a, d)" by force
  have "lq_seg (h(a := None)) (Some a) cells None" using Cons.prems by (simp add: c)
  moreover have "distinct (map fst cells)" using Cons.prems(2) by simp
  ultimately obtain h' where "consume_chain (h(a := None)) (lq_head cells) = Some (map snd cells, h')"
    using Cons.IH by blast
  moreover have "h a = Some \<lparr>node_data = d, node_next = lq_head cells, node_prev = p\<rparr>"
    using Cons.prems(1) by (cases cells) (auto simp: c)
  ultimately show ?case by (subst consume_chain.simps) (simp add: c)
qed

lemma steal_chain_rep:
  assumes "lq_rep q cells"
  shows "\<exists>q'. steal_chain q = Some (map snd cells, q') \<and> lq_rep q' []"
  using consume_chain_seg[of "lq_heap q" None cells] assms by (auto simp: steal_chain_def lq_rep_def)

subsection \<open>Abstract scheduler\<close>

text \<open>What the scheduler stands for: the events of every agent known, and the agents in their turn.\<close>

record 'a bq_abs =
  ab_queues :: "cstring \<rightharpoonup> 'a list"
  ab_ring :: "cstring list"
  ab_items :: nat

definition next_of :: "'a rr_queue \<Rightarrow> nat \<Rightarrow> nat option" where
  "next_of s a = Option.bind (rr_heap s a) slot_next"

text \<open>The slots \<open>rs\<close> are the ring, from the cursor on.\<close>

definition ring_rep :: "'a rr_queue \<Rightarrow> nat list \<Rightarrow> bool" where
  "ring_rep s rs \<longleftrightarrow> distinct rs \<and> ring_slots s = length rs \<and> map (next_of s) rs = map Some (rotate1 rs)
     \<and> ring_head s = (if rs = [] then None else Some (hd rs)) \<and> ring_tail s = (if rs = [] then None else Some (last rs))
     \<and> cursor s = ring_head s \<and> prev_cursor s = ring_tail s"

definition slot_rep :: "'a rr_agent_slot \<Rightarrow> cstring \<Rightarrow> 'a list \<Rightarrow> bool \<Rightarrow> bool" where
  "slot_rep sl k xs r \<longleftrightarrow> slot_key sl = k \<and> in_ring sl = r \<and> (\<exists>cells. lq_rep (slot_q sl) cells \<and> map snd cells = map Some xs)"

abbreviation slot_of :: "'a rr_queue \<Rightarrow> cstring \<Rightarrow> nat option" where
  "slot_of s \<equiv> hm_map (agent_index s)"

definition bq_rel :: "'a rr_queue \<Rightarrow> 'a bq_abs \<Rightarrow> bool" where
  "bq_rel s A \<longleftrightarrow> hm_inv (agent_index s) \<and> dom (slot_of s) = dom (ab_queues A)
     \<and> set (ab_ring A) \<subseteq> dom (slot_of s) \<and> ring_rep s (map (the \<circ> slot_of s) (ab_ring A))
     \<and> (\<forall>k a xs. slot_of s k = Some a \<longrightarrow> ab_queues A k = Some xs \<longrightarrow>
          (\<exists>sl. rr_heap s a = Some sl \<and> slot_rep sl k xs (k \<in> set (ab_ring A))))
     \<and> (\<forall>a. rr_heap s a \<noteq> None \<longrightarrow> a < rr_brk s) \<and> items_global s = ab_items A"

lemma with_slot_simps [simp]:
  "rr_heap s a = Some sl \<Longrightarrow> with_slot a f s = Some (s\<lparr>rr_heap := (rr_heap s)(a \<mapsto> f sl)\<rparr>)"
  by (simp add: with_slot_def)

lemma next_of_upd:
  "next_of (s\<lparr>rr_heap := h\<rparr>) a = Option.bind (h a) slot_next"
  by (simp add: next_of_def)

lemma ring_next:
  assumes "ring_rep s rs" "a \<in> set rs"
  shows "next_of s a \<noteq> None" "\<exists>sl. rr_heap s a = Some sl"
proof -
  have "next_of s a \<in> set (map Some (rotate1 rs))" using assms unfolding ring_rep_def by (metis imageI list.set_map)
  then show "next_of s a \<noteq> None" by auto
  then show "\<exists>sl. rr_heap s a = Some sl" by (cases "rr_heap s a") (simp_all add: next_of_def)
qed

text \<open>Slots that differ in their links only, but for the membership of slot \<open>a\<close>, and the rest of the state.\<close>

definition relinked :: "nat \<Rightarrow> bool \<Rightarrow> 'a rr_queue \<Rightarrow> 'a rr_queue \<Rightarrow> bool" where
  "relinked a r s s' \<longleftrightarrow>
     (\<forall>b. case rr_heap s b of
        None \<Rightarrow> rr_heap s' b = None
      | Some sl \<Rightarrow> (\<exists>sl'. rr_heap s' b = Some sl' \<and> slot_key sl' = slot_key sl \<and> slot_q sl' = slot_q sl
          \<and> in_ring sl' = (if b = a then r else in_ring sl)))
     \<and> agent_index s' = agent_index s \<and> rr_brk s' = rr_brk s \<and> max_items_global s' = max_items_global s
     \<and> max_items_per_agent s' = max_items_per_agent s \<and> items_global s' = items_global s \<and> rr_dispose s' = rr_dispose s"

lemma relinked_slot:
  assumes "relinked a r s s'"
  shows "rr_heap s b = Some sl \<Longrightarrow> \<exists>sl'. rr_heap s' b = Some sl' \<and> slot_key sl' = slot_key sl \<and> slot_q sl' = slot_q sl
      \<and> in_ring sl' = (if b = a then r else in_ring sl)"
    and "rr_heap s b = None \<Longrightarrow> rr_heap s' b = None"
proof -
  from assms have "case rr_heap s b of
      None \<Rightarrow> rr_heap s' b = None
    | Some sl \<Rightarrow> (\<exists>sl'. rr_heap s' b = Some sl' \<and> slot_key sl' = slot_key sl \<and> slot_q sl' = slot_q sl
        \<and> in_ring sl' = (if b = a then r else in_ring sl))"
    unfolding relinked_def by blast
  then show "rr_heap s b = Some sl \<Longrightarrow> \<exists>sl'. rr_heap s' b = Some sl' \<and> slot_key sl' = slot_key sl \<and> slot_q sl' = slot_q sl
      \<and> in_ring sl' = (if b = a then r else in_ring sl)"
    and "rr_heap s b = None \<Longrightarrow> rr_heap s' b = None" by simp_all
qed

text \<open>Joining the ring at its end.\<close>

lemma ring_append_rep:
  assumes "ring_rep s rs" "a \<notin> set rs" "rr_heap s a = Some sl"
  shows "\<exists>s'. ring_append s a = Some s' \<and> ring_rep s' (rs @ [a]) \<and> relinked a True s s'"
proof (cases rs rule: rev_cases)
  case Nil
  define s' where "s' = s\<lparr>ring_head := Some a, ring_tail := Some a, cursor := Some a, prev_cursor := Some a,
    rr_heap := (rr_heap s)(a \<mapsto> sl\<lparr>slot_next := Some a, in_ring := True\<rparr>), ring_slots := ring_slots s + 1\<rparr>"
  have "ring_append s a = Some s'" using assms Nil by (simp add: ring_append_def ring_rep_def s'_def)
  moreover have "ring_rep s' (rs @ [a])" using assms Nil by (simp add: ring_rep_def next_of_def s'_def)
  moreover have "relinked a True s s'" using assms(3) by (simp add: relinked_def s'_def split: option.split)
  ultimately show ?thesis by blast
next
  case (snoc us t)
  obtain st where st: "rr_heap s t = Some st" using ring_next(2)[OF assms(1), of t] snoc by auto
  have ta: "t \<noteq> a" using assms(2) snoc by auto
  obtain h rest where hd: "rs = h # rest" by (metis append_is_Nil_conv list.exhaust not_Cons_self2 snoc)
  define s' where "s' = s\<lparr>rr_heap := (rr_heap s)(a \<mapsto> sl\<lparr>slot_next := Some h, in_ring := True\<rparr>, t \<mapsto> st\<lparr>slot_next := Some a\<rparr>),
    ring_tail := Some a, prev_cursor := Some a, ring_slots := ring_slots s + 1\<rparr>"
  have ends: "rs \<noteq> []" "List.hd rs = h" "last rs = t" by (simp add: snoc, simp add: hd, simp add: snoc)
  have fields: "ring_head s = Some h" "ring_tail s = Some t" "cursor s = Some h" "prev_cursor s = Some t"
    "ring_slots s = length rs" "distinct rs"
    using assms(1) ends by (simp_all add: ring_rep_def)
  have run: "ring_append s a = Some s'"
    using fields assms(3) st ta unfolding s'_def by (simp add: ring_append_def Let_def fun_upd_twist)
  have "map (next_of s) rs = map Some (rotate1 rs)" using assms(1) by (simp add: ring_rep_def)
  moreover have "map (next_of s) rs = map (next_of s) us @ [next_of s t]" by (simp add: snoc)
  moreover have "map Some (rotate1 rs) = map Some rest @ [Some h]" by (simp add: hd)
  ultimately have us: "map (next_of s) us = map Some rest" by simp
  have "t \<notin> set us" "a \<notin> set us" using fields(6) assms(2) by (simp_all add: snoc)
  then have "map (next_of s') us = map (next_of s) us" by (intro map_cong) (auto simp: next_of_def s'_def)
  moreover have "next_of s' t = Some a" "next_of s' a = Some h" using ta by (simp_all add: next_of_def s'_def)
  ultimately have "map (next_of s') (us @ [t] @ [a]) = map Some (rest @ [a, h])" using us by simp
  moreover have "rs @ [a] = us @ [t] @ [a]" by (simp add: snoc)
  moreover have "rotate1 (rs @ [a]) = rest @ [a, h]" by (simp add: hd)
  ultimately have "map (next_of s') (rs @ [a]) = map Some (rotate1 (rs @ [a]))" by simp
  then have "ring_rep s' (rs @ [a])" using fields ends assms(2) unfolding ring_rep_def by (simp add: s'_def)
  moreover have "relinked a True s s'" using assms(3) st ta by (simp add: relinked_def s'_def split: option.split)
  ultimately show ?thesis using run by blast
qed

lemma rotate1_links:
  assumes "map f (a # us @ [t]) = map Some (rotate1 (a # us @ [t]))"
  shows "f a = Some (hd (us @ [t]))" "map f us = map Some (tl (us @ [t]))" "f t = Some a"
proof -
  have eq: "f a # map f us @ [f t] = map Some (us @ [t]) @ [Some a]" using assms by simp
  then have "f a # map f us = map Some (us @ [t])" "f t = Some a" by (simp_all flip: append.simps(2) add: append_eq_append_conv)
  then show "f a = Some (hd (us @ [t]))" "map f us = map Some (tl (us @ [t]))" "f t = Some a"
    by (cases us; simp)+
qed

text \<open>Taking the first slot out, as the consumer does after moving the cursor.\<close>

lemma ring_remove_head:
  assumes "ring_rep s (a # rs)" "rr_heap s a = Some sl" "p = last (a # rs)"
  shows "\<exists>s'. ring_remove_node (s\<lparr>cursor := slot_next sl, prev_cursor := Some p\<rparr>) a (Some p) = Some s'
    \<and> ring_rep s' rs \<and> relinked a False s s'"
proof (cases rs rule: rev_cases)
  case Nil
  define s' where "s' = s\<lparr>ring_head := None, ring_tail := None, cursor := None, prev_cursor := None, ring_slots := 0,
    rr_heap := (rr_heap s)(a \<mapsto> sl\<lparr>in_ring := False, slot_next := None\<rparr>)\<rparr>"
  have "ring_remove_node (s\<lparr>cursor := slot_next sl, prev_cursor := Some p\<rparr>) a (Some p) = Some s'"
    using assms Nil by (simp add: ring_remove_node_def ring_rep_def s'_def)
  moreover have "ring_rep s' rs" using Nil by (simp add: ring_rep_def s'_def)
  moreover have "relinked a False s s'" using assms(2) by (simp add: relinked_def s'_def split: option.split)
  ultimately show ?thesis by blast
next
  case (snoc us t)
  have d: "distinct (a # us @ [t])" and links: "map (next_of s) (a # us @ [t]) = map Some (rotate1 (a # us @ [t]))"
    using assms(1) by (simp_all add: ring_rep_def snoc)
  note l = rotate1_links[OF links]
  have na: "slot_next sl = Some (hd rs)" using l(1) assms(2) by (simp add: next_of_def snoc)
  obtain st where st: "rr_heap s t = Some st" using ring_next(2)[OF assms(1), of t] by (auto simp: snoc)
  have ne: "t \<noteq> a" "hd rs \<noteq> a" "p = t" using d assms(3) by (auto simp: snoc hd_append)
  define s' where "s' = s\<lparr>rr_heap := (rr_heap s)(t \<mapsto> st\<lparr>slot_next := Some (hd rs)\<rparr>, a \<mapsto> sl\<lparr>in_ring := False, slot_next := None\<rparr>),
    ring_head := Some (hd rs), cursor := Some (hd rs), prev_cursor := Some t, ring_slots := length rs\<rparr>"
  have fields: "ring_head s = Some a" "ring_tail s = Some t" "ring_slots s = Suc (length rs)"
    using assms(1) by (simp_all add: ring_rep_def snoc)
  have "ring_remove_node (s\<lparr>cursor := slot_next sl, prev_cursor := Some p\<rparr>) a (Some p) = Some s'"
    using fields st ne assms(2) na by (simp add: ring_remove_node_def s'_def Let_def)
  moreover have "ring_rep s' rs"
  proof -
    have "map (next_of s') us = map (next_of s) us" using d by (intro map_cong) (auto simp: next_of_def s'_def)
    then have "map (next_of s') us = map Some (tl rs)" using l(2) by (simp add: snoc)
    moreover have "next_of s' t = Some (hd rs)" using ne by (simp add: next_of_def s'_def)
    moreover have "rotate1 rs = tl rs @ [hd rs]" by (cases rs) (simp_all add: snoc)
    ultimately have "map (next_of s') rs = map Some (rotate1 rs)" using snoc by (metis list.map(1,2) map_append)
    moreover have "rs \<noteq> []" "last rs = t" "distinct rs" using d by (simp_all add: snoc)
    ultimately show ?thesis unfolding ring_rep_def using fields by (simp add: s'_def)
  qed
  moreover have "relinked a False s s'" using assms(2) st ne by (simp add: relinked_def s'_def split: option.split)
  ultimately show ?thesis by blast
qed

subsection \<open>Simulation\<close>

lemma bq_relD:
  assumes "bq_rel s A"
  shows bq_rel_inv: "hm_inv (agent_index s)" and bq_rel_dom: "dom (slot_of s) = dom (ab_queues A)"
    and bq_rel_ring: "set (ab_ring A) \<subseteq> dom (slot_of s)" "ring_rep s (map (the \<circ> slot_of s) (ab_ring A))"
    and bq_rel_fresh: "rr_heap s b \<noteq> None \<Longrightarrow> b < rr_brk s" and bq_rel_items: "items_global s = ab_items A"
  using assms unfolding bq_rel_def by blast+

lemma bq_rel_slot:
  assumes "bq_rel s A" "slot_of s k = Some a"
  obtains xs sl where "ab_queues A k = Some xs" "rr_heap s a = Some sl" "slot_rep sl k xs (k \<in> set (ab_ring A))"
proof -
  have "k \<in> dom (ab_queues A)" using assms(2) bq_rel_dom[OF assms(1)] by blast
  then obtain xs where "ab_queues A k = Some xs" by blast
  with assms that show thesis unfolding bq_rel_def by blast
qed

lemma bq_rel_inj:
  assumes "bq_rel s A" "slot_of s k = Some a" "slot_of s k' = Some a"
  shows "k = k'"
proof -
  obtain sl xs where "rr_heap s a = Some sl" "slot_rep sl k xs (k \<in> set (ab_ring A))" by (rule bq_rel_slot[OF assms(1,2)])
  moreover obtain sl' xs' where "rr_heap s a = Some sl'" "slot_rep sl' k' xs' (k' \<in> set (ab_ring A))"
    by (rule bq_rel_slot[OF assms(1,3)])
  ultimately show ?thesis by (simp add: slot_rep_def)
qed

text \<open>A change of the ring alone.\<close>

lemma bq_rel_relinked:
  assumes rel: "bq_rel s A" and r: "relinked a r s s'" and k: "slot_of s k = Some a"
    and rr: "ring_rep s' (map (the \<circ> slot_of s) ring)" "set ring - {k} = set (ab_ring A) - {k}" "k \<in> set ring \<longleftrightarrow> r"
  shows "bq_rel s' (A\<lparr>ab_ring := ring\<rparr>)"
proof -
  have idx: "agent_index s' = agent_index s" and rest: "rr_brk s' = rr_brk s" "items_global s' = items_global s"
    using r by (simp_all add: relinked_def)
  have slots: "\<exists>sl'. rr_heap s' b = Some sl' \<and> slot_rep sl' j xs (j \<in> set ring)"
    if j: "slot_of s j = Some b" "ab_queues A j = Some xs" for j b xs
  proof -
    obtain sl where sl: "rr_heap s b = Some sl" "slot_rep sl j xs (j \<in> set (ab_ring A))"
      using bq_rel_slot[OF rel j(1)] j(2) by auto
    obtain sl' where sl': "rr_heap s' b = Some sl'" "slot_key sl' = slot_key sl" "slot_q sl' = slot_q sl"
        "in_ring sl' = (if b = a then r else in_ring sl)"
      using relinked_slot(1)[OF r sl(1)] by blast
    have "in_ring sl' = (j \<in> set ring)"
    proof (cases "j = k")
      case True
      then show ?thesis using sl'(4) k j(1) rr(3) by simp
    next
      case False
      then have "b \<noteq> a" using bq_rel_inj[OF rel j(1)] k by blast
      moreover have "j \<in> set ring \<longleftrightarrow> j \<in> set (ab_ring A)" using rr(2) False by blast
      ultimately show ?thesis using sl'(4) sl(2) by (simp add: slot_rep_def)
    qed
    with sl' sl(2) show ?thesis by (simp add: slot_rep_def)
  qed
  have heap: "rr_heap s' b \<noteq> None \<Longrightarrow> rr_heap s b \<noteq> None" for b
    using relinked_slot(2)[OF r, of b] by metis
  have "k \<in> dom (slot_of s)" using k by blast
  with bq_rel_ring(1)[OF rel] rr(2) have "set ring \<subseteq> dom (slot_of s)" by blast
  then show ?thesis
    unfolding bq_rel_def idx rest
    using bq_rel_inv[OF rel] bq_rel_dom[OF rel] rr(1) slots heap bq_rel_fresh[OF rel] bq_rel_items[OF rel] by simp
qed

lemma enqueue_join_sim:
  assumes rel: "bq_rel s A" and k: "slot_of s key = Some a"
  shows "\<exists>s'. enqueue_join key a s = Some (key \<notin> set (ab_ring A), s') \<and> slot_of s' = slot_of s
    \<and> max_items_global s' = max_items_global s \<and> max_items_per_agent s' = max_items_per_agent s
    \<and> bq_rel s' (if key \<in> set (ab_ring A) then A else A\<lparr>ab_ring := ab_ring A @ [key]\<rparr>)"
proof -
  obtain xs sl where sl: "ab_queues A key = Some xs" "rr_heap s a = Some sl" "slot_rep sl key xs (key \<in> set (ab_ring A))"
    by (rule bq_rel_slot[OF rel k])
  have found: "hm_get (agent_index s) key = Some (Some a)" using hm.get_abs[OF bq_rel_inv[OF rel]] k by simp
  show ?thesis
  proof (cases "key \<in> set (ab_ring A)")
    case True
    then show ?thesis using found sl rel by (simp add: enqueue_join_def slot_rep_def)
  next
    case False
    have "a \<notin> set (map (the \<circ> slot_of s) (ab_ring A))"
      using bq_rel_ring(1)[OF rel] bq_rel_inj[OF rel k] False by (force simp: subset_iff)
    from ring_append_rep[OF bq_rel_ring(2)[OF rel] this sl(2)] obtain s' where
      s': "ring_append s a = Some s'" "ring_rep s' (map (the \<circ> slot_of s) (ab_ring A) @ [a])" "relinked a True s s'"
      by blast
    have "bq_rel s' (A\<lparr>ab_ring := ab_ring A @ [key]\<rparr>)"
      by (rule bq_rel_relinked[OF rel s'(3) k]) (use s'(2) k in auto)
    with False found sl s'(1,3) show ?thesis by (simp add: enqueue_join_def slot_rep_def relinked_def)
  qed
qed

lemma ring_rep_cong:
  assumes "\<And>b. b \<in> set rs \<Longrightarrow> next_of s' b = next_of s b"
    "ring_head s' = ring_head s" "ring_tail s' = ring_tail s" "cursor s' = cursor s" "prev_cursor s' = prev_cursor s"
    "ring_slots s' = ring_slots s"
  shows "ring_rep s' rs = ring_rep s rs"
proof -
  have eq: "map (next_of s') rs = map (next_of s) rs" using assms(1) by simp
  show ?thesis unfolding ring_rep_def assms(2-6) eq by (rule refl)
qed

text \<open>A change of the queue of one agent.\<close>

lemma bq_rel_set_q:
  assumes rel: "bq_rel s A" and k: "slot_of s k = Some a" and sl: "rr_heap s a = Some sl"
    and q: "lq_rep q cells" "map snd cells = map Some ys"
  shows "bq_rel (s\<lparr>rr_heap := (rr_heap s)(a \<mapsto> sl\<lparr>slot_q := q\<rparr>)\<rparr>) (A\<lparr>ab_queues := (ab_queues A)(k \<mapsto> ys)\<rparr>)"
proof -
  let ?s = "s\<lparr>rr_heap := (rr_heap s)(a \<mapsto> sl\<lparr>slot_q := q\<rparr>)\<rparr>"
  have ring: "ring_rep ?s (map (the \<circ> slot_of s) (ab_ring A))"
    using bq_rel_ring(2)[OF rel] by (subst ring_rep_cong[of _ _ s]) (auto simp: next_of_def sl)
  have slots: "\<exists>sl'. rr_heap ?s b = Some sl' \<and> slot_rep sl' j xs (j \<in> set (ab_ring A))"
    if j: "slot_of s j = Some b" "((ab_queues A)(k \<mapsto> ys)) j = Some xs" for j b xs
  proof (cases "j = k")
    case True
    obtain xs' sl' where "rr_heap s a = Some sl'" "slot_rep sl' k xs' (k \<in> set (ab_ring A))" by (rule bq_rel_slot[OF rel k])
    then have "slot_rep (sl\<lparr>slot_q := q\<rparr>) k ys (k \<in> set (ab_ring A))" using sl q by (auto simp: slot_rep_def)
    then show ?thesis using True j k by simp
  next
    case False
    then have ba: "b \<noteq> a" using bq_rel_inj[OF rel j(1)] k by blast
    obtain xs' sl' where "ab_queues A j = Some xs'" "rr_heap s b = Some sl'" "slot_rep sl' j xs' (j \<in> set (ab_ring A))"
      by (rule bq_rel_slot[OF rel j(1)])
    then show ?thesis using ba False j(2) by simp
  qed
  have "dom ((ab_queues A)(k \<mapsto> ys)) = dom (slot_of s)" using k bq_rel_dom[OF rel] by auto
  moreover have "b < rr_brk s" if "rr_heap ?s b \<noteq> None" for b
    using that sl bq_rel_fresh[OF rel, of b] by (cases "b = a") auto
  ultimately show ?thesis
    unfolding bq_rel_def using bq_rel_inv[OF rel] bq_rel_ring(1)[OF rel] bq_rel_items[OF rel] ring slots by simp
qed

text \<open>A new agent.\<close>

lemma make_slot_sim:
  assumes rel: "bq_rel s A" and k: "slot_of s k = None"
  shows "\<exists>index. hm_put (agent_index s) k (rr_brk s) = Some (False, index)
    \<and> bq_rel ((snd (make_slot k s))\<lparr>agent_index := index\<rparr>) (A\<lparr>ab_queues := (ab_queues A)(k \<mapsto> [])\<rparr>)
    \<and> hm_map index = (slot_of s)(k \<mapsto> rr_brk s)"
proof -
  obtain index where i: "hm_put (agent_index s) k (rr_brk s) = Some (False, index)" "hm_inv index"
      "hm_map index = (slot_of s)(k \<mapsto> rr_brk s)"
    using hm.put_abs[OF bq_rel_inv[OF rel], of k "rr_brk s"] k by auto
  let ?s = "(snd (make_slot k s))\<lparr>agent_index := index\<rparr>"
  have kr: "k \<notin> set (ab_ring A)" using k bq_rel_ring(1)[OF rel] by auto
  have fresh: "rr_heap s (rr_brk s) = None" using bq_rel_fresh[OF rel, of "rr_brk s"] by (metis less_irrefl)
  have same: "map (the \<circ> hm_map index) (ab_ring A) = map (the \<circ> slot_of s) (ab_ring A)"
    using kr i(3) by (intro map_cong) auto
  have "ring_rep ?s (map (the \<circ> slot_of s) (ab_ring A))"
  proof (subst ring_rep_cong[of _ _ s])
    show "next_of ?s b = next_of s b" if "b \<in> set (map (the \<circ> slot_of s) (ab_ring A))" for b
      using ring_next(2)[OF bq_rel_ring(2)[OF rel] that] fresh by (auto simp: next_of_def make_slot_def)
  qed (use bq_rel_ring(2)[OF rel] in \<open>simp_all add: make_slot_def\<close>)
  moreover have "\<exists>sl'. rr_heap ?s b = Some sl' \<and> slot_rep sl' j xs (j \<in> set (ab_ring A))"
    if j: "hm_map index j = Some b" "((ab_queues A)(k \<mapsto> [])) j = Some xs" for j b xs
  proof (cases "j = k")
    case True
    have "lq_rep linked_queue_init []" by (simp add: lq_rep_def linked_queue_init_def)
    then show ?thesis using True j i(3) kr by (simp add: make_slot_def slot_rep_def)
  next
    case False
    then have jb: "slot_of s j = Some b" using j(1) i(3) by simp
    obtain xs' sl' where "ab_queues A j = Some xs'" "rr_heap s b = Some sl'" "slot_rep sl' j xs' (j \<in> set (ab_ring A))"
      by (rule bq_rel_slot[OF rel jb])
    then show ?thesis using False j(2) fresh by (auto simp: make_slot_def)
  qed
  moreover have "dom (hm_map index) = dom ((ab_queues A)(k \<mapsto> []))" using i(3) bq_rel_dom[OF rel] by simp
  moreover have "b < rr_brk ?s" if "rr_heap ?s b \<noteq> None" for b
    using that bq_rel_fresh[OF rel, of b] by (cases "b = rr_brk s") (auto simp: make_slot_def)
  moreover have "items_global ?s = ab_items A" using bq_rel_items[OF rel] by (simp add: make_slot_def)
  moreover have "set (ab_ring A) \<subseteq> dom (hm_map index)" using bq_rel_ring(1)[OF rel] i(3) by auto
  ultimately have "bq_rel ?s (A\<lparr>ab_queues := (ab_queues A)(k \<mapsto> [])\<rparr>)"
    unfolding bq_rel_def using i(2) by (simp add: same del: map_eq_conv map_map)
  with i show ?thesis by blast
qed

definition ab_queue :: "'a bq_abs \<Rightarrow> cstring \<Rightarrow> 'a list" where
  "ab_queue A k = (case ab_queues A k of None \<Rightarrow> [] | Some xs \<Rightarrow> xs)"

lemma enqueue_slot_sim:
  assumes rel: "bq_rel s A" and k: "slot_of s key = Some a" and len: "length (ab_queue A key) < 2 ^ 32"
  shows "\<exists>sl q. rr_heap s a = Some sl \<and> (lq_elements (slot_q sl) = 0 \<longleftrightarrow> ab_queue A key = [])
    \<and> unat (lq_elements (slot_q sl)) = length (ab_queue A key) \<and> enqueue_node (slot_q sl) data = Some q
    \<and> bq_rel (s\<lparr>rr_heap := (rr_heap s)(a \<mapsto> sl\<lparr>slot_q := q\<rparr>)\<rparr>)
        (A\<lparr>ab_queues := (ab_queues A)(key \<mapsto> ab_queue A key @ [data])\<rparr>)"
proof -
  obtain xs sl where sl: "ab_queues A key = Some xs" "rr_heap s a = Some sl" "slot_rep sl key xs (key \<in> set (ab_ring A))"
    by (rule bq_rel_slot[OF rel k])
  obtain cells where cells: "lq_rep (slot_q sl) cells" "map snd cells = map Some xs" using sl(3) by (auto simp: slot_rep_def)
  have n: "length cells = length xs" using cells(2) by (metis length_map)
  have xs: "ab_queue A key = xs" using sl(1) by (simp add: ab_queue_def)
  have u: "unat (lq_elements (slot_q sl)) = length xs"
    using cells(1) n len xs by (simp add: lq_rep_def unat_of_nat take_bit_eq_mod)
  then have z: "lq_elements (slot_q sl) = 0 \<longleftrightarrow> xs = []" by (metis length_0_conv unat_0 unat_eq_zero)
  obtain q where q: "enqueue_node (slot_q sl) data = Some q" "lq_rep q (cells @ [(lq_brk (slot_q sl), Some data)])"
    using enqueue_node_rep[OF cells(1)] by blast
  have "bq_rel (s\<lparr>rr_heap := (rr_heap s)(a \<mapsto> sl\<lparr>slot_q := q\<rparr>)\<rparr>) (A\<lparr>ab_queues := (ab_queues A)(key \<mapsto> xs @ [data])\<rparr>)"
    using cells(2) by (intro bq_rel_set_q[OF rel k sl(2) q(2)]) simp
  with u z q(1) sl(2) xs show ?thesis by auto
qed

text \<open>Storing an event: what the abstract scheduler does.\<close>

definition ab_store :: "nat \<Rightarrow> cstring \<Rightarrow> 'a \<Rightarrow> 'a bq_abs \<Rightarrow> bool \<times> 'a bq_abs" where
  "ab_store limit key data A =
     (let full = (limit \<noteq> 0 \<and> length (ab_queue A key) \<ge> limit)
      in (full, A\<lparr>ab_queues := (ab_queues A)(key \<mapsto> (if full then ab_queue A key else ab_queue A key @ [data]))\<rparr>))"

lemma enqueue_found_sim:
  assumes rel: "bq_rel s A" and k: "slot_of s key = Some a" and len: "length (ab_queue A key) < 2 ^ 32"
  shows "\<exists>s'. enqueue_store key data s = Some (if fst (ab_store (max_items_per_agent s) key data A) then No_space
        else Stored a (ab_queue A key = []), s')
    \<and> bq_rel s' (snd (ab_store (max_items_per_agent s) key data A)) \<and> slot_of s' = slot_of s
    \<and> max_items_global s' = max_items_global s \<and> max_items_per_agent s' = max_items_per_agent s"
proof -
  obtain sl q where sl: "rr_heap s a = Some sl" "lq_elements (slot_q sl) = 0 \<longleftrightarrow> ab_queue A key = []"
      "unat (lq_elements (slot_q sl)) = length (ab_queue A key)" "enqueue_node (slot_q sl) data = Some q"
      "bq_rel (s\<lparr>rr_heap := (rr_heap s)(a \<mapsto> sl\<lparr>slot_q := q\<rparr>)\<rparr>)
        (A\<lparr>ab_queues := (ab_queues A)(key \<mapsto> ab_queue A key @ [data])\<rparr>)"
    using enqueue_slot_sim[OF assms] by blast
  have found: "hm_get (agent_index s) key = Some (Some a)" using hm.get_abs[OF bq_rel_inv[OF rel]] k by simp
  have "ab_queues A key \<noteq> None" using k bq_rel_dom[OF rel] by auto
  then have "(ab_queues A)(key \<mapsto> ab_queue A key) = ab_queues A" by (auto simp: ab_queue_def)
  then have same: "A\<lparr>ab_queues := (ab_queues A)(key \<mapsto> ab_queue A key)\<rparr> = A" by simp
  show ?thesis
    using sl found rel same by (simp add: enqueue_store_def ab_store_def Let_def)
qed

lemma enqueue_store_sim:
  assumes rel: "bq_rel s A" and len: "length (ab_queue A key) < 2 ^ 32"
  shows "\<exists>s' a. enqueue_store key data s = Some (if fst (ab_store (max_items_per_agent s) key data A) then No_space
        else Stored a (ab_queue A key = []), s')
    \<and> bq_rel s' (snd (ab_store (max_items_per_agent s) key data A)) \<and> slot_of s' key = Some a
    \<and> (\<forall>k b. slot_of s k = Some b \<longrightarrow> slot_of s' k = Some b)
    \<and> max_items_global s' = max_items_global s \<and> max_items_per_agent s' = max_items_per_agent s"
proof (cases "slot_of s key")
  case (Some a)
  with enqueue_found_sim[OF rel Some len, of data] show ?thesis by metis
next
  case None
  let ?A = "A\<lparr>ab_queues := (ab_queues A)(key \<mapsto> [])\<rparr>"
  obtain index where i: "hm_put (agent_index s) key (rr_brk s) = Some (False, index)"
      "bq_rel ((snd (make_slot key s))\<lparr>agent_index := index\<rparr>) ?A" "hm_map index = (slot_of s)(key \<mapsto> rr_brk s)"
    using make_slot_sim[OF rel None] by blast
  let ?s = "(snd (make_slot key s))\<lparr>agent_index := index\<rparr>"
  have k: "slot_of ?s key = Some (rr_brk s)" using i(3) by simp
  have "ab_queues A key = None" using None bq_rel_dom[OF rel] by blast
  then have q: "ab_queue A key = []" "ab_queue ?A key = []" by (simp_all add: ab_queue_def)
  have st: "ab_store n key data ?A = ab_store n key data A" for n by (auto simp: ab_store_def q Let_def)
  have miss: "hm_get (agent_index s) key = Some None" using hm.get_abs[OF bq_rel_inv[OF rel]] None by simp
  have hit: "hm_get index key = Some (Some (rr_brk s))" using hm.get_abs[OF bq_rel_inv[OF i(2)]] k by simp
  have eq: "enqueue_store key data s = enqueue_store key data ?s"
    using miss hit i(1) by (simp add: enqueue_store_def make_slot_def)
  have lim: "max_items_per_agent ?s = max_items_per_agent s" "max_items_global ?s = max_items_global s"
    by (simp_all add: make_slot_def)
  have "length (ab_queue ?A key) < 2 ^ 32" by (simp add: q)
  from enqueue_found_sim[OF i(2) k this, of data] obtain s' where
    s': "enqueue_store key data s = Some (if fst (ab_store (max_items_per_agent s) key data A) then No_space
        else Stored (rr_brk s) (ab_queue A key = []), s')"
      "bq_rel s' (snd (ab_store (max_items_per_agent s) key data A))" "slot_of s' = slot_of ?s"
      "max_items_global s' = max_items_global s" "max_items_per_agent s' = max_items_per_agent s"
    unfolding eq lim st q by blast
  have "slot_of s' = (slot_of s)(key \<mapsto> rr_brk s)" using s'(3) i(3) by simp
  then show ?thesis using s' None by (intro exI[of _ s'] exI[of _ "rr_brk s"]) auto
qed

lemma drain_take_sim:
  assumes rel: "bq_rel s A"
  shows "ab_ring A = [] \<Longrightarrow> drain_take s = Some (Waits s)"
    and "ab_ring A = k # r \<Longrightarrow> \<exists>s'. drain_take s = Some (Returns (ab_queue A k, k) s')
      \<and> bq_rel s' (A\<lparr>ab_queues := (ab_queues A)(k \<mapsto> []), ab_ring := r\<rparr>) \<and> slot_of s' = slot_of s
      \<and> max_items_global s' = max_items_global s \<and> max_items_per_agent s' = max_items_per_agent s"
proof -
  note rr = bq_rel_ring[OF rel]
  show "ab_ring A = [] \<Longrightarrow> drain_take s = Some (Waits s)" using rr(2) by (simp add: drain_take_def ring_rep_def)
  assume ring: "ab_ring A = k # r"
  obtain a where a: "slot_of s k = Some a" using rr(1) ring by auto
  let ?rs = "map (the \<circ> slot_of s) r"
  have rr': "ring_rep s (a # ?rs)" using rr(2) ring a by simp
  obtain xs sl where sl: "ab_queues A k = Some xs" "rr_heap s a = Some sl" "slot_rep sl k xs (k \<in> set (ab_ring A))"
    by (rule bq_rel_slot[OF rel a])
  define p where "p = last (a # ?rs)"
  obtain s1 where s1: "ring_remove_node (s\<lparr>cursor := slot_next sl, prev_cursor := Some p\<rparr>) a (Some p) = Some s1"
      "ring_rep s1 ?rs" "relinked a False s s1"
    using ring_remove_head[OF rr' sl(2) p_def] by blast
  have kr: "k \<notin> set r"
  proof
    assume "k \<in> set r"
    then have "a \<in> set ?rs" using a by force
    then show False using rr' by (simp add: ring_rep_def)
  qed
  have rel1: "bq_rel s1 (A\<lparr>ab_ring := r\<rparr>)"
    by (rule bq_rel_relinked[OF rel s1(3) a]) (use s1(2) ring kr in auto)
  obtain sl1 where sl1: "rr_heap s1 a = Some sl1" "slot_key sl1 = k" "slot_q sl1 = slot_q sl"
    using relinked_slot(1)[OF s1(3) sl(2)] sl(3) by (auto simp: slot_rep_def)
  obtain cells where cells: "lq_rep (slot_q sl) cells" "map snd cells = map Some xs" using sl(3) by (auto simp: slot_rep_def)
  obtain q where q: "steal_chain (slot_q sl) = Some (map snd cells, q)" "lq_rep q []" using steal_chain_rep[OF cells(1)] by blast
  have idx: "slot_of s1 = slot_of s" using s1(3) by (simp add: relinked_def)
  have cur: "cursor s = Some a" "prev_cursor s = Some p" using rr' by (simp_all add: ring_rep_def p_def)
  have "drain_take s = Some (Returns (map the (map snd cells), k) (s1\<lparr>rr_heap := (rr_heap s1)(a \<mapsto> sl1\<lparr>slot_q := q\<rparr>)\<rparr>))"
    using cur sl(2) s1(1) sl1 q(1) by (simp add: drain_take_def)
  then have take: "drain_take s = Some (Returns (ab_queue A k, k) (s1\<lparr>rr_heap := (rr_heap s1)(a \<mapsto> sl1\<lparr>slot_q := q\<rparr>)\<rparr>))"
    unfolding cells(2) by (simp add: comp_def ab_queue_def sl(1))
  have "bq_rel (s1\<lparr>rr_heap := (rr_heap s1)(a \<mapsto> sl1\<lparr>slot_q := q\<rparr>)\<rparr>)
      ((A\<lparr>ab_ring := r\<rparr>)\<lparr>ab_queues := (ab_queues (A\<lparr>ab_ring := r\<rparr>))(k \<mapsto> [])\<rparr>)"
    using a idx by (intro bq_rel_set_q[OF rel1 _ sl1(1) q(2)]) simp_all
  then have "bq_rel (s1\<lparr>rr_heap := (rr_heap s1)(a \<mapsto> sl1\<lparr>slot_q := q\<rparr>)\<rparr>)
      (A\<lparr>ab_queues := (ab_queues A)(k \<mapsto> []), ab_ring := r\<rparr>)" by (cases A) simp
  moreover have "max_items_global s1 = max_items_global s" "max_items_per_agent s1 = max_items_per_agent s"
    using s1(3) by (simp_all add: relinked_def)
  ultimately show "\<exists>s'. drain_take s = Some (Returns (ab_queue A k, k) s')
      \<and> bq_rel s' (A\<lparr>ab_queues := (ab_queues A)(k \<mapsto> []), ab_ring := r\<rparr>) \<and> slot_of s' = slot_of s
      \<and> max_items_global s' = max_items_global s \<and> max_items_per_agent s' = max_items_per_agent s"
    using take idx by (intro exI[of _ "s1\<lparr>rr_heap := (rr_heap s1)(a \<mapsto> sl1\<lparr>slot_q := q\<rparr>)\<rparr>"]) simp
qed

text \<open>The events an agent has waiting.\<close>

definition agent_events :: "'a rr_queue \<Rightarrow> cstring \<Rightarrow> 'a list option" where
  "agent_events s key =
     do {
       found \<leftarrow> hm_get (agent_index s) key;
       (case found of
          None \<Rightarrow> Some []
        | Some a \<Rightarrow> do { sl \<leftarrow> rr_heap s a; (ds, _) \<leftarrow> steal_chain (slot_q sl); Some (map the ds) })
     }"

lemma agent_events_sim:
  assumes rel: "bq_rel s A"
  shows "agent_events s k = Some (ab_queue A k)"
proof (cases "slot_of s k")
  case None
  then have "ab_queues A k = None" using bq_rel_dom[OF rel] by blast
  then show ?thesis using None hm.get_abs[OF bq_rel_inv[OF rel], of k] by (simp add: agent_events_def ab_queue_def)
next
  case (Some a)
  obtain xs sl where sl: "ab_queues A k = Some xs" "rr_heap s a = Some sl" "slot_rep sl k xs (k \<in> set (ab_ring A))"
    by (rule bq_rel_slot[OF rel Some])
  obtain cells where cells: "lq_rep (slot_q sl) cells" "map snd cells = map Some xs" using sl(3) by (auto simp: slot_rep_def)
  have "agent_events s k = Some (map the (map snd cells))"
    using hm.get_abs[OF bq_rel_inv[OF rel], of k] Some sl(2) steal_chain_rep[OF cells(1)] by (auto simp: agent_events_def)
  then show ?thesis unfolding cells(2) by (simp add: comp_def ab_queue_def sl(1))
qed

end
