(* ===== verification/Batch_System.thy ===== *)
theory Batch_System
  imports Batch_Queue
begin

text \<open>
  The producers and the consumer of the event queue, as threads whose steps interleave in any order: what
  holds of the queue then, and what the consumer gets.
\<close>

subsection \<open>Producers and the consumer\<close>

text \<open>
  Any number of producers and one consumer. Between the steps of one thread the others run: a
  producer has counted its event (and is over the limit, or not), was refused by the queue
  of the agent, or has stored it and is about to put the agent into the ring. What each step does is
  a critical section of the code, or an atomic operation. A lock that is taken before another is
  released makes the two sections one step, since what the second one protects is touched by no
  other thread in between.
\<close>

datatype 'a producer = Idle | Over 'a | Counted cstring 'a | Refused 'a | Joining cstring nat

record 'a bq_sys =
  sys_queue :: "'a rr_queue"
  producers :: "'a producer list"
  drained_items :: "nat option"

datatype 'a bq_event = Produce nat cstring 'a | Go nat | Take | Done

datatype 'a bq_output = Accepted cstring 'a | Rejected 'a | Drained cstring "'a list"

definition set_producer :: "nat \<Rightarrow> 'a producer \<Rightarrow> 'a rr_queue \<Rightarrow> 'a bq_sys \<Rightarrow> 'a bq_sys" where
  "set_producer t p s sys = sys\<lparr>sys_queue := s, producers := (producers sys)[t := p]\<rparr>"

fun go_step :: "nat \<Rightarrow> 'a producer \<Rightarrow> 'a bq_sys \<Rightarrow> ('a bq_output list \<times> 'a bq_sys) option" where
  "go_step t Idle sys = Some ([], sys)"
| "go_step t (Over d) sys = Some ([Rejected d], set_producer t Idle (snd (enqueue_undo d (sys_queue sys))) sys)"
| "go_step t (Refused d) sys = Some ([Rejected d], set_producer t Idle (snd (enqueue_undo d (sys_queue sys))) sys)"
| "go_step t (Counted k d) sys =
     do {
       (r, s) \<leftarrow> enqueue_store k d (sys_queue sys);
       Some (case r of
         Stored a need \<Rightarrow> ([Accepted k d], set_producer t (if need then Joining k a else Idle) s sys)
       | _ \<Rightarrow> ([], set_producer t (Refused d) s sys))
     }"
| "go_step t (Joining k a) sys =
     do { (_, s) \<leftarrow> enqueue_join k a (sys_queue sys); Some ([], set_producer t Idle s sys) }"

text \<open>A step of a thread that cannot take it changes nothing: a producer that is busy or absent, a consumer that waits.\<close>

fun bq_step :: "'a bq_event \<Rightarrow> 'a bq_sys \<Rightarrow> ('a bq_output list \<times> 'a bq_sys) option" where
  "bq_step (Produce t k d) sys =
     Some ([], if t < length (producers sys) \<and> producers sys ! t = Idle
       then (case enqueue_count (sys_queue sys) of (over, s) \<Rightarrow>
         set_producer t (if over then Over d else Counted k d) s sys)
       else sys)"
| "bq_step (Go t) sys = (if t < length (producers sys) then go_step t (producers sys ! t) sys else Some ([], sys))"
| "bq_step Take sys =
     (if drained_items sys \<noteq> None then Some ([], sys)
      else do {
        r \<leftarrow> drain_take (sys_queue sys);
        Some (case r of
          Waits _ \<Rightarrow> ([], sys)
        | Returns (ds, k) s \<Rightarrow> ([Drained k ds], sys\<lparr>sys_queue := s, drained_items := Some (length ds)\<rparr>))
      })"
| "bq_step Done sys =
     Some ([], case drained_items sys of
       None \<Rightarrow> sys
     | Some n \<Rightarrow> sys\<lparr>sys_queue := drain_done n (sys_queue sys), drained_items := None\<rparr>)"

text \<open>The event queue as \<^verbatim>\<open>remoted\<close> sets it up, with \<open>n\<close> producers.\<close>

definition bq_start :: "nat \<Rightarrow> nat \<Rightarrow> nat \<Rightarrow> 'a bq_sys option" where
  "bq_start n capacity per_agent =
     do {
       s \<leftarrow> batch_queue_init capacity;
       Some \<lparr>sys_queue = batch_queue_set_agent_max (batch_queue_set_dispose s True) per_agent,
         producers = replicate n Idle, drained_items = None\<rparr>
     }"

definition accepted :: "cstring \<Rightarrow> 'a bq_output list \<Rightarrow> 'a list" where
  "accepted k outs = concat (map (\<lambda>out. case out of Accepted k' d \<Rightarrow> if k' = k then [d] else [] | _ \<Rightarrow> []) outs)"

definition drained :: "cstring \<Rightarrow> 'a bq_output list \<Rightarrow> 'a list" where
  "drained k outs = concat (map (\<lambda>out. case out of Drained k' ds \<Rightarrow> if k' = k then ds else [] | _ \<Rightarrow> []) outs)"

definition turns :: "'a bq_output list \<Rightarrow> nat" where
  "turns outs = length (filter (\<lambda>out. case out of Drained _ _ \<Rightarrow> True | _ \<Rightarrow> False) outs)"

subsection \<open>Who is responsible for an agent\<close>

text \<open>
  An agent with events is in the ring, or one producer is about to put it there; never both, and never
  two producers. Agents in the ring have events.
\<close>

definition join_inv ::
    "(cstring \<rightharpoonup> nat) \<Rightarrow> (cstring \<Rightarrow> 'a list) \<Rightarrow> cstring list \<Rightarrow> 'a producer list \<Rightarrow> bool" where
  "join_inv slots queue ring ps \<longleftrightarrow> distinct ring
     \<and> (\<forall>t < length ps. \<forall>k a. ps ! t = Joining k a \<longrightarrow> slots k = Some a \<and> queue k \<noteq> [] \<and> k \<notin> set ring)
     \<and> (\<forall>t < length ps. \<forall>u < length ps. \<forall>k a b. ps ! t = Joining k a \<longrightarrow> ps ! u = Joining k b \<longrightarrow> t = u)
     \<and> (\<forall>k. queue k \<noteq> [] \<longrightarrow> k \<in> set ring \<or> (\<exists>t < length ps. \<exists>a. ps ! t = Joining k a))
     \<and> (\<forall>k \<in> set ring. queue k \<noteq> [])"

fun is_joining :: "'a producer \<Rightarrow> bool" where
  "is_joining (Joining k a) = True"
| "is_joining p = False"

lemma join_invD:
  assumes "join_inv slots queue ring ps"
  shows "distinct ring"
    and "t < length ps \<Longrightarrow> ps ! t = Joining k a \<Longrightarrow> slots k = Some a \<and> queue k \<noteq> [] \<and> k \<notin> set ring"
    and "t < length ps \<Longrightarrow> u < length ps \<Longrightarrow> ps ! t = Joining k a \<Longrightarrow> ps ! u = Joining k b \<Longrightarrow> t = u"
    and "queue k \<noteq> [] \<Longrightarrow> k \<in> set ring \<or> (\<exists>t < length ps. \<exists>a. ps ! t = Joining k a)"
    and "k \<in> set ring \<Longrightarrow> queue k \<noteq> []"
  using assms unfolding join_inv_def by blast+

lemma upd_nth_eq: "t < length ps \<Longrightarrow> ps[t := p] ! u = Joining k a \<longleftrightarrow> (if u = t then p = Joining k a else ps ! u = Joining k a)"
  by (simp add: nth_list_update)

lemma join_inv_quiet:
  assumes inv: "join_inv slots queue ring ps" and t: "t < length ps" "\<not> is_joining (ps ! t)" "\<not> is_joining p"
    and same: "\<And>k. queue' k = [] \<longleftrightarrow> queue k = []" and slots: "\<And>k a. slots k = Some a \<Longrightarrow> slots' k = Some a"
  shows "join_inv slots' queue' ring (ps[t := p])"
proof -
  have eq: "ps[t := p] ! u = Joining k a \<longleftrightarrow> ps ! u = Joining k a" for u k a
    using t by (cases "u = t") auto
  show ?thesis
    unfolding join_inv_def length_list_update eq
    using join_invD[OF inv] same slots by blast
qed

lemma join_inv_first:
  assumes inv: "join_inv slots queue ring ps" and t: "t < length ps" "\<not> is_joining (ps ! t)"
    and k: "queue k = []" "slots' k = Some a" "d \<noteq> []" and slots: "\<And>k a. slots k = Some a \<Longrightarrow> slots' k = Some a"
  shows "join_inv slots' (queue(k := d)) ring (ps[t := Joining k a])"
proof -
  have old: "ps ! u = Joining j b \<Longrightarrow> u < length ps \<Longrightarrow> u \<noteq> t \<and> j \<noteq> k" for u j b
    using join_invD(2)[OF inv, of u j b] t(2) k(1) by auto
  have kr: "k \<notin> set ring" using join_invD(5)[OF inv, of k] k(1) by blast
  show ?thesis
    unfolding join_inv_def length_list_update upd_nth_eq[OF t(1)]
  proof (intro conjI allI impI ballI)
    show "distinct ring" by (rule join_invD(1)[OF inv])
  next
    fix u j b assume "u < length ps" "if u = t then Joining k a = Joining j b else ps ! u = Joining j b"
    then show "slots' j = Some b" "(queue(k := d)) j \<noteq> []" "j \<notin> set ring"
      using join_invD(2)[OF inv, of u j b] old[of u j b] k slots kr by (auto split: if_splits)
  next
    fix u w j b c
    assume "u < length ps" "w < length ps" "if u = t then Joining k a = Joining j b else ps ! u = Joining j b"
      "if w = t then Joining k a = Joining j c else ps ! w = Joining j c"
    then show "u = w" using join_invD(3)[OF inv, of u w j b c] old[of u j b] old[of w j c] by (auto split: if_splits)
  next
    fix j assume "(queue(k := d)) j \<noteq> []"
    then show "j \<in> set ring \<or> (\<exists>u < length ps. \<exists>b. if u = t then Joining k a = Joining j b else ps ! u = Joining j b)"
      using join_invD(4)[OF inv, of j] t old by (cases "j = k") fastforce+
  next
    fix j assume "j \<in> set ring"
    then show "(queue(k := d)) j \<noteq> []" using join_invD(5)[OF inv] kr by auto
  qed
qed

lemma join_inv_join:
  assumes inv: "join_inv slots queue ring ps" and t: "t < length ps" "ps ! t = Joining k a"
  shows "join_inv slots queue (ring @ [k]) (ps[t := Idle])"
proof -
  note kt = join_invD(2)[OF inv t]
  have others: "u \<noteq> t \<Longrightarrow> u < length ps \<Longrightarrow> ps ! u = Joining j b \<Longrightarrow> j \<noteq> k" for u j b
    using join_invD(3)[OF inv _ t(1), of u k b a] t(2) by auto
  show ?thesis
    unfolding join_inv_def length_list_update upd_nth_eq[OF t(1)]
  proof (intro conjI allI impI ballI)
    show "distinct (ring @ [k])" using join_invD(1)[OF inv] kt by simp
  next
    fix u j b assume "u < length ps" "if u = t then Idle = Joining j b else ps ! u = Joining j b"
    then show "slots j = Some b" "queue j \<noteq> []" "j \<notin> set (ring @ [k])"
      using join_invD(2)[OF inv, of u j b] others[of u j b] by (auto split: if_splits)
  next
    fix u w j b c
    assume "u < length ps" "w < length ps" "if u = t then Idle = Joining j b else ps ! u = Joining j b"
      "if w = t then Idle = Joining j c else ps ! w = Joining j c"
    then show "u = w" using join_invD(3)[OF inv, of u w j b c] by (auto split: if_splits)
  next
    fix j assume "queue j \<noteq> []"
    then show "j \<in> set (ring @ [k]) \<or> (\<exists>u < length ps. \<exists>b. if u = t then Idle = Joining j b else ps ! u = Joining j b)"
      using join_invD(4)[OF inv, of j] t(2) by (cases "j = k") fastforce+
  next
    fix j assume "j \<in> set (ring @ [k])"
    then show "queue j \<noteq> []" using join_invD(5)[OF inv] kt by auto
  qed
qed

lemma join_inv_take:
  assumes inv: "join_inv slots queue (k # r) ps"
  shows "join_inv slots (queue(k := [])) r ps"
proof -
  have nk: "ps ! u = Joining j b \<Longrightarrow> u < length ps \<Longrightarrow> j \<noteq> k" for u j b
    using join_invD(2)[OF inv, of u j b] by auto
  have "k \<notin> set r" using join_invD(1)[OF inv] by simp
  note k = this
  show ?thesis
    unfolding join_inv_def
  proof (intro conjI allI impI ballI)
    show "distinct r" using join_invD(1)[OF inv] by simp
  next
    fix u j b assume "u < length ps" "ps ! u = Joining j b"
    then show "slots j = Some b" "(queue(k := [])) j \<noteq> []" "j \<notin> set r"
      using join_invD(2)[OF inv, of u j b] nk[of u j b] by auto
  next
    fix u w j b c assume "u < length ps" "w < length ps" "ps ! u = Joining j b" "ps ! w = Joining j c"
    then show "u = w" by (rule join_invD(3)[OF inv])
  next
    fix j assume "(queue(k := [])) j \<noteq> []"
    then show "j \<in> set r \<or> (\<exists>t < length ps. \<exists>a. ps ! t = Joining j a)"
      using join_invD(4)[OF inv, of j] by (auto split: if_splits)
  next
    fix j assume "j \<in> set r"
    then show "(queue(k := [])) j \<noteq> []" using join_invD(5)[OF inv, of j] k by auto
  qed
qed

subsection \<open>The invariant of the threads\<close>

text \<open>The events that wait, over all agents.\<close>

definition total :: "(cstring \<Rightarrow> 'a list) \<Rightarrow> nat" where
  "total queue = (\<Sum>k | queue k \<noteq> []. length (queue k))"

lemma total_le: "finite {k. queue k \<noteq> []} \<Longrightarrow> length (queue k) \<le> total queue"
  by (cases "queue k = []") (simp_all add: total_def member_le_sum[of k _ "\<lambda>k. length (queue k)"])

lemma total_upd:
  assumes fin: "finite {k. queue k \<noteq> []}"
  shows "total (queue(k := xs)) + length (queue k) = total queue + length xs"
proof -
  let ?S = "insert k {k. queue k \<noteq> []}"
  have ext: "total q = (\<Sum>k \<in> ?S. length (q k))" if "{k. q k \<noteq> []} \<subseteq> ?S" for q :: "cstring \<Rightarrow> 'a list"
    unfolding total_def by (rule sum.mono_neutral_left) (use fin that in auto)
  have "total (queue(k := xs)) = length xs + (\<Sum>j \<in> {k. queue k \<noteq> []} - {k}. length (queue j))"
    by (subst ext) (auto simp: fin sum.insert_remove split: if_splits intro!: sum.cong)
  moreover have "total queue = length (queue k) + (\<Sum>j \<in> {k. queue k \<noteq> []} - {k}. length (queue j))"
    by (subst ext) (auto simp: fin sum.insert_remove)
  ultimately show ?thesis by simp
qed

lemma total_finite: "finite {k. queue k \<noteq> []} \<Longrightarrow> finite {j. (queue(k := xs)) j \<noteq> []}"
  by (rule finite_subset[of _ "insert k {k. queue k \<noteq> []}"]) (auto split: if_splits)

fun in_flight :: "'a producer \<Rightarrow> bool" where
  "in_flight (Over d) = True"
| "in_flight (Counted k d) = True"
| "in_flight (Refused d) = True"
| "in_flight p = False"

fun is_counted :: "'a producer \<Rightarrow> bool" where
  "is_counted (Counted k d) = True"
| "is_counted p = False"

abbreviation how_many :: "('a \<Rightarrow> bool) \<Rightarrow> 'a list \<Rightarrow> nat" where
  "how_many P xs \<equiv> length (filter P xs)"

definition count_inv :: "nat \<Rightarrow> nat \<Rightarrow> nat \<Rightarrow> 'a producer list \<Rightarrow> nat option \<Rightarrow> bool" where
  "count_inv limit items stored ps pending \<longleftrightarrow>
     items = stored + how_many in_flight ps + (case pending of None \<Rightarrow> 0 | Some n \<Rightarrow> n)
     \<and> stored + how_many is_counted ps \<le> limit"

definition sys_inv :: "nat \<Rightarrow> 'a bq_abs \<Rightarrow> 'a bq_sys \<Rightarrow> bool" where
  "sys_inv limit A sys \<longleftrightarrow> bq_rel (sys_queue sys) A \<and> max_items_global (sys_queue sys) = limit
     \<and> join_inv (slot_of (sys_queue sys)) (ab_queue A) (ab_ring A) (producers sys)
     \<and> finite {k. ab_queue A k \<noteq> []}
     \<and> count_inv limit (ab_items A) (total (ab_queue A)) (producers sys) (drained_items sys)"

lemma sys_invD:
  assumes "sys_inv limit A sys"
  shows "bq_rel (sys_queue sys) A" "max_items_global (sys_queue sys) = limit"
    "join_inv (slot_of (sys_queue sys)) (ab_queue A) (ab_ring A) (producers sys)"
    "finite {k. ab_queue A k \<noteq> []}"
    "count_inv limit (ab_items A) (total (ab_queue A)) (producers sys) (drained_items sys)"
  using assms by (simp_all add: sys_inv_def)

lemma counted_le: "how_many is_counted ps \<le> how_many in_flight ps"
proof (induction ps)
  case (Cons p ps)
  then show ?case by (cases p) auto
qed simp

lemma ab_queue_upd [simp]:
  "ab_queue (A\<lparr>ab_queues := (ab_queues A)(k \<mapsto> xs)\<rparr>) = (ab_queue A)(k := xs)"
  "ab_queue (A\<lparr>ab_queues := (ab_queues A)(k \<mapsto> xs), ab_ring := r\<rparr>) = (ab_queue A)(k := xs)"
  "ab_queue (A\<lparr>ab_ring := r\<rparr>) = ab_queue A" "ab_queue (A\<lparr>ab_items := n\<rparr>) = ab_queue A"
  by (auto simp: ab_queue_def fun_eq_iff)

lemma bq_rel_count:
  assumes "bq_rel s A"
  shows "bq_rel (s\<lparr>items_global := n\<rparr>) (A\<lparr>ab_items := n\<rparr>)"
proof -
  have "next_of (s\<lparr>items_global := n\<rparr>) = next_of s" by (simp add: next_of_def fun_eq_iff)
  then show ?thesis using assms unfolding bq_rel_def ring_rep_def by auto
qed

text \<open>
  What a step does for the agents: what was accepted is at the end of their queues, what was drained at
  the head. The ring grows at its end, or the agent whose turn it is leaves it with all its events.
\<close>

definition serves :: "'a bq_abs \<Rightarrow> 'a bq_output list \<Rightarrow> 'a bq_abs \<Rightarrow> bool" where
  "serves A outs A' \<longleftrightarrow> (\<forall>k. ab_queue A k @ accepted k outs = drained k outs @ ab_queue A' k)
     \<and> (turns outs = 0 \<and> (\<exists>ys. ab_ring A' = ab_ring A @ ys)
        \<or> (\<exists>k. outs = [Drained k (ab_queue A k)] \<and> ab_ring A = k # ab_ring A'))"

lemmas output_simps = accepted_def drained_def turns_def

lemma serves_quiet: "turns outs = 0 \<Longrightarrow> \<forall>k. accepted k outs = [] \<Longrightarrow> \<forall>k. drained k outs = []
    \<Longrightarrow> ab_queue A' = ab_queue A \<Longrightarrow> ab_ring A' = ab_ring A @ ys \<Longrightarrow> serves A outs A'"
  by (auto simp: serves_def)

lemma sys_inv_quiet:
  assumes inv: "sys_inv limit A sys" and t: "t < length (producers sys)" "\<not> is_joining (producers sys ! t)" "\<not> is_joining p"
    and cnt: "count_inv limit n (total (ab_queue A)) ((producers sys)[t := p]) (drained_items sys)"
  shows "sys_inv limit (A\<lparr>ab_items := n\<rparr>) (set_producer t p ((sys_queue sys)\<lparr>items_global := n\<rparr>) sys)"
  using sys_invD[OF inv] bq_rel_count[OF sys_invD(1)[OF inv], of n] cnt join_inv_quiet[OF sys_invD(3)[OF inv] t, of "ab_queue A"]
  by (simp add: sys_inv_def set_producer_def)

lemma produce_sim:
  assumes inv: "sys_inv limit A sys" and g: "0 < limit"
  shows "\<exists>sys' A'. bq_step (Produce t k d) sys = Some ([], sys') \<and> sys_inv limit A' sys' \<and> serves A [] A'"
proof (cases "t < length (producers sys) \<and> producers sys ! t = Idle")
  case True
  let ?n = "items_global (sys_queue sys) + 1"
  let ?p = "if ?n > limit then Over d else Counted k d"
  have n: "items_global (sys_queue sys) = ab_items A" by (rule bq_rel_items[OF sys_invD(1)[OF inv]])
  note cnt = sys_invD(5)[OF inv, unfolded count_inv_def]
  have "count_inv limit ?n (total (ab_queue A)) ((producers sys)[t := ?p]) (drained_items sys)"
    using cnt True length_filter_upd[of t "producers sys" in_flight ?p] length_filter_upd[of t "producers sys" is_counted ?p]
      counted_le[of "producers sys"] n
    by (auto simp: count_inv_def)
  from sys_inv_quiet[OF inv _ _ _ this] True
  have "sys_inv limit (A\<lparr>ab_items := ?n\<rparr>) (set_producer t ?p ((sys_queue sys)\<lparr>items_global := ?n\<rparr>) sys)" by simp
  moreover have "bq_step (Produce t k d) sys = Some ([], set_producer t ?p ((sys_queue sys)\<lparr>items_global := ?n\<rparr>) sys)"
    using True g sys_invD(2)[OF inv] by (simp add: enqueue_count_def)
  moreover have "serves A [] (A\<lparr>ab_items := ?n\<rparr>)" by (rule serves_quiet[where ys = "[]"]) (simp_all add: output_simps)
  ultimately show ?thesis by blast
next
  case False
  then show ?thesis using inv serves_quiet[of "[]" A A "[]"] by (auto simp: output_simps)
qed

lemma undo_sim:
  assumes inv: "sys_inv limit A sys" and t: "t < length (producers sys)"
    and p: "producers sys ! t = Over d \<or> producers sys ! t = Refused d"
  shows "\<exists>outs sys' A'. bq_step (Go t) sys = Some (outs, sys') \<and> sys_inv limit A' sys' \<and> serves A outs A'"
proof -
  let ?n = "items_global (sys_queue sys) - 1"
  have n: "items_global (sys_queue sys) = ab_items A" by (rule bq_rel_items[OF sys_invD(1)[OF inv]])
  have "count_inv limit ?n (total (ab_queue A)) ((producers sys)[t := Idle]) (drained_items sys)"
    using sys_invD(5)[OF inv, unfolded count_inv_def] p n length_filter_upd[OF t, of in_flight Idle]
      length_filter_upd[OF t, of is_counted Idle]
    by (auto simp: count_inv_def)
  from sys_inv_quiet[OF inv t _ _ this] p
  have "sys_inv limit (A\<lparr>ab_items := ?n\<rparr>) (set_producer t Idle ((sys_queue sys)\<lparr>items_global := ?n\<rparr>) sys)" by auto
  moreover have "bq_step (Go t) sys = Some ([Rejected d], set_producer t Idle ((sys_queue sys)\<lparr>items_global := ?n\<rparr>) sys)"
    using t p by (auto simp: enqueue_undo_def)
  moreover have "serves A [Rejected d] (A\<lparr>ab_items := ?n\<rparr>)"
    by (rule serves_quiet[where ys = "[]"]) (simp_all add: output_simps)
  ultimately show ?thesis by blast
qed

lemma store_sim:
  assumes inv: "sys_inv limit A sys" and g: "limit < 2 ^ 32" and t: "t < length (producers sys)"
    and p: "producers sys ! t = Counted k d"
  shows "\<exists>outs sys' A'. bq_step (Go t) sys = Some (outs, sys') \<and> sys_inv limit A' sys' \<and> serves A outs A'"
proof -
  note I = sys_invD[OF inv]
  let ?ps = "producers sys" and ?m = "max_items_per_agent (sys_queue sys)"
  have "length (ab_queue A k) < 2 ^ 32"
    using total_le[OF I(4), of k] I(5) g by (simp add: count_inv_def)
  from enqueue_store_sim[OF I(1) this, of d] obtain s' a where s':
    "enqueue_store k d (sys_queue sys) = Some (if fst (ab_store ?m k d A) then No_space else Stored a (ab_queue A k = []), s')"
    "bq_rel s' (snd (ab_store ?m k d A))" "slot_of s' k = Some a" "max_items_global s' = max_items_global (sys_queue sys)"
    and slots: "\<And>k b. slot_of (sys_queue sys) k = Some b \<Longrightarrow> slot_of s' k = Some b"
    by blast
  show ?thesis
  proof (cases "fst (ab_store ?m k d A)")
    case True
    let ?A = "A\<lparr>ab_queues := (ab_queues A)(k \<mapsto> ab_queue A k)\<rparr>"
    have A': "snd (ab_store ?m k d A) = ?A" using True by (simp add: ab_store_def Let_def)
    have c: "count_inv limit (ab_items A) (total (ab_queue A)) (?ps[t := Refused d]) (drained_items sys)"
      using I(5) p length_filter_upd[OF t, of in_flight "Refused d"] length_filter_upd[OF t, of is_counted "Refused d"]
      by (auto simp: count_inv_def)
    have j: "join_inv (slot_of s') (ab_queue A) (ab_ring A) (?ps[t := Refused d])"
      by (rule join_inv_quiet[OF I(3) t]) (use p slots in auto)
    have "sys_inv limit ?A (set_producer t (Refused d) s' sys)"
      using s'(2,4) I(2,4) c j A' by (simp add: sys_inv_def set_producer_def)
    moreover have "bq_step (Go t) sys = Some ([], set_producer t (Refused d) s' sys)" using t p s'(1) True by simp
    moreover have "serves A [] ?A" by (rule serves_quiet[where ys = "[]"]) (simp_all add: output_simps)
    ultimately show ?thesis by blast
  next
    case False
    let ?A = "A\<lparr>ab_queues := (ab_queues A)(k \<mapsto> ab_queue A k @ [d])\<rparr>"
    let ?p = "if ab_queue A k = [] then Joining k a else Idle"
    have A': "snd (ab_store ?m k d A) = ?A" using False by (auto simp: ab_store_def Let_def)
    have c: "count_inv limit (ab_items A) (total ((ab_queue A)(k := ab_queue A k @ [d]))) (?ps[t := ?p]) (drained_items sys)"
      using I(5) p length_filter_upd[OF t, of in_flight ?p] length_filter_upd[OF t, of is_counted ?p]
        total_upd[OF I(4), of k "ab_queue A k @ [d]"]
      by (auto simp: count_inv_def split: if_splits)
    have j: "join_inv (slot_of s') ((ab_queue A)(k := ab_queue A k @ [d])) (ab_ring A) (?ps[t := ?p])"
    proof (cases "ab_queue A k = []")
      case True
      then show ?thesis using join_inv_first[of _ _ _ _ t k "slot_of s'" a "[d]", OF I(3) t _ True s'(3)] p slots by simp
    next
      case False
      then show ?thesis
        using join_inv_quiet[OF I(3) t, of Idle "(ab_queue A)(k := ab_queue A k @ [d])" "slot_of s'"] p slots by simp
    qed
    have "sys_inv limit ?A (set_producer t ?p s' sys)"
      using s'(2,4) I(2) c j A' total_finite[OF I(4)] by (simp add: sys_inv_def set_producer_def)
    moreover have "bq_step (Go t) sys = Some ([Accepted k d], set_producer t ?p s' sys)" using t p s'(1) False by simp
    moreover have "serves A [Accepted k d] ?A" by (simp add: serves_def output_simps)
    ultimately show ?thesis by blast
  qed
qed

lemma join_sim:
  assumes inv: "sys_inv limit A sys" and t: "t < length (producers sys)" and p: "producers sys ! t = Joining k a"
  shows "\<exists>outs sys' A'. bq_step (Go t) sys = Some (outs, sys') \<and> sys_inv limit A' sys' \<and> serves A outs A'"
proof -
  note I = sys_invD[OF inv] and J = join_invD(2)[OF sys_invD(3)[OF inv] t p]
  let ?A = "A\<lparr>ab_ring := ab_ring A @ [k]\<rparr>"
  obtain s' where s': "enqueue_join k a (sys_queue sys) = Some (True, s')" "slot_of s' = slot_of (sys_queue sys)"
      "max_items_global s' = max_items_global (sys_queue sys)" "bq_rel s' ?A"
    using enqueue_join_sim[OF I(1), of k a] J by auto
  have "count_inv limit (ab_items A) (total (ab_queue A)) ((producers sys)[t := Idle]) (drained_items sys)"
    using I(5) p length_filter_upd[OF t, of in_flight Idle] length_filter_upd[OF t, of is_counted Idle]
    by (auto simp: count_inv_def)
  then have "sys_inv limit ?A (set_producer t Idle s' sys)"
    using s' I(2,4) join_inv_join[OF I(3) t p] by (simp add: sys_inv_def set_producer_def)
  moreover have "bq_step (Go t) sys = Some ([], set_producer t Idle s' sys)" using t p s'(1) by simp
  moreover have "serves A [] ?A" by (rule serves_quiet[where ys = "[k]"]) (simp_all add: output_simps)
  ultimately show ?thesis by blast
qed

lemma take_sim:
  assumes inv: "sys_inv limit A sys"
  shows "\<exists>outs sys' A'. bq_step Take sys = Some (outs, sys') \<and> sys_inv limit A' sys' \<and> serves A outs A'"
proof (cases "drained_items sys \<noteq> None \<or> ab_ring A = []")
  case True
  then have "bq_step Take sys = Some ([], sys)" using drain_take_sim(1)[OF sys_invD(1)[OF inv]] by auto
  then show ?thesis using inv serves_quiet[of "[]" A A "[]"] by (auto simp: output_simps)
next
  case False
  note I = sys_invD[OF inv]
  from False obtain k r where r: "ab_ring A = k # r" and idle: "drained_items sys = None" by (cases "ab_ring A") auto
  let ?A = "A\<lparr>ab_queues := (ab_queues A)(k \<mapsto> []), ab_ring := r\<rparr>" and ?xs = "ab_queue A k"
  obtain s' where s': "drain_take (sys_queue sys) = Some (Returns (?xs, k) s')" "bq_rel s' ?A"
      "slot_of s' = slot_of (sys_queue sys)" "max_items_global s' = max_items_global (sys_queue sys)"
    using drain_take_sim(2)[OF I(1) r] by blast
  let ?sys = "sys\<lparr>sys_queue := s', drained_items := Some (length ?xs)\<rparr>"
  have "sys_inv limit ?A ?sys"
    using s' I(2) total_finite[OF I(4), of k "[]"] join_inv_take[OF I(3)[unfolded r]] I(5) idle total_upd[OF I(4), of k "[]"]
    by (simp add: sys_inv_def count_inv_def)
  moreover have "bq_step Take sys = Some ([Drained k ?xs], ?sys)" using idle s'(1) by simp
  moreover have "serves A [Drained k ?xs] ?A" using r by (simp add: serves_def output_simps)
  ultimately show ?thesis by blast
qed

lemma done_sim:
  assumes inv: "sys_inv limit A sys"
  shows "\<exists>outs sys' A'. bq_step Done sys = Some (outs, sys') \<and> sys_inv limit A' sys' \<and> serves A outs A'"
proof (cases "drained_items sys")
  case None
  then show ?thesis using inv serves_quiet[of "[]" A A "[]"] by (auto simp: output_simps)
next
  case (Some n)
  note I = sys_invD[OF inv]
  let ?A = "A\<lparr>ab_items := ab_items A - n\<rparr>"
  have s: "drain_done n (sys_queue sys) = (sys_queue sys)\<lparr>items_global := ab_items A - n\<rparr>"
    using bq_rel_items[OF I(1)] by (simp add: drain_done_def)
  have "sys_inv limit ?A (sys\<lparr>sys_queue := drain_done n (sys_queue sys), drained_items := None\<rparr>)"
    using bq_rel_count[OF I(1), of "ab_items A - n"] I(2-5) Some unfolding s by (simp add: sys_inv_def count_inv_def)
  moreover have "serves A [] ?A" by (rule serves_quiet[where ys = "[]"]) (simp_all add: output_simps)
  ultimately show ?thesis using Some by auto
qed

lemma bq_step_sim:
  assumes inv: "sys_inv limit A sys" and g: "0 < limit" "limit < 2 ^ 32"
  shows "\<exists>outs sys' A'. bq_step e sys = Some (outs, sys') \<and> sys_inv limit A' sys' \<and> serves A outs A'"
proof (cases e)
  case (Produce t k d)
  then show ?thesis using produce_sim[OF inv g(1)] by blast
next
  case (Go t)
  have quiet: "serves A [] A" by (rule serves_quiet[where ys = "[]"]) (simp_all add: output_simps)
  show ?thesis
  proof (cases "t < length (producers sys)")
    case True
    show ?thesis
      using undo_sim[OF inv True] store_sim[OF inv g(2) True] join_sim[OF inv True] inv quiet True unfolding Go
      by (cases "producers sys ! t") auto
  next
    case False
    then show ?thesis using inv quiet Go by auto
  qed
next
  case Take
  then show ?thesis using take_sim[OF inv] by simp
next
  case Done
  then show ?thesis using done_sim[OF inv] by simp
qed

subsection \<open>Runs\<close>

lemma bq_start_ok:
  assumes "0 < capacity"
  obtains sys where "bq_start n capacity per_agent = Some sys" "rr_dispose (sys_queue sys)"
    "sys_inv capacity \<lparr>ab_queues = Map.empty, ab_ring = [], ab_items = 0\<rparr> sys"
proof -
  obtain index where i: "hm_init 64 = Some index" "hm_inv index" "hm_map index = (Map.empty :: cstring \<rightharpoonup> nat)"
    using hm_init_ok[of 64] by auto
  then show ?thesis
    using assms
    by (intro that) (auto simp: bq_start_def batch_queue_init_def batch_queue_set_dispose_def batch_queue_set_agent_max_def
      sys_inv_def bq_rel_def ring_rep_def join_inv_def count_inv_def total_def ab_queue_def)
qed

lemma output_append [simp]:
  "accepted k (o1 @ o2) = accepted k o1 @ accepted k o2" "drained k (o1 @ o2) = drained k o1 @ drained k o2"
  "turns (o1 @ o2) = turns o1 + turns o2" "accepted k [] = []" "drained k [] = []" "turns [] = 0"
  by (simp_all add: output_simps)

lemma bq_run_sim:
  assumes "sys_inv limit A sys" "0 < limit" "limit < 2 ^ 32"
  shows "\<exists>outs sys' A'. run_steps bq_step es sys = Some (outs, sys') \<and> sys_inv limit A' sys'
    \<and> (\<forall>k. ab_queue A k @ accepted k outs = drained k outs @ ab_queue A' k)"
  using assms
proof (induction es arbitrary: A sys)
  case (Cons e es)
  from bq_step_sim[OF Cons.prems] obtain o1 s1 A1 where
    1: "bq_step e sys = Some (o1, s1)" "sys_inv limit A1 s1" "serves A o1 A1" by blast
  from Cons.IH[OF 1(2) Cons.prems(2,3)] obtain o2 s2 A2 where
    2: "run_steps bq_step es s1 = Some (o2, s2)" "sys_inv limit A2 s2"
      "\<forall>k. ab_queue A1 k @ accepted k o2 = drained k o2 @ ab_queue A2 k" by blast
  have "ab_queue A k @ accepted k (o1 @ o2) = drained k (o1 @ o2) @ ab_queue A2 k" for k
    using 1(3) 2(3) unfolding serves_def by (metis append.assoc output_append(1,2))
  with 1(1) 2(1,2) show ?case by auto
qed auto

text \<open>The turns the consumer gets in a schedule, when there is an agent in the ring at each of them.\<close>

fun takes :: "bool \<Rightarrow> 'a bq_event list \<Rightarrow> nat" where
  "takes pending [] = 0"
| "takes pending (Take # es) = (if pending then takes True es else Suc (takes True es))"
| "takes pending (Done # es) = takes False es"
| "takes pending (e # es) = takes pending es"

lemma go_step_pending:
  assumes "go_step t p sys = Some (outs, sys')"
  shows "drained_items sys' = drained_items sys \<and> turns outs = 0"
proof (cases p)
  case (Counted k d)
  then obtain r s where "enqueue_store k d (sys_queue sys) = Some (r, s)" using assms by (auto simp: bind_eq_Some_conv)
  then show ?thesis using assms Counted by (cases r) (auto simp: set_producer_def turns_def)
qed (use assms in \<open>auto simp: set_producer_def turns_def bind_eq_Some_conv\<close>)

lemma bq_step_pending:
  assumes "bq_step e sys = Some (outs, sys')"
  shows "e = Done \<Longrightarrow> drained_items sys' = None" "e = Take \<Longrightarrow> drained_items sys \<noteq> None \<Longrightarrow> sys' = sys \<and> outs = []"
    "e \<noteq> Take \<Longrightarrow> e \<noteq> Done \<Longrightarrow> drained_items sys' = drained_items sys" "e \<noteq> Take \<Longrightarrow> turns outs = 0"
  using assms
  by (cases e; auto simp: set_producer_def split: option.splits if_splits prod.splits dest: go_step_pending)+

lemma take_turn:
  assumes inv: "sys_inv limit A sys" and "drained_items sys = None" "ab_ring A = k # r" "bq_step Take sys = Some (outs, sys')"
  shows "outs = [Drained k (ab_queue A k)] \<and> drained_items sys' \<noteq> None"
  using drain_take_sim(2)[OF sys_invD(1)[OF inv] assms(3)] assms(2,4) by auto

lemma takes_step:
  assumes "bq_step e sys = Some (outs, sys')" "sys_inv limit A sys" "ab_ring A \<noteq> []"
  shows "takes (drained_items sys \<noteq> None) (e # es) = turns outs + takes (drained_items sys' \<noteq> None) es"
proof (cases e)
  case Take
  obtain k r where "ab_ring A = k # r" using assms(3) by (cases "ab_ring A") auto
  then show ?thesis
    using bq_step_pending(2)[OF assms(1) Take] take_turn[OF assms(2) _ _ assms(1)[unfolded Take]] Take
    by (cases "drained_items sys") (auto simp: turns_def)
qed (use bq_step_pending[OF assms(1)] in auto)

text \<open>The agent at place \<open>i\<close> of the ring is drained by turn \<open>i\<close>, with all it has by then.\<close>

lemma ring_turn:
  assumes "sys_inv limit A sys" "0 < limit" "limit < 2 ^ 32" "run_steps bq_step es sys = Some (outs, sys')"
    "i < length (ab_ring A)" "i < takes (drained_items sys \<noteq> None) es"
  shows "\<exists>ys. Drained (ab_ring A ! i) (ab_queue A (ab_ring A ! i) @ ys) \<in> set outs"
  using assms
proof (induction es arbitrary: A sys outs i)
  case (Cons e es)
  note inv = Cons.prems(1)
  let ?k = "ab_ring A ! i"
  from bq_step_sim[OF inv Cons.prems(2,3), of e] obtain o1 s1 A1 where
    1: "bq_step e sys = Some (o1, s1)" "sys_inv limit A1 s1" "serves A o1 A1" by blast
  from Cons.prems(4) 1(1) obtain o2 where 2: "run_steps bq_step es s1 = Some (o2, sys')" "outs = o1 @ o2"
    by (auto simp: bind_eq_Some_conv)
  have i: "i < turns o1 + takes (drained_items s1 \<noteq> None) es"
    using takes_step[OF 1(1) inv, of es] Cons.prems(5,6) by (cases "ab_ring A = []") auto
  have q: "ab_queue A ?k @ accepted ?k o1 = drained ?k o1 @ ab_queue A1 ?k" using 1(3) by (simp add: serves_def)
  consider (grow) ys where "turns o1 = 0" "ab_ring A1 = ab_ring A @ ys"
    | (turn) j where "o1 = [Drained j (ab_queue A j)]" "ab_ring A = j # ab_ring A1"
    using 1(3) by (auto simp: serves_def)
  then show ?case
  proof cases
    case grow
    then have "drained ?k o1 = []" by (auto simp: output_simps filter_empty_conv split: bq_output.splits)
    moreover have "ab_ring A1 ! i = ?k" using grow(2) Cons.prems(5) by (simp add: nth_append)
    ultimately obtain zs where "Drained ?k (ab_queue A1 ?k @ zs) \<in> set o2"
      using Cons.IH[OF 1(2) Cons.prems(2,3) 2(1), of i] grow i Cons.prems(5) by auto
    moreover have "ab_queue A1 ?k = ab_queue A ?k @ accepted ?k o1" using q \<open>drained ?k o1 = []\<close> by simp
    ultimately show ?thesis using 2(2) by (intro exI[of _ "accepted ?k o1 @ zs"]) simp
  next
    case turn
    show ?thesis
    proof (cases i)
      case 0
      then show ?thesis using turn 2(2) by (intro exI[of _ "[]"]) simp
    next
      case (Suc n)
      then have k: "ab_ring A1 ! n = ?k" "n < length (ab_ring A1)" using turn(2) Cons.prems(5) by simp_all
      then have "?k \<noteq> j" using join_invD(1)[OF sys_invD(3)[OF inv]] turn(2) by (metis distinct.simps(2) nth_mem)
      then have "ab_queue A1 ?k = ab_queue A ?k" using q turn(1) by (simp add: output_simps)
      moreover have "n < takes (drained_items s1 \<noteq> None) es" using i Suc turn(1) by (simp add: turns_def)
      ultimately show ?thesis using Cons.IH[OF 1(2) Cons.prems(2,3) 2(1) k(2)] k(1) 2(2) by auto
    qed
  qed
qed simp

subsection \<open>What holds of every schedule\<close>

text \<open>C21: whatever the order in which the steps of the producers and of the consumer interleave, none of
  them faults, and each agent gets first in, first out: what was accepted from it is what was drained of
  it followed by what its queue still holds, in this order, with nothing lost, doubled or moved to
  another agent.\<close>

theorem bq_run_fifo:
  fixes es :: "'a bq_event list"
  assumes "0 < capacity" "capacity < 2 ^ 32"
  shows "\<exists>sys outs sys'. bq_start n capacity per_agent = Some sys \<and> run_steps bq_step es sys = Some (outs, sys')
    \<and> (\<forall>k. \<exists>xs. agent_events (sys_queue sys') k = Some xs \<and> accepted k outs = drained k outs @ xs)"
proof -
  obtain sys :: "'a bq_sys" where sys: "bq_start n capacity per_agent = Some sys"
      "sys_inv capacity \<lparr>ab_queues = Map.empty, ab_ring = [], ab_items = 0\<rparr> sys"
    by (rule bq_start_ok[OF assms(1)])
  from bq_run_sim[OF sys(2) assms, of es] obtain outs sys' A' where
    r: "run_steps bq_step es sys = Some (outs, sys')" "sys_inv capacity A' sys'"
      "\<forall>k. accepted k outs = drained k outs @ ab_queue A' k"
    by (auto simp: ab_queue_def)
  with sys(1) show ?thesis using agent_events_sim[OF sys_invD(1)[OF r(2)]] by auto
qed

theorem bq_run_fifo_witness:
  "\<exists>sys outs sys'. bq_start 2 (3::nat) 0 = Some sys
    \<and> run_steps bq_step [Produce 0 [1] (10::nat), Produce 1 [1] 11, Go 0, Go 1, Go 0, Take, Done] sys = Some (outs, sys')
    \<and> (\<forall>k. \<exists>xs. agent_events (sys_queue sys') k = Some xs \<and> accepted k outs = drained k outs @ xs)"
  by (rule bq_run_fifo) simp_all

lemma reachable_inv:
  fixes sys :: "'a bq_sys"
  assumes "0 < capacity" "capacity < 2 ^ 32" "bq_start n capacity per_agent = Some sys"
    "run_steps bq_step es sys = Some (outs, sys')"
  obtains A where "sys_inv capacity A sys'"
proof -
  obtain s :: "'a bq_sys" where "bq_start n capacity per_agent = Some s"
      "sys_inv capacity \<lparr>ab_queues = Map.empty, ab_ring = [], ab_items = 0\<rparr> s"
    by (rule bq_start_ok[OF assms(1)])
  with assms(3) have "sys_inv capacity \<lparr>ab_queues = Map.empty, ab_ring = [], ab_items = 0\<rparr> sys" by simp
  from bq_run_sim[OF this assms(1,2), of es] assms(4) that show thesis by auto
qed

lemma no_joining:
  assumes "sys_inv limit A sys" "\<forall>p \<in> set (producers sys). \<not> is_joining p"
  shows "ab_queue A k \<noteq> [] \<longleftrightarrow> k \<in> set (ab_ring A)"
  using join_invD(4,5)[OF sys_invD(3)[OF assms(1)]] assms(2) by (metis is_joining.simps(1) nth_mem)

lemma demo_run:
  "do { sys \<leftarrow> bq_start 2 3 0;
        (outs, s) \<leftarrow> run_steps bq_step [Produce 0 [1] (10::nat), Produce 1 [1] 11, Go 0, Go 1, Go 0] sys;
        Some (list_all (\<lambda>p. \<not> is_joining p) (producers s), batch_queue_empty (sys_queue s), agent_events (sys_queue s) [1],
          batch_queue_ring_size (sys_queue s), batch_queue_size (sys_queue s), drained_items s) }
    = Some (True, False, Some [10, 11], 1, 2, None)"
  by code_simp

lemma demo_reach:
  obtains sys outs s where "bq_start 2 3 0 = Some sys"
    "run_steps bq_step [Produce 0 [1] (10::nat), Produce 1 [1] 11, Go 0, Go 1, Go 0] sys = Some (outs, s)"
    "\<forall>p \<in> set (producers s). \<not> is_joining p" "\<not> batch_queue_empty (sys_queue s)"
    "agent_events (sys_queue s) [1] = Some [10, 11]" "batch_queue_ring_size (sys_queue s) = 1"
    "batch_queue_size (sys_queue s) = 2" "drained_items s = None"
  using demo_run by (auto simp: bind_eq_Some_conv list_all_iff simp del: bq_step.simps run_steps.simps)

text \<open>C22: no wake-up is lost. Whenever no producer is between storing an event and putting its agent into the
  ring, the consumer finds the queue empty exactly when no agent has an event waiting.\<close>

theorem bq_no_lost_wakeup:
  assumes "0 < capacity" "capacity < 2 ^ 32" "bq_start n capacity per_agent = Some sys"
    "run_steps bq_step es sys = Some (outs, sys')" "\<forall>p \<in> set (producers sys'). \<not> is_joining p"
  shows "batch_queue_empty (sys_queue sys') \<longleftrightarrow> (\<forall>k. agent_events (sys_queue sys') k = Some [])"
proof -
  obtain A where A: "sys_inv capacity A sys'" by (rule reachable_inv[OF assms(1-4)])
  have "batch_queue_empty (sys_queue sys') \<longleftrightarrow> ab_ring A = []"
    using bq_rel_ring(2)[OF sys_invD(1)[OF A]] by (simp add: ring_rep_def batch_queue_empty_def)
  moreover have "ab_ring A = [] \<longleftrightarrow> (\<forall>k. ab_queue A k = [])" using no_joining[OF A assms(5)] by (metis list.set_intros(1) neq_Nil_conv empty_iff empty_set)
  ultimately show ?thesis using agent_events_sim[OF sys_invD(1)[OF A]] by simp
qed

theorem bq_no_lost_wakeup_witness:
  "\<exists>sys outs s. bq_start 2 3 0 = Some sys
    \<and> run_steps bq_step [Produce 0 [1] (10::nat), Produce 1 [1] 11, Go 0, Go 1, Go 0] sys = Some (outs, s)
    \<and> (\<exists>k. agent_events (sys_queue s) k \<noteq> Some [])"
proof -
  obtain sys outs s where d: "bq_start 2 3 0 = Some sys"
    "run_steps bq_step [Produce 0 [1] (10::nat), Produce 1 [1] 11, Go 0, Go 1, Go 0] sys = Some (outs, s)"
    "\<forall>p \<in> set (producers s). \<not> is_joining p" "\<not> batch_queue_empty (sys_queue s)"
    by (rule demo_reach)
  have "\<exists>k. agent_events (sys_queue s) k \<noteq> Some []" using bq_no_lost_wakeup[OF _ _ d(1-3)] d(4) by simp
  with d(1,2) show ?thesis by blast
qed



text \<open>What the queues of all agents hold.\<close>

definition stored_events :: "'a rr_queue \<Rightarrow> nat" where
  "stored_events s = (\<Sum>k | agent_events s k \<noteq> Some []. length (the (agent_events s k)))"

lemma stored_events_sim: "bq_rel s A \<Longrightarrow> stored_events s = total (ab_queue A)"
  by (simp add: stored_events_def total_def agent_events_sim)

text \<open>C24: the limit holds for all agents together, whatever races there are in counting: never more events than
  the capacity are stored, and the count is exact whenever no thread is in the middle of an operation.\<close>

theorem bq_bounded:
  assumes "0 < capacity" "capacity < 2 ^ 32" "bq_start n capacity per_agent = Some sys"
    "run_steps bq_step es sys = Some (outs, sys')"
  shows "stored_events (sys_queue sys') \<le> capacity
    \<and> (drained_items sys' = None \<longrightarrow> (\<forall>p \<in> set (producers sys'). \<not> in_flight p)
        \<longrightarrow> batch_queue_size (sys_queue sys') = stored_events (sys_queue sys'))"
proof -
  obtain A where A: "sys_inv capacity A sys'" by (rule reachable_inv[OF assms])
  have "(\<forall>p \<in> set (producers sys'). \<not> in_flight p) \<longrightarrow> how_many in_flight (producers sys') = 0" by simp
  then show ?thesis
    using sys_invD(5)[OF A] stored_events_sim[OF sys_invD(1)[OF A]] bq_rel_items[OF sys_invD(1)[OF A]]
    by (simp add: count_inv_def batch_queue_size_def)
qed

theorem bq_bounded_witness:
  "\<exists>sys outs s. bq_start 2 3 0 = Some sys
    \<and> run_steps bq_step [Produce 0 [1] (10::nat), Produce 1 [1] 11, Go 0, Go 1, Go 0] sys = Some (outs, s)
    \<and> stored_events (sys_queue s) \<le> 3"
proof -
  obtain sys outs s where d: "bq_start 2 3 0 = Some sys"
    "run_steps bq_step [Produce 0 [1] (10::nat), Produce 1 [1] 11, Go 0, Go 1, Go 0] sys = Some (outs, s)"
    by (rule demo_reach)
  with bq_bounded[OF _ _ d] show ?thesis by auto
qed


lemma demo_calls:
  "do { sys \<leftarrow> bq_start 1 3 0;
        (rc, ds, s1) \<leftarrow> batch_queue_enqueue_ex (sys_queue sys) [1] (10::nat);
        r \<leftarrow> batch_queue_drain_next_ex s1;
        Some (producers sys ! 0 = Idle, length (producers sys), drained_items sys, rc,
          case r of Returns (es, j) s2 \<Rightarrow> Some (es, j) | Waits s2 \<Rightarrow> None) }
    = Some (True, 1, None, 0, Some ([10], [1]))"
  by code_simp


text \<open>C26: when the event queue is full, the event of the agent is disposed of twice: by the queue, which
  was given a function to dispose of events, and by the handler that sees the call fail.\<close>

theorem remoted_disposes_twice:
  assumes "rr_dispose s" "0 < max_items_global s" "max_items_global s \<le> items_global s"
  shows "remoted_enqueue s agent e = Some (- ENOSPC, [e, e], s)"
  using assms
  by (simp add: remoted_enqueue_def batch_queue_enqueue_ex_def enqueue_count_def enqueue_undo_def disposes_def ENOSPC_def)

lemma demo_full:
  "do { sys \<leftarrow> bq_start 1 1 0;
        (rc, ds, s1) \<leftarrow> batch_queue_enqueue_ex (sys_queue sys) [1] (10::nat);
        Some (rr_dispose s1, max_items_global s1, items_global s1) } = Some (True, 1, 1)"
  by code_simp

theorem remoted_disposes_twice_witness:
  "\<exists>sys rc ds s1. bq_start 1 1 0 = Some sys \<and> batch_queue_enqueue_ex (sys_queue sys) [1] (10::nat) = Some (rc, ds, s1)
    \<and> remoted_enqueue s1 [2] 11 = Some (- ENOSPC, [11, 11], s1)"
proof -
  from demo_full obtain sys rc ds s1 where d: "bq_start 1 1 0 = Some sys"
    "batch_queue_enqueue_ex (sys_queue sys) [1] (10::nat) = Some (rc, ds, s1)"
    "rr_dispose s1" "max_items_global s1 = 1" "items_global s1 = 1"
    by (auto simp: bind_eq_Some_conv)
  from remoted_disposes_twice[of s1 "[2]" 11] d show ?thesis by auto
qed

end
