(* ===== verification/RB_Tree.thy ===== *)
theory RB_Tree
  imports Str_Map "HOL-Library.List_Lexorder"
begin

text \<open>
  The red-black tree of \<^verbatim>\<open>rbtree_op.c\<close> over an explicit heap: nodes with pointers to their children and to
  their parent, rotations that rewrite them, and the two loops that restore the balance. The value
  \<open>None\<close> of an operation is the dereference of a bad pointer, a failed assertion or a loop that does
  not end. A direction stands for the two mirror images in which the source writes each case.
\<close>

subsection \<open>Nodes\<close>

datatype rb_color = RB_RED | RB_BLACK

record 'v rb_node =
  nkey :: cstring
  nvalue :: "'v option"
  ncolor :: rb_color
  nparent :: "nat option"
  nleft :: "nat option"
  nright :: "nat option"

record 'v rb_tree =
  tree_heap :: "nat \<Rightarrow> 'v rb_node option"
  tree_brk :: nat
  root :: "nat option"
  tree_dispose :: bool

datatype side = Lft | Rgt

fun other :: "side \<Rightarrow> side" where
  "other Lft = Rgt"
| "other Rgt = Lft"

fun child :: "side \<Rightarrow> 'v rb_node \<Rightarrow> nat option" where
  "child Lft n = nleft n"
| "child Rgt n = nright n"

fun set_child :: "side \<Rightarrow> nat option \<Rightarrow> 'v rb_node \<Rightarrow> 'v rb_node" where
  "set_child Lft p n = n\<lparr>nleft := p\<rparr>"
| "set_child Rgt p n = n\<lparr>nright := p\<rparr>"

definition with_node :: "nat \<Rightarrow> ('v rb_node \<Rightarrow> 'v rb_node) \<Rightarrow> 'v rb_tree \<Rightarrow> 'v rb_tree option" where
  "with_node a f s = do { n \<leftarrow> tree_heap s a; Some (s\<lparr>tree_heap := (tree_heap s)(a \<mapsto> f n)\<rparr>) }"

abbreviation set_color :: "nat \<Rightarrow> rb_color \<Rightarrow> 'v rb_tree \<Rightarrow> 'v rb_tree option" where
  "set_color a c \<equiv> with_node a (\<lambda>n. n\<lparr>ncolor := c\<rparr>)"

text \<open>\<^verbatim>\<open>strcmp\<close>, of which only the sign is used: the bytes compare as unsigned characters.\<close>

fun strcmp :: "cstring \<Rightarrow> cstring \<Rightarrow> int" where
  "strcmp [] [] = 0"
| "strcmp [] (y # ys) = - 1"
| "strcmp (x # xs) [] = 1"
| "strcmp (x # xs) (y # ys) = (if x < y then - 1 else if y < x then 1 else strcmp xs ys)"

definition rb_init :: "cstring \<Rightarrow> 'v option \<Rightarrow> 'v rb_tree \<Rightarrow> nat \<times> 'v rb_tree" where
  "rb_init key v s =
     (tree_brk s, s\<lparr>tree_heap := (tree_heap s)(tree_brk s \<mapsto>
        \<lparr>nkey = key, nvalue = v, ncolor = RB_RED, nparent = None, nleft = None, nright = None\<rparr>), tree_brk := tree_brk s + 1\<rparr>)"

text \<open>The values passed to the dispose function, in order, and the state.\<close>

partial_function (option) rb_destroy :: "nat \<Rightarrow> bool \<Rightarrow> 'v rb_tree \<Rightarrow> ('v list \<times> 'v rb_tree) option" where
  "rb_destroy a dispose s =
     do {
       n \<leftarrow> tree_heap s a;
       (ds1, s1) \<leftarrow> (case nleft n of None \<Rightarrow> Some ([], s) | Some l \<Rightarrow> rb_destroy l dispose s);
       (ds2, s2) \<leftarrow> (case nright n of None \<Rightarrow> Some ([], s1) | Some r \<Rightarrow> rb_destroy r dispose s1);
       Some (ds1 @ ds2 @ (case nvalue n of Some v \<Rightarrow> if dispose then [v] else [] | None \<Rightarrow> []),
         s2\<lparr>tree_heap := (tree_heap s2)(a := None)\<rparr>)
     }"

partial_function (option) rb_get :: "'v rb_tree \<Rightarrow> nat option \<Rightarrow> cstring \<Rightarrow> nat option option" where
  "rb_get s p key =
     (case p of
        None \<Rightarrow> Some None
      | Some a \<Rightarrow> do {
          n \<leftarrow> tree_heap s a;
          if strcmp key (nkey n) = 0 then Some (Some a)
          else rb_get s (if strcmp key (nkey n) < 0 then nleft n else nright n) key
        })"

partial_function (option) rb_min :: "'v rb_tree \<Rightarrow> nat \<Rightarrow> nat option" where
  "rb_min s a = do { n \<leftarrow> tree_heap s a; (case nleft n of None \<Rightarrow> Some a | Some l \<Rightarrow> rb_min s l) }"

partial_function (option) rb_max :: "'v rb_tree \<Rightarrow> nat \<Rightarrow> nat option" where
  "rb_max s a = do { n \<leftarrow> tree_heap s a; (case nright n of None \<Rightarrow> Some a | Some r \<Rightarrow> rb_max s r) }"

definition rb_uncle :: "'v rb_tree \<Rightarrow> nat \<Rightarrow> nat option option" where
  "rb_uncle s a =
     do {
       n \<leftarrow> tree_heap s a;
       (case nparent n of
          None \<Rightarrow> Some None
        | Some p \<Rightarrow> do {
            pn \<leftarrow> tree_heap s p;
            (case nparent pn of
               None \<Rightarrow> Some None
             | Some g \<Rightarrow> do { gn \<leftarrow> tree_heap s g; Some (if Some p = nleft gn then nright gn else nleft gn) })
          })
     }"

subsection \<open>Rotations\<close>

text \<open>\<open>rb_rotate Lft\<close> is \<^verbatim>\<open>rb_rotate_left\<close>, \<open>rb_rotate Rgt\<close> is \<^verbatim>\<open>rb_rotate_right\<close>.\<close>

definition rb_rotate :: "side \<Rightarrow> 'v rb_tree \<Rightarrow> nat \<Rightarrow> 'v rb_tree option" where
  "rb_rotate d s a =
     do {
       n \<leftarrow> tree_heap s a;
       t \<leftarrow> child (other d) n;
       s1 \<leftarrow> (case nparent n of
           None \<Rightarrow> Some (s\<lparr>root := Some t\<rparr>)
         | Some p \<Rightarrow> do {
             pn \<leftarrow> tree_heap s p;
             with_node p (set_child (if Some a = nleft pn then Lft else Rgt) (Some t)) s
           });
       tn \<leftarrow> tree_heap s1 t;
       s2 \<leftarrow> (case child d tn of None \<Rightarrow> Some s1 | Some b \<Rightarrow> with_node b (\<lambda>m. m\<lparr>nparent := Some a\<rparr>) s1);
       s3 \<leftarrow> with_node a (set_child (other d) (child d tn)) s2;
       s4 \<leftarrow> with_node t (set_child d (Some a)) s3;
       s5 \<leftarrow> with_node t (\<lambda>m. m\<lparr>nparent := nparent n\<rparr>) s4;
       with_node a (\<lambda>m. m\<lparr>nparent := Some t\<rparr>) s5
     }"

subsection \<open>Balance\<close>

definition is_red :: "'v rb_tree \<Rightarrow> nat option \<Rightarrow> bool option" where
  "is_red s p = (case p of None \<Rightarrow> Some False | Some a \<Rightarrow> do { n \<leftarrow> tree_heap s a; Some (ncolor n = RB_RED) })"

text \<open>The two rotations of the case in which the uncle is not red: the state and the node to go on with.\<close>

definition insert_rotate :: "'v rb_tree \<Rightarrow> nat \<Rightarrow> nat \<Rightarrow> ('v rb_tree \<times> nat) option" where
  "insert_rotate s a p =
     do {
       pn \<leftarrow> tree_heap s p;
       g \<leftarrow> nparent pn;
       gn \<leftarrow> tree_heap s g;
       let d = (if Some p = nleft gn then Lft else Rgt);
       (s1, a1) \<leftarrow> (if Some a = child (other d) pn then do { s1 \<leftarrow> rb_rotate d s p; Some (s1, p) } else Some (s, a));
       n1 \<leftarrow> tree_heap s1 a1;
       p1 \<leftarrow> nparent n1;
       s2 \<leftarrow> set_color p1 RB_BLACK s1;
       pn1 \<leftarrow> tree_heap s2 p1;
       g1 \<leftarrow> nparent pn1;
       s3 \<leftarrow> set_color g1 RB_RED s2;
       s4 \<leftarrow> rb_rotate (other d) s3 g1;
       Some (s4, a1)
     }"

partial_function (option) insert_loop :: "'v rb_tree \<Rightarrow> nat \<Rightarrow> 'v rb_tree option" where
  "insert_loop s a =
     do {
       n \<leftarrow> tree_heap s a;
       (case nparent n of
          None \<Rightarrow> Some s
        | Some p \<Rightarrow> do {
            pn \<leftarrow> tree_heap s p;
            if ncolor pn \<noteq> RB_RED then Some s
            else do {
              uncle \<leftarrow> rb_uncle s a;
              red \<leftarrow> is_red s uncle;
              if red then do {
                u \<leftarrow> uncle;
                g \<leftarrow> nparent pn;
                s1 \<leftarrow> set_color p RB_BLACK s;
                s2 \<leftarrow> set_color u RB_BLACK s1;
                s3 \<leftarrow> set_color g RB_RED s2;
                insert_loop s3 g
              } else do { (s4, a1) \<leftarrow> insert_rotate s a p; insert_loop s4 a1 }
            }
          })
     }"

definition rb_balance_insert :: "'v rb_tree \<Rightarrow> nat \<Rightarrow> 'v rb_tree option" where
  "rb_balance_insert s a = do { s1 \<leftarrow> insert_loop s a; r \<leftarrow> root s1; set_color r RB_BLACK s1 }"

text \<open>Case 1 of the deletion: a red sibling gives way to a black one.\<close>

definition delete_red_sibling :: "side \<Rightarrow> 'v rb_tree \<Rightarrow> nat \<Rightarrow> ('v rb_tree \<times> nat) option" where
  "delete_red_sibling d s p =
     do {
       pn \<leftarrow> tree_heap s p;
       sb \<leftarrow> child (other d) pn;
       sn \<leftarrow> tree_heap s sb;
       if ncolor sn = RB_RED then do {
         s1 \<leftarrow> set_color sb RB_BLACK s;
         s2 \<leftarrow> set_color p RB_RED s1;
         s3 \<leftarrow> rb_rotate d s2 p;
         pn3 \<leftarrow> tree_heap s3 p;
         sb3 \<leftarrow> child (other d) pn3;
         Some (s3, sb3)
       } else Some (s, sb)
     }"

text \<open>Cases 3 and 4: the rotations that end the loop.\<close>

definition delete_rotate :: "side \<Rightarrow> 'v rb_tree \<Rightarrow> nat \<Rightarrow> nat \<Rightarrow> 'v rb_tree option" where
  "delete_rotate d s p sb =
     do {
       sn \<leftarrow> tree_heap s sb;
       far_red \<leftarrow> is_red s (child (other d) sn);
       (s2, sb2) \<leftarrow> (if \<not> far_red then do {
           c \<leftarrow> child d sn;
           s2 \<leftarrow> set_color c RB_BLACK s;
           s3 \<leftarrow> set_color sb RB_RED s2;
           s4 \<leftarrow> rb_rotate (other d) s3 sb;
           pn4 \<leftarrow> tree_heap s4 p;
           sb4 \<leftarrow> child (other d) pn4;
           Some (s4, sb4)
         } else Some (s, sb));
       sn2 \<leftarrow> tree_heap s2 sb2;
       far \<leftarrow> child (other d) sn2;
       pn2 \<leftarrow> tree_heap s2 p;
       s3 \<leftarrow> set_color sb2 (ncolor pn2) s2;
       s4 \<leftarrow> set_color p RB_BLACK s3;
       s5 \<leftarrow> set_color far RB_BLACK s4;
       rb_rotate d s5 p
     }"

text \<open>Case 2, or cases 3 and 4: where to go on, if the loop does not end here.\<close>

definition delete_nephews ::
    "side \<Rightarrow> 'v rb_tree \<Rightarrow> nat \<Rightarrow> nat \<Rightarrow> ('v rb_tree \<times> (nat option \<times> nat option) option) option" where
  "delete_nephews d s p sb =
     do {
       sn \<leftarrow> tree_heap s sb;
       l_red \<leftarrow> is_red s (nleft sn);
       r_red \<leftarrow> is_red s (nright sn);
       if ncolor sn = RB_BLACK \<and> \<not> l_red \<and> \<not> r_red then do {
         s1 \<leftarrow> set_color sb RB_RED s;
         pn \<leftarrow> tree_heap s1 p;
         Some (s1, Some (Some p, nparent pn))
       } else do { s1 \<leftarrow> delete_rotate d s p sb; Some (s1, None) }
     }"

definition delete_round :: "'v rb_tree \<Rightarrow> nat option \<Rightarrow> nat \<Rightarrow> ('v rb_tree \<times> (nat option \<times> nat option) option) option" where
  "delete_round s node p =
     do {
       pn \<leftarrow> tree_heap s p;
       let d = (if node = nleft pn then Lft else Rgt);
       (s1, sb) \<leftarrow> delete_red_sibling d s p;
       delete_nephews d s1 p sb
     }"

partial_function (option) delete_loop :: "'v rb_tree \<Rightarrow> nat option \<Rightarrow> nat option \<Rightarrow> ('v rb_tree \<times> nat option) option" where
  "delete_loop s node par =
     (case par of
        None \<Rightarrow> Some (s, node)
      | Some p \<Rightarrow> do {
          red \<leftarrow> is_red s node;
          if red then Some (s, node)
          else do {
            (s1, next) \<leftarrow> delete_round s node p;
            (case next of None \<Rightarrow> Some (s1, node) | Some (node1, par1) \<Rightarrow> delete_loop s1 node1 par1)
          }
        })"

definition rb_balance_delete :: "'v rb_tree \<Rightarrow> nat option \<Rightarrow> nat option \<Rightarrow> 'v rb_tree option" where
  "rb_balance_delete s node par =
     do {
       (s1, node1) \<leftarrow> delete_loop s node par;
       (case node1 of None \<Rightarrow> Some s1 | Some a \<Rightarrow> set_color a RB_BLACK s1)
     }"

subsection \<open>Traversals\<close>

text \<open>The array of keys that the recursion appends to.\<close>

partial_function (option) rb_keys :: "'v rb_tree \<Rightarrow> nat \<Rightarrow> cstring list \<Rightarrow> cstring list option" where
  "rb_keys s a array =
     do {
       n \<leftarrow> tree_heap s a;
       array1 \<leftarrow> (case nleft n of None \<Rightarrow> Some array | Some l \<Rightarrow> rb_keys s l array);
       let array2 = array1 @ [nkey n];
       (case nright n of None \<Rightarrow> Some array2 | Some r \<Rightarrow> rb_keys s r array2)
     }"

partial_function (option) rb_range :: "'v rb_tree \<Rightarrow> nat \<Rightarrow> cstring \<Rightarrow> cstring \<Rightarrow> cstring list \<Rightarrow> cstring list option" where
  "rb_range s a lo hi array =
     do {
       n \<leftarrow> tree_heap s a;
       let cmp_min = strcmp (nkey n) lo;
       let cmp_max = strcmp (nkey n) hi;
       array1 \<leftarrow> (if nleft n \<noteq> None \<and> cmp_min > 0 then rb_range s (the (nleft n)) lo hi array else Some array);
       let array2 = (if cmp_min \<ge> 0 \<and> cmp_max \<le> 0 then array1 @ [nkey n] else array1);
       (if nright n \<noteq> None \<and> cmp_max < 0 then rb_range s (the (nright n)) lo hi array2 else Some array2)
     }"

partial_function (option) rb_black_depth :: "'v rb_tree \<Rightarrow> nat option \<Rightarrow> int option" where
  "rb_black_depth s p =
     (case p of
        None \<Rightarrow> Some 1
      | Some a \<Rightarrow> do {
          n \<leftarrow> tree_heap s a;
          d_left \<leftarrow> rb_black_depth s (nleft n);
          d_right \<leftarrow> rb_black_depth s (nright n);
          if d_left \<noteq> d_right then Some (- 1)
          else Some (d_left + (if ncolor n = RB_BLACK then 1 else 0))
        })"

partial_function (option) rb_size :: "'v rb_tree \<Rightarrow> nat \<Rightarrow> 32 word option" where
  "rb_size s a =
     do {
       n \<leftarrow> tree_heap s a;
       l \<leftarrow> (case nleft n of None \<Rightarrow> Some 0 | Some l \<Rightarrow> rb_size s l);
       r \<leftarrow> (case nright n of None \<Rightarrow> Some 0 | Some r \<Rightarrow> rb_size s r);
       Some (l + 1 + r)
     }"

subsection \<open>Public operations\<close>

definition rbtree_init :: "'v rb_tree" where
  "rbtree_init = \<lparr>tree_heap = (\<lambda>_. None), tree_brk = 0, root = None, tree_dispose = False\<rparr>"

definition rbtree_set_dispose :: "'v rb_tree \<Rightarrow> bool \<Rightarrow> 'v rb_tree" where
  "rbtree_set_dispose s f = s\<lparr>tree_dispose := f\<rparr>"

definition rbtree_destroy :: "'v rb_tree \<Rightarrow> ('v list \<times> 'v rb_tree) option" where
  "rbtree_destroy s = (case root s of None \<Rightarrow> Some ([], s) | Some r \<Rightarrow> rb_destroy r (tree_dispose s) s)"

text \<open>Where a key goes: its parent and the last comparison, unless the key is there already.\<close>

partial_function (option) insert_place ::
    "'v rb_tree \<Rightarrow> cstring \<Rightarrow> nat option \<Rightarrow> int \<Rightarrow> nat option \<Rightarrow> (nat option \<times> int) option option" where
  "insert_place s key par cmp p =
     (case p of
        None \<Rightarrow> Some (Some (par, cmp))
      | Some a \<Rightarrow> do {
          n \<leftarrow> tree_heap s a;
          let cmp1 = strcmp key (nkey n);
          if cmp1 = 0 then Some None
          else insert_place s key (Some a) cmp1 (if cmp1 < 0 then nleft n else nright n)
        })"

text \<open>The node made, unless the key is there already.\<close>

definition rbtree_insert :: "'v rb_tree \<Rightarrow> cstring \<Rightarrow> 'v option \<Rightarrow> (nat option \<times> 'v rb_tree) option" where
  "rbtree_insert s key v =
     (case rb_init key v s of (a, s1) \<Rightarrow> do {
        place \<leftarrow> insert_place s1 key None 0 (root s1);
        (case place of
           None \<Rightarrow> do { (_, s2) \<leftarrow> rb_destroy a False s1; Some (None, s2) }
         | Some (par, cmp) \<Rightarrow> do {
             s2 \<leftarrow> (case par of
                 None \<Rightarrow> Some (s1\<lparr>root := Some a\<rparr>)
               | Some p \<Rightarrow> with_node p (set_child (if cmp < 0 then Lft else Rgt) (Some a)) s1);
             s3 \<leftarrow> with_node a (\<lambda>n. n\<lparr>nparent := par\<rparr>) s2;
             s4 \<leftarrow> rb_balance_insert s3 a;
             Some (Some a, s4)
           })
      })"

definition disposed :: "'v rb_tree \<Rightarrow> 'v option \<Rightarrow> 'v list" where
  "disposed s v = (case v of Some x \<Rightarrow> if tree_dispose s then [x] else [] | None \<Rightarrow> [])"

text \<open>The value returned, the values disposed of and the state.\<close>

definition rbtree_replace :: "'v rb_tree \<Rightarrow> cstring \<Rightarrow> 'v option \<Rightarrow> ('v option \<times> 'v list \<times> 'v rb_tree) option" where
  "rbtree_replace s key v =
     do {
       found \<leftarrow> rb_get s (root s) key;
       (case found of
          None \<Rightarrow> Some (None, [], s)
        | Some a \<Rightarrow> do {
            n \<leftarrow> tree_heap s a;
            s1 \<leftarrow> with_node a (\<lambda>n. n\<lparr>nvalue := v\<rparr>) s;
            Some (v, disposed s (nvalue n), s1)
          })
     }"

definition rbtree_get :: "'v rb_tree \<Rightarrow> cstring \<Rightarrow> 'v option option" where
  "rbtree_get s key =
     do {
       found \<leftarrow> rb_get s (root s) key;
       (case found of None \<Rightarrow> Some None | Some a \<Rightarrow> do { n \<leftarrow> tree_heap s a; Some (nvalue n) })
     }"

text \<open>The node \<open>x\<close> with at most one child leaves the tree; the child takes its place.\<close>

definition unlink_node :: "'v rb_tree \<Rightarrow> nat \<Rightarrow> (nat option \<times> 'v rb_tree) option" where
  "unlink_node s x =
     do {
       xn \<leftarrow> tree_heap s x;
       let t = (if nleft xn \<noteq> None then nleft xn else nright xn);
       s1 \<leftarrow> (case nparent xn of
           None \<Rightarrow> Some (s\<lparr>root := t\<rparr>)
         | Some p \<Rightarrow> do { pn \<leftarrow> tree_heap s p; with_node p (set_child (if Some x = nleft pn then Lft else Rgt) t) s });
       s2 \<leftarrow> (case t of None \<Rightarrow> Some s1 | Some b \<Rightarrow> with_node b (\<lambda>m. m\<lparr>nparent := nparent xn\<rparr>) s1);
       Some (t, s2)
     }"

definition rbtree_delete :: "'v rb_tree \<Rightarrow> cstring \<Rightarrow> (bool \<times> 'v list \<times> 'v rb_tree) option" where
  "rbtree_delete s key =
     do {
       found \<leftarrow> rb_get s (root s) key;
       (case found of
          None \<Rightarrow> Some (False, [], s)
        | Some a \<Rightarrow> do {
            n \<leftarrow> tree_heap s a;
            x \<leftarrow> (case (nleft n, nright n) of (Some _, Some r) \<Rightarrow> rb_min s r | _ \<Rightarrow> Some a);
            (t, s1) \<leftarrow> unlink_node s x;
            xn \<leftarrow> tree_heap s1 x;
            s2 \<leftarrow> (if a \<noteq> x then with_node a (\<lambda>m. m\<lparr>nkey := nkey xn, nvalue := nvalue xn\<rparr>) s1 else Some s1);
            s3 \<leftarrow> (if ncolor xn = RB_BLACK then rb_balance_delete s2 t (nparent xn) else Some s2);
            Some (True, disposed s (nvalue n), s3\<lparr>tree_heap := (tree_heap s3)(x := None)\<rparr>)
          })
     }"

definition rbtree_minimum :: "'v rb_tree \<Rightarrow> cstring option option" where
  "rbtree_minimum s =
     (case root s of None \<Rightarrow> Some None | Some r \<Rightarrow> do { a \<leftarrow> rb_min s r; n \<leftarrow> tree_heap s a; Some (Some (nkey n)) })"

definition rbtree_maximum :: "'v rb_tree \<Rightarrow> cstring option option" where
  "rbtree_maximum s =
     (case root s of None \<Rightarrow> Some None | Some r \<Rightarrow> do { a \<leftarrow> rb_max s r; n \<leftarrow> tree_heap s a; Some (Some (nkey n)) })"

definition rbtree_keys :: "'v rb_tree \<Rightarrow> cstring list option" where
  "rbtree_keys s = (case root s of None \<Rightarrow> Some [] | Some r \<Rightarrow> rb_keys s r [])"

definition rbtree_range :: "'v rb_tree \<Rightarrow> cstring \<Rightarrow> cstring \<Rightarrow> cstring list option" where
  "rbtree_range s lo hi = (case root s of None \<Rightarrow> Some [] | Some r \<Rightarrow> rb_range s r lo hi [])"

definition rbtree_black_depth :: "'v rb_tree \<Rightarrow> int option" where
  "rbtree_black_depth s =
     (case root s of
        None \<Rightarrow> Some 0
      | Some r \<Rightarrow> do {
          n \<leftarrow> tree_heap s r;
          if ncolor n = RB_RED then Some (- 1)
          else do {
            d_left \<leftarrow> rb_black_depth s (nleft n);
            d_right \<leftarrow> rb_black_depth s (nright n);
            Some (if d_left = - 1 \<or> d_right = - 1 \<or> d_left \<noteq> d_right then - 1 else d_left)
          }
        })"

definition rbtree_size :: "'v rb_tree \<Rightarrow> 32 word option" where
  "rbtree_size s = (case root s of None \<Rightarrow> Some 0 | Some r \<Rightarrow> rb_size s r)"

definition rbtree_empty :: "'v rb_tree \<Rightarrow> bool" where
  "rbtree_empty s = (root s = None)"

declare rb_destroy.simps [code] rb_get.simps [code] rb_min.simps [code] rb_max.simps [code] insert_loop.simps [code]
  delete_loop.simps [code] rb_keys.simps [code] rb_range.simps [code] rb_black_depth.simps [code] rb_size.simps [code]
  insert_place.simps [code]

end
