(* ===== verification/RB_Rotate.thy ===== *)
theory RB_Rotate
  imports RB_Tree "HOL-Library.Multiset"
begin

text \<open>
  What the heap of the red-black tree stands for: a tree whose nodes carry their addresses, or a subtree
  in a context of ancestors. Recolouring and rotation act on it as they do on paper, whatever the
  context.
\<close>

subsection \<open>Trees and contexts\<close>

datatype 'v rbt = Leaf | Node nat rb_color "'v rbt" cstring "'v option" "'v rbt"

fun ptr :: "'v rbt \<Rightarrow> nat option" where
  "ptr Leaf = None"
| "ptr (Node a c l k v r) = Some a"

fun addrs :: "'v rbt \<Rightarrow> nat list" where
  "addrs Leaf = []"
| "addrs (Node a c l k v r) = a # addrs l @ addrs r"

fun inorder :: "'v rbt \<Rightarrow> (cstring \<times> 'v option) list" where
  "inorder Leaf = []"
| "inorder (Node a c l k v r) = inorder l @ (k, v) # inorder r"

text \<open>A node with its subtree on the side \<open>d\<close> first.\<close>

fun bnode :: "side \<Rightarrow> nat \<Rightarrow> rb_color \<Rightarrow> 'v rbt \<Rightarrow> cstring \<Rightarrow> 'v option \<Rightarrow> 'v rbt \<Rightarrow> 'v rbt" where
  "bnode Lft a c x k v y = Node a c x k v y"
| "bnode Rgt a c x k v y = Node a c y k v x"

datatype 'v frame = Frame side nat rb_color cstring "'v option" "'v rbt"

fun plug :: "'v frame list \<Rightarrow> 'v rbt \<Rightarrow> 'v rbt" where
  "plug [] t = t"
| "plug (Frame d a c k v y # ctx) t = plug ctx (bnode d a c t k v y)"

fun up :: "'v frame list \<Rightarrow> nat option" where
  "up [] = None"
| "up (Frame d a c k v y # ctx) = Some a"

fun ctx_addrs :: "'v frame list \<Rightarrow> nat list" where
  "ctx_addrs [] = []"
| "ctx_addrs (Frame d a c k v y # ctx) = a # addrs y @ ctx_addrs ctx"

fun tree_rep :: "(nat \<Rightarrow> 'v rb_node option) \<Rightarrow> nat option \<Rightarrow> 'v rbt \<Rightarrow> bool" where
  "tree_rep h par Leaf = True"
| "tree_rep h par (Node a c l k v r) \<longleftrightarrow>
     h a = Some \<lparr>nkey = k, nvalue = v, ncolor = c, nparent = par, nleft = ptr l, nright = ptr r\<rparr>
     \<and> tree_rep h (Some a) l \<and> tree_rep h (Some a) r"

fun ctx_rep :: "(nat \<Rightarrow> 'v rb_node option) \<Rightarrow> nat option \<Rightarrow> 'v frame list \<Rightarrow> bool" where
  "ctx_rep h p [] = True"
| "ctx_rep h p (Frame d a c k v y # ctx) \<longleftrightarrow>
     h a = Some (set_child d p (set_child (other d) (ptr y)
       \<lparr>nkey = k, nvalue = v, ncolor = c, nparent = up ctx, nleft = None, nright = None\<rparr>))
     \<and> tree_rep h (Some a) y \<and> ctx_rep h (Some a) ctx"

definition reps :: "'v rb_tree \<Rightarrow> 'v rbt \<Rightarrow> bool" where
  "reps s t \<longleftrightarrow> tree_rep (tree_heap s) None t \<and> root s = ptr t \<and> distinct (addrs t)"

lemma other_other [simp]: "other (other d) = d"
  by (cases d) auto

lemma other_neq [simp]: "other d \<noteq> d" "d \<noteq> other d"
  by (cases d; simp)+

lemma ptr_bnode [simp]: "ptr (bnode d a c x k v y) = Some a"
  by (cases d) auto

lemma mset_addrs_bnode: "mset (addrs (bnode d a c x k v y)) = add_mset a (mset (addrs x) + mset (addrs y))"
  by (cases d) auto

lemma set_addrs_bnode [simp]: "set (addrs (bnode d a c x k v y)) = insert a (set (addrs x) \<union> set (addrs y))"
  by (cases d) auto

lemma distinct_addrs_bnode [simp]:
  "distinct (addrs (bnode d a c x k v y)) \<longleftrightarrow> a \<notin> set (addrs x) \<and> a \<notin> set (addrs y) \<and> distinct (addrs x)
    \<and> distinct (addrs y) \<and> set (addrs x) \<inter> set (addrs y) = {}"
  by (cases d) auto

lemma ptr_addrs: "ptr t = Some a \<Longrightarrow> a \<in> set (addrs t)"
  by (cases t) auto

lemma ptr_None [simp]: "ptr t = None \<longleftrightarrow> t = Leaf" "None = ptr t \<longleftrightarrow> t = Leaf"
  by (cases t; simp)+

lemma up_addrs: "up ctx = Some a \<Longrightarrow> a \<in> set (ctx_addrs ctx)"
  by (cases ctx rule: up.cases) auto

lemma mset_addrs_plug: "mset (addrs (plug ctx t)) = mset (ctx_addrs ctx) + mset (addrs t)"
  by (induction ctx t rule: plug.induct) (auto simp: mset_addrs_bnode)

lemma set_addrs_plug [simp]: "set (addrs (plug ctx t)) = set (ctx_addrs ctx) \<union> set (addrs t)"
  using arg_cong[OF mset_addrs_plug, of set_mset ctx t] by simp

lemma distinct_addrs_plug [simp]:
  "distinct (addrs (plug ctx t)) \<longleftrightarrow> distinct (ctx_addrs ctx) \<and> distinct (addrs t)
    \<and> set (ctx_addrs ctx) \<inter> set (addrs t) = {}"
proof -
  have "mset (addrs (plug ctx t)) = mset (ctx_addrs ctx @ addrs t)" by (simp add: mset_addrs_plug)
  then show ?thesis by (metis mset_eq_imp_distinct_iff distinct_append)
qed

lemma tree_rep_bnode [simp]:
  "tree_rep h par (bnode d a c x k v y) \<longleftrightarrow>
     h a = Some (set_child d (ptr x) (set_child (other d) (ptr y)
       \<lparr>nkey = k, nvalue = v, ncolor = c, nparent = par, nleft = None, nright = None\<rparr>))
     \<and> tree_rep h (Some a) x \<and> tree_rep h (Some a) y"
  by (cases d) auto

lemma tree_rep_plug [simp]: "tree_rep h None (plug ctx t) \<longleftrightarrow> ctx_rep h (ptr t) ctx \<and> tree_rep h (up ctx) t"
  by (induction ctx t rule: plug.induct) auto

lemma tree_rep_frame [simp]: "a \<notin> set (addrs t) \<Longrightarrow> tree_rep (h(a := x)) par t = tree_rep h par t"
  by (induction t arbitrary: par) auto

lemma ctx_rep_frame [simp]: "a \<notin> set (ctx_addrs ctx) \<Longrightarrow> ctx_rep (h(a := x)) p ctx = ctx_rep h p ctx"
  by (induction h p ctx rule: ctx_rep.induct) auto

lemma with_node_simp: "tree_heap s a = Some n \<Longrightarrow> with_node a f s = Some (s\<lparr>tree_heap := (tree_heap s)(a \<mapsto> f n)\<rparr>)"
  by (simp add: with_node_def)

lemma repsD:
  assumes "reps s (plug ctx t)"
  shows "ctx_rep (tree_heap s) (ptr t) ctx" "tree_rep (tree_heap s) (up ctx) t"
    "distinct (ctx_addrs ctx)" "distinct (addrs t)" "set (ctx_addrs ctx) \<inter> set (addrs t) = {}"
  using assms by (simp_all add: reps_def)

lemma ptr_plug: "ptr (plug ctx t) = (if ctx = [] then ptr t else up [last ctx])"
  by (induction ctx t rule: plug.induct) (auto split: if_splits)

lemma ptr_plug_cong: "ptr t = ptr t' \<Longrightarrow> ptr (plug ctx t) = ptr (plug ctx t')"
  by (simp add: ptr_plug)

text \<open>What does not change: nothing is allocated or freed.\<close>

definition keeps_tree :: "'v rb_tree \<Rightarrow> 'v rb_tree \<Rightarrow> bool" where
  "keeps_tree s s' \<longleftrightarrow> tree_brk s' = tree_brk s \<and> tree_dispose s' = tree_dispose s
     \<and> (\<forall>a. tree_heap s' a = None \<longleftrightarrow> tree_heap s a = None)"

lemma keeps_tree_refl [simp]: "keeps_tree s s"
  by (simp add: keeps_tree_def)

lemma keeps_tree_trans: "keeps_tree s s' \<Longrightarrow> keeps_tree s' s'' \<Longrightarrow> keeps_tree s s''"
  by (simp add: keeps_tree_def)

subsection \<open>Recolouring and rotating in a context\<close>

lemma reps_node:
  assumes "reps s (plug ctx (bnode d a c x k v y))"
  obtains n where "tree_heap s a = Some n" "child d n = ptr x" "child (other d) n = ptr y" "ncolor n = c"
    "nparent n = up ctx" "nkey n = k" "nvalue n = v"
    "nleft n = (if d = Lft then ptr x else ptr y)" "nright n = (if d = Lft then ptr y else ptr x)"
proof -
  have "tree_heap s a = Some (set_child d (ptr x) (set_child (other d) (ptr y)
       \<lparr>nkey = k, nvalue = v, ncolor = c, nparent = up ctx, nleft = None, nright = None\<rparr>))"
    using repsD(2)[OF assms] by simp
  then show thesis by (rule that) (cases d; simp)+
qed

lemma reps_update:
  assumes r: "reps s (plug ctx (bnode d a c x k v y))"
    and f: "\<And>n. f n = n\<lparr>ncolor := g n, nkey := kf n, nvalue := vf n\<rparr>"
    and n: "tree_heap s a = Some n"
  shows "\<exists>s'. with_node a f s = Some s' \<and> reps s' (plug ctx (bnode d a (g n) x (kf n) (vf n) y)) \<and> keeps_tree s s'"
proof -
  let ?s = "s\<lparr>tree_heap := (tree_heap s)(a \<mapsto> f n)\<rparr>"
  have rt: "root s = ptr (plug ctx (bnode d a c x k v y))" using r by (simp add: reps_def)
  have "ptr (plug ctx (bnode d a (g n) x (kf n) (vf n) y)) = ptr (plug ctx (bnode d a c x k v y))"
    by (rule ptr_plug_cong) simp
  then have "reps ?s (plug ctx (bnode d a (g n) x (kf n) (vf n) y))"
    unfolding reps_def using repsD[OF r] rt n f by (cases d) (auto simp: insert_absorb)
  then show ?thesis using n by (auto simp: with_node_def keeps_tree_def)
qed

lemma reps_color:
  assumes r: "reps s (plug ctx (bnode d a c x k v y))"
  shows "\<exists>s'. set_color a c' s = Some s' \<and> reps s' (plug ctx (bnode d a c' x k v y)) \<and> keeps_tree s s'"
proof -
  obtain n where n: "tree_heap s a = Some n" "nkey n = k" "nvalue n = v" by (rule reps_node[OF r])
  show ?thesis
    using reps_update[OF r, of "\<lambda>n. n\<lparr>ncolor := c'\<rparr>" nvalue nkey "\<lambda>_. c'" n] n by simp
qed

lemma keeps_with_node: "with_node a f s = Some s' \<Longrightarrow> keeps_tree s s'"
  by (auto simp: with_node_def bind_eq_Some_conv keeps_tree_def split: if_splits)

lemma keeps_rotate:
  fixes s :: "'v rb_tree"
  assumes "rb_rotate d s a = Some s'"
  shows "keeps_tree s s'"
proof -
  from assms obtain n tn :: "'v rb_node" and t s1 s2 s3 s4 s5 where *:
    "(case nparent n of
           None \<Rightarrow> Some (s\<lparr>root := Some t\<rparr>)
         | Some p \<Rightarrow> do { pn \<leftarrow> tree_heap s p; with_node p (set_child (if Some a = nleft pn then Lft else Rgt) (Some t)) s }) = Some s1"
    "(case child d tn of None \<Rightarrow> Some s1 | Some b \<Rightarrow> with_node b (\<lambda>m. m\<lparr>nparent := Some a\<rparr>) s1) = Some s2"
    "with_node a (set_child (other d) (child d tn)) s2 = Some s3" "with_node t (set_child d (Some a)) s3 = Some s4"
    "with_node t (\<lambda>m. m\<lparr>nparent := nparent n\<rparr>) s4 = Some s5" "with_node a (\<lambda>m. m\<lparr>nparent := Some t\<rparr>) s5 = Some s'"
    unfolding rb_rotate_def bind_eq_Some_conv by blast
  have 1: "keeps_tree s s1"
    using *(1) by (auto simp: bind_eq_Some_conv keeps_tree_def split: option.splits dest!: keeps_with_node)
  have 2: "keeps_tree s1 s2" using *(2) by (auto split: option.splits dest: keeps_with_node)
  show ?thesis using 1 2 *(3-6)[THEN keeps_with_node] keeps_tree_trans by blast
qed

text \<open>A rotation at the root, and one below a parent.\<close>

lemma rotate_root:
  assumes "tree_rep (tree_heap s) None (bnode d a c x k v (bnode d b c' y k' v' z))"
    and ab: "a \<noteq> b" "a \<notin> set (addrs x)" "a \<notin> set (addrs y)" "a \<notin> set (addrs z)" "b \<notin> set (addrs x)" "b \<notin> set (addrs y)" "b \<notin> set (addrs z)"
    and disj: "set (addrs x) \<inter> set (addrs y) = {}" "set (addrs y) \<inter> set (addrs z) = {}" "distinct (addrs y)"
  shows "\<exists>s'. rb_rotate d s a = Some s' \<and> root s' = Some b
    \<and> tree_rep (tree_heap s') None (bnode d b c' (bnode d a c x k v y) k' v' z)"
proof (cases y)
  case Leaf
  then show ?thesis using assms(1) ab unfolding rb_rotate_def
    by (cases d) (simp_all add: with_node_def)
next
  case (Node q cq l kq vq r)
  have "q \<notin> set (addrs x)" "q \<notin> set (addrs z)" "q \<notin> set (addrs l)" "q \<notin> set (addrs r)" "q \<noteq> a" "q \<noteq> b"
    "a \<notin> set (addrs l)" "a \<notin> set (addrs r)" "b \<notin> set (addrs l)" "b \<notin> set (addrs r)"
    using disj ab Node by auto
  with Node show ?thesis using assms(1) ab unfolding rb_rotate_def
    by (cases d) (simp_all add: with_node_def)
qed

lemma rotate_below:
  assumes "ctx_rep (tree_heap s) (Some a) (Frame e p cp kp vp w # ctx)"
      "tree_rep (tree_heap s) (Some p) (bnode d a c x k v (bnode d b c' y k' v' z))"
    and ab: "a \<noteq> b" "a \<notin> set (addrs x)" "a \<notin> set (addrs y)" "a \<notin> set (addrs z)" "b \<notin> set (addrs x)" "b \<notin> set (addrs y)" "b \<notin> set (addrs z)"
    and disj: "set (addrs x) \<inter> set (addrs y) = {}" "set (addrs y) \<inter> set (addrs z) = {}" "distinct (addrs y)"
    and p: "p \<noteq> a" "p \<noteq> b" "p \<notin> set (addrs x)" "p \<notin> set (addrs y)" "p \<notin> set (addrs z)" "p \<notin> set (addrs w)" "p \<notin> set (ctx_addrs ctx)"
    and w: "a \<notin> set (addrs w)" "b \<notin> set (addrs w)" "a \<notin> set (ctx_addrs ctx)" "b \<notin> set (ctx_addrs ctx)"
      "set (addrs y) \<inter> set (addrs w) = {}" "set (addrs y) \<inter> set (ctx_addrs ctx) = {}"
  shows "\<exists>s'. rb_rotate d s a = Some s' \<and> root s' = root s \<and> ctx_rep (tree_heap s') (Some b) (Frame e p cp kp vp w # ctx)
    \<and> tree_rep (tree_heap s') (Some p) (bnode d b c' (bnode d a c x k v y) k' v' z)"
proof -
  have aw: "ptr w \<noteq> Some a" "Some a \<noteq> ptr w" using w(1) ptr_addrs[of w a] by auto
  show ?thesis
  proof (cases y)
    case Leaf
    then show ?thesis using assms(1,2) ab p w(1-4) aw unfolding rb_rotate_def
      by (cases d; cases e) (simp_all add: with_node_def)
  next
    case (Node q cq l kq vq r)
    have "q \<notin> set (addrs x)" "q \<notin> set (addrs z)" "q \<notin> set (addrs l)" "q \<notin> set (addrs r)" "q \<noteq> a" "q \<noteq> b" "q \<noteq> p"
      "q \<notin> set (addrs w)" "q \<notin> set (ctx_addrs ctx)" "a \<notin> set (addrs l)" "a \<notin> set (addrs r)" "b \<notin> set (addrs l)" "b \<notin> set (addrs r)"
      "p \<notin> set (addrs l)" "p \<notin> set (addrs r)"
      using disj ab w p Node by auto
    with Node show ?thesis using assms(1,2) ab p w(1-4) aw unfolding rb_rotate_def
      by (cases d; cases e) (simp_all add: with_node_def)
  qed
qed

lemma rotate_reps:
  assumes r: "reps s (plug ctx (bnode d a c x k v (bnode d b c' y k' v' z)))"
  shows "\<exists>s'. rb_rotate d s a = Some s' \<and> reps s' (plug ctx (bnode d b c' (bnode d a c x k v y) k' v' z)) \<and> keeps_tree s s'"
proof -
  let ?new = "plug ctx (bnode d b c' (bnode d a c x k v y) k' v' z)"
  note R = repsD[OF r]
  have rt: "root s = ptr (plug ctx (bnode d a c x k v (bnode d b c' y k' v' z)))" using r by (simp add: reps_def)
  have dist: "distinct (addrs ?new)" using R(3-5) by auto
  have ab: "a \<noteq> b" "a \<notin> set (addrs x)" "a \<notin> set (addrs y)" "a \<notin> set (addrs z)" "b \<notin> set (addrs x)" "b \<notin> set (addrs y)" "b \<notin> set (addrs z)"
    and disj: "set (addrs x) \<inter> set (addrs y) = {}" "set (addrs y) \<inter> set (addrs z) = {}" "distinct (addrs y)"
    using R(4) by auto
  have "\<exists>s'. rb_rotate d s a = Some s' \<and> root s' = ptr ?new \<and> tree_rep (tree_heap s') None ?new"
  proof (cases ctx)
    case Nil
    then show ?thesis using rotate_root[OF _ ab disj] R(2) by simp
  next
    case (Cons f ctx1)
    obtain e p cp kp vp w where f: "f = Frame e p cp kp vp w" by (cases f)
    have p: "p \<noteq> a" "p \<noteq> b" "p \<notin> set (addrs x)" "p \<notin> set (addrs y)" "p \<notin> set (addrs z)" "p \<notin> set (addrs w)" "p \<notin> set (ctx_addrs ctx1)"
      "a \<notin> set (addrs w)" "b \<notin> set (addrs w)" "a \<notin> set (ctx_addrs ctx1)" "b \<notin> set (ctx_addrs ctx1)"
      "set (addrs y) \<inter> set (addrs w) = {}" "set (addrs y) \<inter> set (ctx_addrs ctx1) = {}"
      using R(3,5) Cons f by auto
    have "\<exists>s'. rb_rotate d s a = Some s' \<and> root s' = root s \<and> ctx_rep (tree_heap s') (Some b) ctx
      \<and> tree_rep (tree_heap s') (up ctx) (bnode d b c' (bnode d a c x k v y) k' v' z)"
      using rotate_below[OF _ _ ab disj p] R(1,2) unfolding Cons f by simp
    moreover have "ptr ?new = root s" using rt Cons by (simp add: ptr_plug)
    ultimately show ?thesis by (auto simp del: tree_rep_bnode ctx_rep.simps)
  qed
  with dist show ?thesis using keeps_rotate by (auto simp: reps_def simp del: tree_rep_plug)
qed

end
