(* ===== verification/RB_Balance.thy ===== *)
theory RB_Balance
  imports RB_Rotate
begin

text \<open>
  The loops that restore the balance after an insertion and after a deletion: they end, follow no bad
  pointer, fail no assertion, and leave a red-black tree with the same pairs in the same order.
\<close>

subsection \<open>Red-black trees\<close>

fun color :: "'v rbt \<Rightarrow> rb_color" where
  "color Leaf = RB_BLACK"
| "color (Node a c l k v r) = c"

fun blackened :: "rb_color \<Rightarrow> nat" where
  "blackened RB_BLACK = 1"
| "blackened RB_RED = 0"

fun bheight :: "'v rbt \<Rightarrow> nat" where
  "bheight Leaf = 0"
| "bheight (Node a c l k v r) = bheight l + blackened c"

fun rb_ok :: "'v rbt \<Rightarrow> bool" where
  "rb_ok Leaf = True"
| "rb_ok (Node a c l k v r) \<longleftrightarrow> rb_ok l \<and> rb_ok r \<and> bheight l = bheight r
     \<and> (c = RB_RED \<longrightarrow> color l = RB_BLACK \<and> color r = RB_BLACK)"

text \<open>The root is black: above it, everything counts as red.\<close>

fun head_color :: "'v frame list \<Rightarrow> rb_color" where
  "head_color [] = RB_RED"
| "head_color (Frame d a c k v y # ctx) = c"

text \<open>A context in which a subtree of black height \<open>n\<close> fits.\<close>

fun ctx_ok :: "nat \<Rightarrow> 'v frame list \<Rightarrow> bool" where
  "ctx_ok n [] = True"
| "ctx_ok n (Frame d a c k v y # ctx) \<longleftrightarrow> rb_ok y \<and> bheight y = n
     \<and> (c = RB_RED \<longrightarrow> color y = RB_BLACK \<and> head_color ctx = RB_BLACK) \<and> ctx_ok (n + blackened c) ctx"

definition rb_valid :: "'v rbt \<Rightarrow> bool" where
  "rb_valid t \<longleftrightarrow> rb_ok t \<and> color t = RB_BLACK"

lemma color_cases: "c = RB_RED \<or> c = RB_BLACK"
  by (cases c) auto

lemma bnode_not_Leaf [simp]: "bnode d a c x k v y \<noteq> Leaf"
  by (cases d) auto

lemma color_bnode [simp]: "color (bnode d a c x k v y) = c"
  by (cases d) auto

lemma bheight_bnode: "bheight x = bheight y \<Longrightarrow> bheight (bnode d a c x k v y) = bheight x + blackened c"
  by (cases d) auto

lemma rb_ok_bnode [simp]: "rb_ok (bnode d a c x k v y) \<longleftrightarrow> rb_ok x \<and> rb_ok y \<and> bheight x = bheight y
     \<and> (c = RB_RED \<longrightarrow> color x = RB_BLACK \<and> color y = RB_BLACK)"
  by (cases d) auto

lemma rb_valid_plug:
  "rb_valid (plug ctx t) \<longleftrightarrow> rb_ok t \<and> (color t = RB_RED \<longrightarrow> head_color ctx = RB_BLACK) \<and> ctx_ok (bheight t) ctx"
proof (induction ctx t rule: plug.induct)
  case (1 t)
  then show ?case using color_cases[of "color t"] by (auto simp: rb_valid_def)
next
  case (2 d a c k v y ctx t)
  show ?case
    unfolding plug.simps 2 using bheight_bnode[of t y d a c k v]
    by (cases c; cases "color t"; cases "bheight t = bheight y") auto
qed

lemma bnode_exhaust:
  assumes "t \<noteq> Leaf"
  obtains a c x k v y where "t = bnode d a c x k v y"
proof (cases t)
  case (Node a c l k v r)
  then have "t = bnode d a c (if d = Lft then l else r) k v (if d = Lft then r else l)" by (cases d) simp_all
  then show thesis by (rule that)
qed (use assms in simp)

lemma inorder_plug_parts: "\<exists>ls rs. \<forall>t. inorder (plug ctx t) = ls @ inorder t @ rs"
proof (induction ctx)
  case (Cons f ctx)
  then obtain ls rs where l: "\<And>t. inorder (plug ctx t) = ls @ inorder t @ rs" by blast
  obtain d a c k v y where f: "f = Frame d a c k v y" by (cases f)
  show ?case
  proof (cases d)
    case Lft
    then show ?thesis using l f by (intro exI[of _ ls] exI[of _ "(k, v) # inorder y @ rs"]) simp
  next
    case Rgt
    then show ?thesis using l f by (intro exI[of _ "ls @ inorder y @ [(k, v)]"] exI[of _ rs]) simp
  qed
qed (intro exI[of _ "[]"], simp)

lemma inorder_plug: "inorder t = inorder t' \<Longrightarrow> inorder (plug ctx t) = inorder (plug ctx t')"
  using inorder_plug_parts[of ctx] by auto

lemma inorder_bnode_rotate:
  "inorder (bnode d b c' (bnode d a c x k v y) k' v' z) = inorder (bnode d a c0 x k v (bnode d b c1 y k' v' z))"
  by (cases d) auto

lemma inorder_color: "inorder (bnode d a c x k v y) = inorder (bnode d a c' x k v y)"
  by (cases d) auto

text \<open>A tree that a loop may leave: in the heap, with the same pairs in the same order.\<close>

definition reached :: "'v rb_tree \<Rightarrow> 'v rbt \<Rightarrow> 'v rb_tree \<Rightarrow> 'v rbt \<Rightarrow> bool" where
  "reached s t s' t' \<longleftrightarrow> reps s' t' \<and> keeps_tree s s' \<and> inorder t' = inorder t \<and> set (addrs t') = set (addrs t)"

lemma reached_trans: "reached s t s1 t1 \<Longrightarrow> reached s1 t1 s2 t2 \<Longrightarrow> reached s t s2 t2"
  unfolding reached_def by (metis keeps_tree_trans)

lemma reached_refl: "reps s t \<Longrightarrow> reached s t s t"
  by (simp add: reached_def)

lemma reached_reps: "reached s t s' t' \<Longrightarrow> reps s' t'"
  by (simp add: reached_def)

lemma reached_color:
  assumes "reached s0 t0 s (plug ctx (bnode d a c x k v y))"
  shows "\<exists>s'. set_color a c' s = Some s' \<and> reached s0 t0 s' (plug ctx (bnode d a c' x k v y))"
proof -
  obtain s' where s': "set_color a c' s = Some s'" "reps s' (plug ctx (bnode d a c' x k v y))" "keeps_tree s s'"
    using reps_color[OF reached_reps[OF assms], of c'] by blast
  moreover have "inorder (plug ctx (bnode d a c' x k v y)) = inorder (plug ctx (bnode d a c x k v y))"
    by (intro inorder_plug inorder_color)
  moreover have "keeps_tree s0 s'" using assms s'(3) keeps_tree_trans unfolding reached_def by blast
  ultimately show ?thesis using assms by (auto simp: reached_def)
qed

lemma reached_rotate:
  assumes "reached s0 t0 s (plug ctx (bnode d a c x k v (bnode d b c' y k' v' z)))"
  shows "\<exists>s'. rb_rotate d s a = Some s' \<and> reached s0 t0 s' (plug ctx (bnode d b c' (bnode d a c x k v y) k' v' z))"
proof -
  obtain s' where s': "rb_rotate d s a = Some s'"
      "reps s' (plug ctx (bnode d b c' (bnode d a c x k v y) k' v' z))" "keeps_tree s s'"
    using rotate_reps[OF reached_reps[OF assms]] by blast
  moreover have "inorder (plug ctx (bnode d b c' (bnode d a c x k v y) k' v' z))
      = inorder (plug ctx (bnode d a c x k v (bnode d b c' y k' v' z)))"
    by (intro inorder_plug inorder_bnode_rotate)
  moreover have "keeps_tree s0 s'" using assms s'(3) keeps_tree_trans unfolding reached_def by blast
  ultimately show ?thesis using assms by (auto simp: reached_def)
qed

lemma bnode_other: "bnode (other d) a c x k v y = bnode d a c y k v x"
  by (cases d) auto

subsection \<open>After an insertion\<close>

lemma is_red_reps:
  assumes "tree_rep (tree_heap s) par t"
  shows "is_red s (ptr t) = Some (color t = RB_RED)"
  using assms by (cases t) (simp_all add: is_red_def)

lemma reps_sibling:
  assumes "reps s (plug (Frame d a c k v y # ctx) t)"
  shows "is_red s (ptr y) = Some (color y = RB_RED)" "is_red s (ptr t) = Some (color t = RB_RED)"
    "ptr t \<noteq> None \<Longrightarrow> ptr y \<noteq> ptr t"
proof -
  note R = repsD[OF assms]
  show "is_red s (ptr y) = Some (color y = RB_RED)" using R(1) is_red_reps[of s "Some a" y] by simp
  show "is_red s (ptr t) = Some (color t = RB_RED)" using R(2) is_red_reps[of s "Some a" t] by simp
  show "ptr t \<noteq> None \<Longrightarrow> ptr y \<noteq> ptr t" using R(5) ptr_addrs[of t] ptr_addrs[of y] by (cases "ptr t") auto
qed

lemma reps_frame_node:
  assumes "reps s (plug (Frame d a c k v y # ctx) t)"
  obtains n where "tree_heap s a = Some n" "child d n = ptr t" "child (other d) n = ptr y" "ncolor n = c"
    "nparent n = up ctx" "nkey n = k" "nvalue n = v"
    "nleft n = (if d = Lft then ptr t else ptr y)" "nright n = (if d = Lft then ptr y else ptr t)"
  using reps_node[of s ctx d a c t k v y] assms by auto

text \<open>The side of its parent a subtree is on, as the source finds it out.\<close>

lemma reps_side:
  assumes "reps s (plug (Frame d a c k v y # ctx) t)" "tree_heap s a = Some n" "t \<noteq> Leaf"
  shows "(if ptr t = nleft n then Lft else Rgt) = d"
proof -
  obtain m where "tree_heap s a = Some m" "nleft m = (if d = Lft then ptr t else ptr y)"
    by (rule reps_frame_node[OF assms(1)])
  then show ?thesis using reps_sibling(3)[OF assms(1)] assms(2,3) by (cases d) auto
qed

lemma plug_swap: "plug (Frame d a c k v y # ctx) t = plug (Frame (other d) a c k v t # ctx) y"
  by (simp add: bnode_other)

lemma reps_focus:
  assumes "reps s (plug ctx t)" "ptr t = Some a"
  shows "\<exists>n. tree_heap s a = Some n \<and> nparent n = up ctx \<and> ncolor n = color t"
  using repsD(2)[OF assms(1)] assms(2) by (cases t) auto

lemma rb_uncle_reps:
  assumes r: "reps s (plug (Frame d p c kp vp y # Frame e g c' kg vg u # ctx) t)" and t: "ptr t = Some a"
  shows "rb_uncle s a = Some (ptr u)"
proof -
  obtain n where n: "tree_heap s a = Some n" "nparent n = Some p" using reps_focus[OF r t] by auto
  obtain pn where pn: "tree_heap s p = Some pn" "nparent pn = Some g"
    by (rule reps_frame_node[OF r]) auto
  have r': "reps s (plug (Frame e g c' kg vg u # ctx) (bnode d p c t kp vp y))" using r by simp
  obtain gn where gn: "tree_heap s g = Some gn" "nleft gn = (if e = Lft then Some p else ptr u)"
      "nright gn = (if e = Lft then ptr u else Some p)"
    by (rule reps_frame_node[OF r']) auto
  show ?thesis using n pn gn reps_side[OF r' gn(1)] by (cases e) (auto simp: rb_uncle_def)
qed

text \<open>The uncle is red: the conflict moves up by two.\<close>

lemma insert_red_uncle:
  assumes r: "reached s0 t0 s
      (plug (Frame d p RB_RED kp vp y # Frame e g RB_BLACK kg vg (bnode e u RB_RED u1 ku vu u2) # ctx) t)"
    and t: "ptr t = Some a"
  shows "\<exists>s'. insert_loop s a = insert_loop s' g \<and> reached s0 t0 s'
        (plug ctx (bnode e g RB_RED (bnode d p RB_BLACK t kp vp y) kg vg (bnode e u RB_BLACK u1 ku vu u2)))"
proof -
  let ?u = "\<lambda>c. bnode e u c u1 ku vu u2" and ?p = "\<lambda>c. bnode d p c t kp vp y"
  note r' = reached_reps[OF r]
  obtain n where n: "tree_heap s a = Some n" "nparent n = Some p" using reps_focus[OF r' t] by auto
  obtain pn where pn: "tree_heap s p = Some pn" "ncolor pn = RB_RED" "nparent pn = Some g"
    by (rule reps_frame_node[OF r']) auto
  have un: "rb_uncle s a = Some (Some u)" using rb_uncle_reps[OF r' t] by simp
  have red: "is_red s (Some u) = Some True"
    using reps_sibling(1)[of s e g RB_BLACK kg vg "?u RB_RED" ctx "?p RB_RED"] r' by simp
  have "reached s0 t0 s (plug (Frame e g RB_BLACK kg vg (?u RB_RED) # ctx) (?p RB_RED))" using r by simp
  from reached_color[OF this, of RB_BLACK] obtain s1 where s1: "set_color p RB_BLACK s = Some s1"
      "reached s0 t0 s1 (plug (Frame (other e) g RB_BLACK kg vg (?p RB_BLACK) # ctx) (?u RB_RED))"
    by (metis plug_swap)
  from reached_color[OF this(2), of RB_BLACK] obtain s2 where s2: "set_color u RB_BLACK s1 = Some s2"
      "reached s0 t0 s2 (plug ctx (bnode e g RB_BLACK (?p RB_BLACK) kg vg (?u RB_BLACK)))"
    by (auto simp: bnode_other)
  from reached_color[OF this(2), of RB_RED] obtain s3 where s3: "set_color g RB_RED s2 = Some s3"
      "reached s0 t0 s3 (plug ctx (bnode e g RB_RED (?p RB_BLACK) kg vg (?u RB_BLACK)))" by blast
  have "insert_loop s a = insert_loop s3 g"
    by (subst insert_loop.simps) (simp add: n pn un red s1(1) s2(1) s3(1))
  with s3(2) show ?thesis by blast
qed

text \<open>The uncle is black: after the first rotation, if one is needed, the node is on the outer side.\<close>

lemma insert_outer:
  assumes r: "reached s0 t0 s (plug (Frame e q RB_RED kq vq y # Frame e g RB_BLACK kg vg u # ctx) t)"
    and t: "ptr t = Some b"
  shows "\<exists>n s2 qn s3 s4. tree_heap s b = Some n \<and> nparent n = Some q \<and> set_color q RB_BLACK s = Some s2
    \<and> tree_heap s2 q = Some qn \<and> nparent qn = Some g \<and> set_color g RB_RED s2 = Some s3 \<and> rb_rotate (other e) s3 g = Some s4
    \<and> insert_loop s4 b = Some s4 \<and> reached s0 t0 s4 (plug ctx (bnode e q RB_BLACK t kq vq (bnode e g RB_RED y kg vg u)))"
proof -
  obtain n where n: "tree_heap s b = Some n" "nparent n = Some q" using reps_focus[OF reached_reps[OF r] t] by auto
  have "reached s0 t0 s (plug (Frame e g RB_BLACK kg vg u # ctx) (bnode e q RB_RED t kq vq y))" using r by simp
  from reached_color[OF this, of RB_BLACK] obtain s2 where s2: "set_color q RB_BLACK s = Some s2"
      "reached s0 t0 s2 (plug (Frame e g RB_BLACK kg vg u # ctx) (bnode e q RB_BLACK t kq vq y))" by blast
  obtain qn where qn: "tree_heap s2 q = Some qn" "nparent qn = Some g"
    using reps_focus[OF reached_reps[OF s2(2)]] by auto
  from s2(2) have "reached s0 t0 s2 (plug ctx (bnode e g RB_BLACK (bnode e q RB_BLACK t kq vq y) kg vg u))" by simp
  from reached_color[OF this, of RB_RED] obtain s3 where s3: "set_color g RB_RED s2 = Some s3"
      "reached s0 t0 s3 (plug ctx (bnode e g RB_RED (bnode e q RB_BLACK t kq vq y) kg vg u))" by blast
  then have "reached s0 t0 s3 (plug ctx (bnode (other e) g RB_RED u kg vg (bnode (other e) q RB_BLACK y kq vq t)))"
    by (simp add: bnode_other)
  from reached_rotate[OF this] obtain s4 where s4: "rb_rotate (other e) s3 g = Some s4"
      "reached s0 t0 s4 (plug ctx (bnode e q RB_BLACK t kq vq (bnode e g RB_RED y kg vg u)))"
    by (auto simp: bnode_other)
  then have r4: "reps s4 (plug (Frame e q RB_BLACK kq vq (bnode e g RB_RED y kg vg u) # ctx) t)"
    by (simp add: reached_def)
  obtain n4 where n4: "tree_heap s4 b = Some n4" "nparent n4 = Some q" using reps_focus[OF r4 t] by auto
  obtain qn4 where "tree_heap s4 q = Some qn4" "ncolor qn4 = RB_BLACK" by (rule reps_frame_node[OF r4])
  with n4 have "insert_loop s4 b = Some s4" by (subst insert_loop.simps) simp
  with n s2(1) qn s3(1) s4 show ?thesis by blast
qed

lemma insert_black_uncle:
  assumes r: "reached s0 t0 s (plug (Frame d p RB_RED kp vp y # Frame e g RB_BLACK kg vg u # ctx) (bnode e a RB_RED x k v z))"
    and u: "color u = RB_BLACK"
  shows "\<exists>s'. insert_loop s a = Some s' \<and> reached s0 t0 s' (plug ctx
    (if d = e then bnode e p RB_BLACK (bnode e a RB_RED x k v z) kp vp (bnode e g RB_RED y kg vg u)
     else bnode e a RB_BLACK (bnode e p RB_RED y kp vp x) k v (bnode e g RB_RED z kg vg u)))"
proof -
  let ?a = "bnode e a RB_RED x k v z" and ?cg = "Frame e g RB_BLACK kg vg u # ctx"
  note r' = reached_reps[OF r]
  have rp: "reps s (plug ?cg (bnode d p RB_RED ?a kp vp y))" using r' by simp
  obtain n where n: "tree_heap s a = Some n" "nparent n = Some p" using reps_focus[OF r'] by auto
  obtain pn where pn: "tree_heap s p = Some pn" "ncolor pn = RB_RED" "nparent pn = Some g" "child d pn = Some a"
      "child (other d) pn = ptr y"
    by (rule reps_frame_node[OF r']) auto
  obtain gn where gn: "tree_heap s g = Some gn" by (rule reps_frame_node[OF rp]) auto
  have side: "(if Some p = nleft gn then Lft else Rgt) = e" using reps_side[OF rp gn] by simp
  have un: "rb_uncle s a = Some (ptr u)" using rb_uncle_reps[OF r'] by simp
  have red: "is_red s (ptr u) = Some False" using reps_sibling(1)[OF rp] u by simp
  have loop: "insert_loop s a = do { (s4, a1) \<leftarrow> insert_rotate s a p; insert_loop s4 a1 }"
    by (subst insert_loop.simps) (simp add: n pn un red)
  show ?thesis
  proof (cases "d = e")
    case True
    have "Some a \<noteq> ptr y" using reps_sibling(3)[OF r'] by simp
    with insert_outer[OF r[unfolded True], of a] n pn gn side True show ?thesis
      by (auto simp: loop insert_rotate_def Let_def)
  next
    case False
    then have d: "d = other e" by (cases d; cases e) auto
    have "reached s0 t0 s (plug ?cg (bnode e p RB_RED y kp vp ?a))" using r by (simp add: d bnode_other)
    from reached_rotate[OF this] obtain s1 where s1: "rb_rotate e s p = Some s1"
        "reached s0 t0 s1 (plug (Frame e a RB_RED k v z # ?cg) (bnode e p RB_RED y kp vp x))"
      by auto
    from insert_outer[OF s1(2), of p] n pn gn side s1(1) False show ?thesis
      by (auto simp: loop insert_rotate_def Let_def d)
  qed
qed

lemma insert_loop_ok:
  assumes "reached s0 t0 s (plug ctx t)" "ptr t = Some a" "color t = RB_RED" "rb_ok t" "ctx_ok (bheight t) ctx"
  shows "\<exists>s' t'. insert_loop s a = Some s' \<and> reached s0 t0 s' t' \<and> rb_ok t'"
  using assms
proof (induction "length ctx" arbitrary: s ctx t a rule: less_induct)
  case less
  note r = less.prems(1)
  obtain n where n: "tree_heap s a = Some n" "nparent n = up ctx"
    using reps_focus[OF reached_reps[OF r] less.prems(2)] by auto
  show ?case
  proof (cases ctx)
    case Nil
    then have "insert_loop s a = Some s" using n by (subst insert_loop.simps) simp
    then show ?thesis using r less.prems(4) Nil by auto
  next
    case (Cons f ctx1)
    obtain d p c kp vp y where f: "f = Frame d p c kp vp y" by (cases f)
    obtain pn where pn: "tree_heap s p = Some pn" "ncolor pn = c"
      by (rule reps_frame_node[OF reached_reps[OF r[unfolded Cons f]]])
    show ?thesis
    proof (cases c)
      case RB_BLACK
      have "insert_loop s a = Some s" using n pn Cons f RB_BLACK by (subst insert_loop.simps) simp
      moreover have "rb_ok (plug ctx t)"
        using rb_valid_plug[of ctx t] less.prems(3-5) Cons f RB_BLACK by (simp add: rb_valid_def)
      ultimately show ?thesis using r by auto
    next
      case RB_RED
      then obtain e g kg vg u ctx2 where g: "ctx1 = Frame e g RB_BLACK kg vg u # ctx2"
        using less.prems(5) Cons f by (cases ctx1 rule: head_color.cases) auto
      obtain b x k v z where t: "t = bnode e b RB_RED x k v z"
        using bnode_exhaust[of t e] less.prems(2,3) by (metis color_bnode ptr.simps(1) option.distinct(1))
      have b: "b = a" using t less.prems(2) by simp
      note ok = less.prems(4,5)[unfolded Cons f g RB_RED]
      note shape = r[unfolded Cons f g RB_RED]
      show ?thesis
      proof (cases "color u")
        case RB_RED
        then obtain h u1 ku vu u2 where u: "u = bnode e h RB_RED u1 ku vu u2"
          using bnode_exhaust[of u e] by (metis color.simps(1) color_bnode rb_color.distinct(1))
        from insert_red_uncle[OF shape[unfolded u] less.prems(2)] obtain s' where s': "insert_loop s a = insert_loop s' g"
          "reached s0 t0 s' (plug ctx2 (bnode e g RB_RED (bnode d p RB_BLACK t kp vp y) kg vg (bnode e h RB_BLACK u1 ku vu u2)))"
          by blast
        have "\<exists>s'' t'. insert_loop s' g = Some s'' \<and> reached s0 t0 s'' t' \<and> rb_ok t'"
          by (rule less.hyps[OF _ s'(2)])
            (use ok in \<open>auto simp: Cons g u bheight_bnode\<close>)
        with s'(1) show ?thesis by simp
      next
        case RB_BLACK
        let ?t = "if d = e then bnode e p RB_BLACK (bnode e a RB_RED x k v z) kp vp (bnode e g RB_RED y kg vg u)
          else bnode e a RB_BLACK (bnode e p RB_RED y kp vp x) k v (bnode e g RB_RED z kg vg u)"
        have "rb_ok (plug ctx2 ?t)"
          using rb_valid_plug[of ctx2 ?t] ok RB_BLACK by (cases "d = e") (simp_all add: t rb_valid_def bheight_bnode)
        with insert_black_uncle[OF shape[unfolded t b] RB_BLACK] show ?thesis by (auto simp del: plug.simps)
      qed
    qed
  qed
qed

lemma rb_balance_insert_ok:
  assumes r: "reps s (plug ctx t)" and t: "ptr t = Some a" "color t = RB_RED" "rb_ok t" "ctx_ok (bheight t) ctx"
  shows "\<exists>s' t'. rb_balance_insert s a = Some s' \<and> reached s (plug ctx t) s' t' \<and> rb_valid t'"
proof -
  from insert_loop_ok[OF reached_refl[OF r] t] obtain s1 t1 where
    s1: "insert_loop s a = Some s1" "reached s (plug ctx t) s1 t1" "rb_ok t1" by blast
  have "inorder t1 \<noteq> []"
    using s1(2) t(1) inorder_plug_parts[of ctx] by (cases t) (auto simp: reached_def)
  then obtain b c x k v y where t1: "t1 = bnode Lft b c x k v y" using bnode_exhaust[of t1 Lft] by (cases t1) auto
  have "reached s (plug ctx t) s1 (plug [] (bnode Lft b c x k v y))" using s1(2) t1 by simp
  from reached_color[OF this, of RB_BLACK] obtain s2 where
    s2: "set_color b RB_BLACK s1 = Some s2" "reached s (plug ctx t) s2 (bnode Lft b RB_BLACK x k v y)" by auto
  have "root s1 = Some b" using s1(2) t1 by (simp add: reached_def reps_def)
  then have "rb_balance_insert s a = Some s2" using s1(1) s2(1) by (simp add: rb_balance_insert_def)
  moreover have "rb_valid (bnode Lft b RB_BLACK x k v y)" using s1(3) t1 by (simp add: rb_valid_def)
  ultimately show ?thesis using s2(2) by blast
qed

subsection \<open>After a deletion\<close>

text \<open>Case 4: the far nephew becomes black and the loop ends.\<close>

lemma delete_outer:
  assumes r: "reached s0 t0 s (plug (Frame d p c kp vp (bnode d q cq x kq vq (bnode d f cf z1 kf vf z2)) # ctx) t)"
  shows "\<exists>qn pn s3 s4 s5 s6. tree_heap s q = Some qn \<and> child (other d) qn = Some f \<and> tree_heap s p = Some pn
    \<and> set_color q (ncolor pn) s = Some s3 \<and> set_color p RB_BLACK s3 = Some s4 \<and> set_color f RB_BLACK s4 = Some s5
    \<and> rb_rotate d s5 p = Some s6
    \<and> reached s0 t0 s6 (plug (Frame d p RB_BLACK kp vp x # Frame d q c kq vq (bnode d f RB_BLACK z1 kf vf z2) # ctx) t)"
proof -
  let ?z = "\<lambda>c. bnode d f c z1 kf vf z2"
  let ?q = "\<lambda>c cz. bnode d q c x kq vq (?z cz)"
  have rq: "reached s0 t0 s (plug (Frame (other d) p c kp vp t # ctx) (?q cq cf))"
    using r by (simp add: bnode_other)
  obtain qn where qn: "tree_heap s q = Some qn" "child (other d) qn = Some f"
    by (rule reps_node[OF reached_reps[OF rq]]) auto
  obtain pn where pn: "tree_heap s p = Some pn" "ncolor pn = c" by (rule reps_frame_node[OF reached_reps[OF r]])
  from reached_color[OF rq, of c] obtain s3 where s3: "set_color q c s = Some s3"
      "reached s0 t0 s3 (plug ctx (bnode d p c t kp vp (?q c cf)))" by (auto simp: bnode_other)
  from reached_color[OF s3(2), of RB_BLACK] obtain s4 where s4: "set_color p RB_BLACK s3 = Some s4"
      "reached s0 t0 s4 (plug (Frame (other d) q c kq vq x # Frame (other d) p RB_BLACK kp vp t # ctx) (?z cf))"
    by (auto simp: bnode_other)
  from reached_color[OF s4(2), of RB_BLACK] obtain s5 where s5: "set_color f RB_BLACK s4 = Some s5"
      "reached s0 t0 s5 (plug ctx (bnode d p RB_BLACK t kp vp (?q c RB_BLACK)))" by (auto simp: bnode_other)
  from reached_rotate[OF s5(2)] obtain s6 where "rb_rotate d s5 p = Some s6"
      "reached s0 t0 s6 (plug (Frame d p RB_BLACK kp vp x # Frame d q c kq vq (?z RB_BLACK) # ctx) t)" by auto
  with qn pn s3(1) s4(1) s5(1) show ?thesis by blast
qed

text \<open>Cases 3 and 4, for a subtree that lacks one black node and has a black sibling with a red child.\<close>

lemma delete_rotate_ok:
  assumes r: "reached s0 t0 s (plug (Frame d p c kp vp (bnode d q RB_BLACK x kq vq z) # ctx) t)"
    and red: "color x = RB_RED \<or> color z = RB_RED"
    and ok: "rb_ok t" "color t = RB_BLACK" "ctx_ok (Suc (bheight t)) (Frame d p c kp vp (bnode d q RB_BLACK x kq vq z) # ctx)"
  shows "\<exists>s' ctx'. delete_rotate d s p q = Some s' \<and> reached s0 t0 s' (plug ctx' t) \<and> rb_valid (plug ctx' t)"
proof -
  let ?c = "Frame (other d) p c kp vp t # ctx"
  have rq: "reached s0 t0 s (plug ?c (bnode d q RB_BLACK x kq vq z))"
    using r by (simp add: bnode_other)
  obtain qn where qn: "tree_heap s q = Some qn" "child d qn = ptr x" "child (other d) qn = ptr z"
    by (rule reps_node[OF reached_reps[OF rq]])
  have "reps s (plug (Frame d q RB_BLACK kq vq z # ?c) x)" using reached_reps[OF rq] by simp
  from reps_sibling(1)[OF this] have far: "is_red s (ptr z) = Some (color z = RB_RED)" .
  have sub: "rb_ok x" "rb_ok z" "bheight x = bheight t" "bheight z = bheight t"
    "ctx_ok (Suc (bheight t) + blackened c) ctx" "c = RB_RED \<longrightarrow> head_color ctx = RB_BLACK"
    using ok(3) bheight_bnode[of x z d q RB_BLACK kq vq] by auto
  show ?thesis
  proof (cases "color z")
    case RB_RED
    then obtain f z1 kf vf z2 where z: "z = bnode d f RB_RED z1 kf vf z2"
      using bnode_exhaust[of z d] by (metis color.simps(1) color_bnode rb_color.distinct(1))
    let ?ctx = "Frame d p RB_BLACK kp vp x # Frame d q c kq vq (bnode d f RB_BLACK z1 kf vf z2) # ctx"
    have "rb_valid (plug ?ctx t)"
      using sub ok(1,2) by (subst rb_valid_plug) (auto simp: z bheight_bnode)
    with delete_outer[OF r[unfolded z]] qn far RB_RED show ?thesis
      unfolding delete_rotate_def z by (auto simp del: plug.simps)
  next
    case RB_BLACK
    then obtain m m1 km vm m2 where x: "x = bnode d m RB_RED m1 km vm m2"
      using red bnode_exhaust[of x d] by (metis color.simps(1) color_bnode rb_color.distinct(1))
    have "reached s0 t0 s (plug (Frame d q RB_BLACK kq vq z # ?c) (bnode d m RB_RED m1 km vm m2))" using rq x by simp
    from reached_color[OF this, of RB_BLACK] obtain s2 where s2: "set_color m RB_BLACK s = Some s2"
        "reached s0 t0 s2 (plug ?c (bnode d q RB_BLACK (bnode d m RB_BLACK m1 km vm m2) kq vq z))" by auto
    from reached_color[OF s2(2), of RB_RED] obtain s3 where s3: "set_color q RB_RED s2 = Some s3"
        "reached s0 t0 s3 (plug ?c (bnode (other d) q RB_RED z kq vq (bnode (other d) m RB_BLACK m2 km vm m1)))"
      by (auto simp: bnode_other)
    from reached_rotate[OF s3(2)] obtain s4 where s4: "rb_rotate (other d) s3 q = Some s4"
        "reached s0 t0 s4 (plug (Frame d p c kp vp (bnode d m RB_BLACK m1 km vm (bnode d q RB_RED m2 kq vq z)) # ctx) t)"
      by (auto simp: bnode_other)
    obtain pn where pn: "tree_heap s4 p = Some pn" "child (other d) pn = Some m"
      by (rule reps_frame_node[OF reached_reps[OF s4(2)]]) auto
    let ?ctx = "Frame d p RB_BLACK kp vp m1 # Frame d m c km vm (bnode d q RB_BLACK m2 kq vq z) # ctx"
    have "rb_valid (plug ?ctx t)"
      using sub ok(1,2) RB_BLACK by (subst rb_valid_plug) (auto simp: x bheight_bnode)
    with delete_outer[OF s4(2)] qn far RB_BLACK s2(1) s3(1) s4(1) pn x show ?thesis
      unfolding delete_rotate_def by (auto simp del: plug.simps)
  qed
qed

fun blacken :: "'v rbt \<Rightarrow> 'v rbt" where
  "blacken Leaf = Leaf"
| "blacken (Node a c l k v r) = Node a RB_BLACK l k v r"

lemma blacken_simps [simp]: "blacken (bnode d a c x k v y) = bnode d a RB_BLACK x k v y" "color (blacken t) = RB_BLACK"
  "inorder (blacken t) = inorder t" "ptr (blacken t) = ptr t"
  by (cases d; simp) (cases t; simp)+

lemma blacken_id: "color t = RB_BLACK \<Longrightarrow> blacken t = t"
  by (cases t) auto

text \<open>What a round leaves: the end of the loop, or a subtree further up, or a red one, that lacks one black node.\<close>

definition after_round ::
    "'v rb_tree \<Rightarrow> 'v rbt \<Rightarrow> 'v rbt \<Rightarrow> nat \<Rightarrow> 'v rb_tree \<Rightarrow> (nat option \<times> nat option) option \<Rightarrow> bool" where
  "after_round s0 t0 t m s r \<longleftrightarrow>
     (case r of
        None \<Rightarrow> \<exists>ctx. reached s0 t0 s (plug ctx t) \<and> rb_valid (plug ctx t)
      | Some (node, par) \<Rightarrow> \<exists>t' ctx. node = ptr t' \<and> par = up ctx \<and> reached s0 t0 s (plug ctx t') \<and> rb_ok (blacken t')
          \<and> ctx_ok (Suc (bheight t')) ctx \<and> (color t' = RB_RED \<or> length ctx < m))"

lemma delete_nephews_ok:
  assumes r: "reached s0 t0 s (plug (Frame d p c kp vp (bnode d q RB_BLACK x kq vq z) # ctx) t)"
    and ok: "rb_ok t" "color t = RB_BLACK" "ctx_ok (Suc (bheight t)) (Frame d p c kp vp (bnode d q RB_BLACK x kq vq z) # ctx)"
    and m: "length ctx < m \<or> c = RB_RED"
  shows "\<exists>s' r. delete_nephews d s p q = Some (s', r) \<and> after_round s0 t0 t m s' r"
proof -
  let ?c = "Frame (other d) p c kp vp t # ctx"
  have rq: "reached s0 t0 s (plug ?c (bnode d q RB_BLACK x kq vq z))" using r by (simp add: bnode_other)
  obtain qn where qn: "tree_heap s q = Some qn" "ncolor qn = RB_BLACK" "nleft qn = (if d = Lft then ptr x else ptr z)"
      "nright qn = (if d = Lft then ptr z else ptr x)"
    by (rule reps_node[OF reached_reps[OF rq]])
  have "reps s (plug (Frame d q RB_BLACK kq vq z # ?c) x)" using reached_reps[OF rq] by simp
  note red = reps_sibling(1,2)[OF this]
  show ?thesis
  proof (cases "color x = RB_RED \<or> color z = RB_RED")
    case True
    from delete_rotate_ok[OF r True ok] qn red True show ?thesis
      by (cases d) (auto simp: delete_nephews_def after_round_def)
  next
    case False
    let ?t = "bnode d p c t kp vp (bnode d q RB_RED x kq vq z)"
    from reached_color[OF rq, of RB_RED] obtain s1 where s1: "set_color q RB_RED s = Some s1" "reached s0 t0 s1 (plug ctx ?t)"
      by (auto simp: bnode_other)
    obtain pn where pn: "tree_heap s1 p = Some pn" "nparent pn = up ctx" by (rule reps_node[OF reached_reps[OF s1(2)]])
    have black: "color x = RB_BLACK" "color z = RB_BLACK" using False color_cases by blast+
    then have "delete_nephews d s p q = Some (s1, Some (Some p, up ctx))"
      using qn red s1(1) pn by (cases d) (simp_all add: delete_nephews_def)
    moreover have "rb_ok (blacken ?t)" "ctx_ok (Suc (bheight ?t)) ctx"
      using ok black by (auto simp: bheight_bnode)
    ultimately show ?thesis using s1(2) m by (auto simp: after_round_def intro!: exI[of _ ?t] exI[of _ ctx])
  qed
qed

text \<open>The side of the subtree is known even if it is empty: its sibling is not.\<close>

lemma delete_side:
  assumes "reps s (plug (Frame d p c kp vp y # ctx) t)" "tree_heap s p = Some pn" "y \<noteq> Leaf"
  shows "(if ptr t = nleft pn then Lft else Rgt) = d"
proof (cases "t = Leaf")
  case True
  obtain m where "tree_heap s p = Some m" "nleft m = (if d = Lft then ptr t else ptr y)"
    by (rule reps_frame_node[OF assms(1)])
  then show ?thesis using assms(2,3) True by (cases d) auto
next
  case False
  then show ?thesis by (rule reps_side[OF assms(1,2)])
qed

lemma delete_round_ok:
  assumes r: "reached s0 t0 s (plug (Frame d p c kp vp y # ctx) t)"
    and ok: "rb_ok t" "color t = RB_BLACK" "ctx_ok (Suc (bheight t)) (Frame d p c kp vp y # ctx)"
  shows "\<exists>s' r. delete_round s (ptr t) p = Some (s', r) \<and> after_round s0 t0 t (Suc (length ctx)) s' r"
proof -
  have "y \<noteq> Leaf" using ok(3) by auto
  then obtain q cq x kq vq z where y: "y = bnode d q cq x kq vq z" by (rule bnode_exhaust)
  obtain pn where pn: "tree_heap s p = Some pn" "child (other d) pn = Some q"
    by (rule reps_frame_node[OF reached_reps[OF r]]) (auto simp: y)
  note side = delete_side[OF reached_reps[OF r] pn(1) \<open>y \<noteq> Leaf\<close>]
  have rq: "reached s0 t0 s (plug (Frame (other d) p c kp vp t # ctx) (bnode d q cq x kq vq z))" using r y by (simp add: bnode_other)
  obtain qn where qn: "tree_heap s q = Some qn" "ncolor qn = cq" by (rule reps_node[OF reached_reps[OF rq]])
  show ?thesis
  proof (cases cq)
    case RB_BLACK
    then have "delete_red_sibling d s p = Some (s, q)" using pn qn by (simp add: delete_red_sibling_def)
    with delete_nephews_ok[OF r[unfolded y RB_BLACK] ok(1,2), of "Suc (length ctx)"] ok(3) y RB_BLACK pn side
    show ?thesis by (simp add: delete_round_def)
  next
    case RB_RED
    have c: "c = RB_BLACK" using ok(3) y RB_RED color_cases[of c] by auto
    from reached_color[OF rq, of RB_BLACK] obtain s1 where s1: "set_color q RB_BLACK s = Some s1"
        "reached s0 t0 s1 (plug ctx (bnode d p c t kp vp (bnode d q RB_BLACK x kq vq z)))" by (auto simp: bnode_other)
    from reached_color[OF s1(2), of RB_RED] obtain s2 where s2: "set_color p RB_RED s1 = Some s2"
        "reached s0 t0 s2 (plug ctx (bnode d p RB_RED t kp vp (bnode d q RB_BLACK x kq vq z)))" by auto
    have "x \<noteq> Leaf" "color x = RB_BLACK" using ok(3) by (auto simp: y RB_RED bheight_bnode)
    then obtain w w1 kw vw w2 where x: "x = bnode d w RB_BLACK w1 kw vw w2"
      using bnode_exhaust[of x d] by (metis color_bnode)
    let ?ctx = "Frame d q RB_BLACK kq vq z # ctx"
    from reached_rotate[OF s2(2)] obtain s3 where s3: "rb_rotate d s2 p = Some s3"
        "reached s0 t0 s3 (plug (Frame d p RB_RED kp vp (bnode d w RB_BLACK w1 kw vw w2) # ?ctx) t)" by (auto simp: x)
    obtain pn3 where pn3: "tree_heap s3 p = Some pn3" "child (other d) pn3 = Some w"
      by (rule reps_frame_node[OF reached_reps[OF s3(2)]]) auto
    have "delete_red_sibling d s p = Some (s3, w)"
      using pn qn RB_RED s1(1) s2(1) s3(1) pn3 by (simp add: delete_red_sibling_def)
    moreover have "ctx_ok (Suc (bheight t)) (Frame d p RB_RED kp vp (bnode d w RB_BLACK w1 kw vw w2) # ?ctx)"
      using ok(3) c by (auto simp: y RB_RED x bheight_bnode)
    ultimately show ?thesis
      using delete_nephews_ok[OF s3(2) ok(1,2), of "Suc (length ctx)"] pn(1) side by (simp add: delete_round_def)
  qed
qed

lemma delete_exit:
  assumes "reps s (plug ctx t)" "ctx = [] \<or> color t = RB_RED"
  shows "delete_loop s (ptr t) (up ctx) = Some (s, ptr t)"
proof (cases "up ctx")
  case (Some p)
  then have "is_red s (ptr t) = Some True" using is_red_reps[OF repsD(2)[OF assms(1)]] assms(2) by auto
  then show ?thesis using Some by (subst delete_loop.simps) simp
qed (subst delete_loop.simps, simp)

lemma delete_loop_ok:
  assumes "reached s0 t0 s (plug ctx t)" "rb_ok (blacken t)" "ctx_ok (Suc (bheight t)) ctx"
  shows "\<exists>s' ctx' t'. delete_loop s (ptr t) (up ctx) = Some (s', ptr t') \<and> reached s0 t0 s' (plug ctx' t')
    \<and> rb_valid (plug ctx' (blacken t'))"
  using assms
proof (induction "length ctx" arbitrary: s ctx t rule: less_induct)
  case less
  have leave: "\<exists>s' ctx' t'. delete_loop s (ptr t) (up ctx) = Some (s', ptr t') \<and> reached s0 t0 s' (plug ctx' t')
    \<and> rb_valid (plug ctx' (blacken t'))"
    if r: "reached s0 t0 s (plug ctx t)" "rb_ok (blacken t)" "ctx_ok (Suc (bheight t)) ctx" "ctx = [] \<or> color t = RB_RED" for s ctx t
  proof -
    have "rb_valid (plug ctx (blacken t))" unfolding rb_valid_plug using r(2-4) by (cases t) auto
    with delete_exit[OF reached_reps[OF r(1)] r(4)] r(1) show ?thesis by blast
  qed
  show ?case
  proof (cases "ctx = [] \<or> color t = RB_RED")
    case True
    show ?thesis by (rule leave[OF less.prems True])
  next
    case False
    then obtain d p c kp vp y ctx1 where ctx: "ctx = Frame d p c kp vp y # ctx1" by (cases ctx rule: up.cases) auto
    have black: "color t = RB_BLACK" using False color_cases by blast
    then have ok: "rb_ok t" using less.prems(2) by (simp add: blacken_id)
    from delete_round_ok[OF less.prems(1)[unfolded ctx] ok black] less.prems(3) obtain s1 r where
      s1: "delete_round s (ptr t) p = Some (s1, r)" "after_round s0 t0 t (length ctx) s1 r" by (auto simp: ctx)
    have loop: "delete_loop s (ptr t) (up ctx) =
        (case r of None \<Rightarrow> Some (s1, ptr t) | Some (node1, par1) \<Rightarrow> delete_loop s1 node1 par1)"
      using is_red_reps[OF repsD(2)[OF reached_reps[OF less.prems(1)]]] black s1(1) ctx by (subst delete_loop.simps) simp
    show ?thesis
    proof (cases r)
      case None
      with s1(2) obtain ctx' where "reached s0 t0 s1 (plug ctx' t)" "rb_valid (plug ctx' t)" by (auto simp: after_round_def)
      with None loop black show ?thesis by (intro exI[of _ s1] exI[of _ ctx'] exI[of _ t]) (simp add: blacken_id)
    next
      case (Some np)
      with s1(2) obtain t' ctx' where n: "r = Some (ptr t', up ctx')" "reached s0 t0 s1 (plug ctx' t')" "rb_ok (blacken t')"
          "ctx_ok (Suc (bheight t')) ctx'" "color t' = RB_RED \<or> length ctx' < length ctx"
        by (cases np) (auto simp: after_round_def)
      have eq: "delete_loop s (ptr t) (up ctx) = delete_loop s1 (ptr t') (up ctx')" using loop n(1) by simp
      show ?thesis
      proof (cases "color t' = RB_RED")
        case True
        then show ?thesis unfolding eq using leave[OF n(2-4)] by blast
      next
        case False
        then show ?thesis unfolding eq using less.hyps[OF _ n(2-4)] n(5) by blast
      qed
    qed
  qed
qed

lemma rb_balance_delete_ok:
  assumes r: "reps s (plug ctx t)" and ok: "rb_ok (blacken t)" "ctx_ok (Suc (bheight t)) ctx"
  shows "\<exists>s' t'. rb_balance_delete s (ptr t) (up ctx) = Some s' \<and> reached s (plug ctx t) s' t' \<and> rb_valid t'"
proof -
  from delete_loop_ok[OF reached_refl[OF r] ok] obtain s1 ctx1 t1 where
    s1: "delete_loop s (ptr t) (up ctx) = Some (s1, ptr t1)" "reached s (plug ctx t) s1 (plug ctx1 t1)"
      "rb_valid (plug ctx1 (blacken t1))" by blast
  show ?thesis
  proof (cases "t1 = Leaf")
    case True
    then have "rb_balance_delete s (ptr t) (up ctx) = Some s1" using s1(1) by (simp add: rb_balance_delete_def)
    then show ?thesis using s1(2,3) True by auto
  next
    case False
    then obtain a c x k v y where t1: "t1 = bnode Lft a c x k v y" by (rule bnode_exhaust)
    from reached_color[OF s1(2)[unfolded t1], of RB_BLACK] obtain s2 where
      s2: "set_color a RB_BLACK s1 = Some s2" "reached s (plug ctx t) s2 (plug ctx1 (blacken t1))" by (auto simp: t1)
    have "rb_balance_delete s (ptr t) (up ctx) = Some s2" using s1(1) s2(1) t1 by (simp add: rb_balance_delete_def)
    then show ?thesis using s2(2) s1(3) by blast
  qed
qed

end
