(* ===== verification/Ordered_Map.thy ===== *)
theory Ordered_Map
  imports Str_Map "HOL-Library.List_Lexorder"
begin

text \<open>
  The interface of a map that also lists its keys in order, whole or between two bounds. Insertion does
  not overwrite, replacement does not insert; a value that goes is passed to the dispose function,
  unless it is a null pointer or no such function is set.
\<close>

datatype 'v om_op = Om_get cstring | Om_insert cstring "'v option" | Om_replace cstring "'v option" | Om_delete cstring
  | Om_keys | Om_range cstring cstring

datatype 'v om_result = Got "'v option" | Made bool | Replaced "'v option" "'v list" | Deleted bool "'v list" | Listed "cstring list"

definition disposal :: "bool \<Rightarrow> 'v option \<Rightarrow> 'v list" where
  "disposal f v = (case v of Some x \<Rightarrow> if f then [x] else [] | None \<Rightarrow> [])"

definition om_keys :: "(cstring \<rightharpoonup> 'v) \<Rightarrow> cstring list" where
  "om_keys m = sorted_list_of_set (dom m)"

fun om_spec :: "bool \<Rightarrow> 'v om_op \<Rightarrow> (cstring \<rightharpoonup> 'v option) \<Rightarrow> 'v om_result \<times> (cstring \<rightharpoonup> 'v option)" where
  "om_spec f (Om_get k) m = (Got (Option.bind (m k) id), m)"
| "om_spec f (Om_insert k v) m = (Made (m k = None), if m k = None then m(k \<mapsto> v) else m)"
| "om_spec f (Om_replace k v) m =
     (case m k of None \<Rightarrow> (Replaced None [], m) | Some old \<Rightarrow> (Replaced v (disposal f old), m(k \<mapsto> v)))"
| "om_spec f (Om_delete k) m =
     (case m k of None \<Rightarrow> (Deleted False [], m) | Some old \<Rightarrow> (Deleted True (disposal f old), m(k := None)))"
| "om_spec f Om_keys m = (Listed (om_keys m), m)"
| "om_spec f (Om_range lo hi) m = (Listed (filter (\<lambda>k. lo \<le> k \<and> k \<le> hi) (om_keys m)), m)"

fun om_spec_run :: "bool \<Rightarrow> 'v om_op list \<Rightarrow> (cstring \<rightharpoonup> 'v option) \<Rightarrow> 'v om_result list \<times> (cstring \<rightharpoonup> 'v option)" where
  "om_spec_run f [] m = ([], m)"
| "om_spec_run f (op # ops) m =
     (case om_spec f op m of (r, m1) \<Rightarrow> case om_spec_run f ops m1 of (rs, m2) \<Rightarrow> (r # rs, m2))"

text \<open>The operations of an implementation.\<close>

record ('s, 'v) om_impl =
  om_get :: "'s \<Rightarrow> cstring \<Rightarrow> 'v option option"
  om_insert :: "'s \<Rightarrow> cstring \<Rightarrow> 'v option \<Rightarrow> (nat option \<times> 's) option"
  om_replace :: "'s \<Rightarrow> cstring \<Rightarrow> 'v option \<Rightarrow> ('v option \<times> 'v list \<times> 's) option"
  om_delete :: "'s \<Rightarrow> cstring \<Rightarrow> (bool \<times> 'v list \<times> 's) option"
  om_list :: "'s \<Rightarrow> cstring list option"
  om_between :: "'s \<Rightarrow> cstring \<Rightarrow> cstring \<Rightarrow> cstring list option"

fun om_step :: "('s, 'v) om_impl \<Rightarrow> 'v om_op \<Rightarrow> 's \<Rightarrow> ('v om_result \<times> 's) option" where
  "om_step i (Om_get k) s = do { v \<leftarrow> om_get i s k; Some (Got v, s) }"
| "om_step i (Om_insert k v) s = do { (a, s1) \<leftarrow> om_insert i s k v; Some (Made (a \<noteq> None), s1) }"
| "om_step i (Om_replace k v) s = do { (r, ds, s1) \<leftarrow> om_replace i s k v; Some (Replaced r ds, s1) }"
| "om_step i (Om_delete k) s = do { (b, ds, s1) \<leftarrow> om_delete i s k; Some (Deleted b ds, s1) }"
| "om_step i Om_keys s = do { ks \<leftarrow> om_list i s; Some (Listed ks, s) }"
| "om_step i (Om_range lo hi) s = do { ks \<leftarrow> om_between i s lo hi; Some (Listed ks, s) }"

fun om_run :: "('s, 'v) om_impl \<Rightarrow> 'v om_op list \<Rightarrow> 's \<Rightarrow> ('v om_result list \<times> 's) option" where
  "om_run i [] s = Some ([], s)"
| "om_run i (op # ops) s = do { (r, s1) \<leftarrow> om_step i op s; (rs, s2) \<leftarrow> om_run i ops s1; Some (r # rs, s2) }"

locale ordered_map =
  fixes inv :: "'s \<Rightarrow> bool" and abs :: "'s \<Rightarrow> cstring \<rightharpoonup> 'v option" and flag :: "'s \<Rightarrow> bool"
    and i :: "('s, 'v) om_impl"
  assumes get_abs: "inv s \<Longrightarrow> om_get i s k = Some (Option.bind (abs s k) id)"
    and insert_abs: "inv s \<Longrightarrow> \<exists>a s'. om_insert i s k v = Some (a, s') \<and> (a \<noteq> None \<longleftrightarrow> abs s k = None) \<and> inv s'
      \<and> abs s' = (if abs s k = None then (abs s)(k \<mapsto> v) else abs s) \<and> flag s' = flag s"
    and replace_none: "inv s \<Longrightarrow> abs s k = None \<Longrightarrow> om_replace i s k v = Some (None, [], s)"
    and replace_abs: "inv s \<Longrightarrow> abs s k = Some old \<Longrightarrow> \<exists>s'. om_replace i s k v = Some (v, disposal (flag s) old, s') \<and> inv s'
      \<and> abs s' = (abs s)(k \<mapsto> v) \<and> flag s' = flag s"
    and delete_none: "inv s \<Longrightarrow> abs s k = None \<Longrightarrow> om_delete i s k = Some (False, [], s)"
    and delete_abs: "inv s \<Longrightarrow> abs s k = Some old \<Longrightarrow> \<exists>s'. om_delete i s k = Some (True, disposal (flag s) old, s') \<and> inv s'
      \<and> abs s' = (abs s)(k := None) \<and> flag s' = flag s"
    and list_abs: "inv s \<Longrightarrow> om_list i s = Some (om_keys (abs s))"
    and between_abs: "inv s \<Longrightarrow> om_between i s lo hi = Some (filter (\<lambda>k. lo \<le> k \<and> k \<le> hi) (om_keys (abs s)))"
begin

lemma step_refines:
  assumes "inv s"
  shows "\<exists>s'. om_step i op s = Some (fst (om_spec (flag s) op (abs s)), s') \<and> inv s'
    \<and> abs s' = snd (om_spec (flag s) op (abs s)) \<and> flag s' = flag s"
proof (cases op)
  case (Om_get k)
  then show ?thesis using assms get_abs by simp
next
  case (Om_insert k v)
  then show ?thesis using insert_abs[OF assms, of k v] by auto
next
  case (Om_replace k v)
  then show ?thesis using replace_none[OF assms, of k v] replace_abs[OF assms, of k _ v] assms by (cases "abs s k") auto
next
  case (Om_delete k)
  then show ?thesis using delete_none[OF assms, of k] delete_abs[OF assms, of k] assms by (cases "abs s k") auto
next
  case Om_keys
  then show ?thesis using assms list_abs by simp
next
  case (Om_range lo hi)
  then show ?thesis using assms between_abs by simp
qed

lemma run_refines:
  assumes "inv s"
  shows "\<exists>s'. om_run i ops s = Some (fst (om_spec_run (flag s) ops (abs s)), s') \<and> inv s'
    \<and> abs s' = snd (om_spec_run (flag s) ops (abs s)) \<and> flag s' = flag s"
  using assms
proof (induction ops arbitrary: s)
  case (Cons op ops)
  obtain s1 where s1: "om_step i op s = Some (fst (om_spec (flag s) op (abs s)), s1)" "inv s1"
      "abs s1 = snd (om_spec (flag s) op (abs s))" "flag s1 = flag s"
    using step_refines[OF Cons.prems] by blast
  with Cons.IH[OF s1(2)] show ?case by (auto split: prod.split)
qed simp

end

end
