(* ===== verification/RB_Map.thy ===== *)
theory RB_Map
  imports RB_Balance Ordered_Map
begin

text \<open>
  The operations of the red-black tree on what it stands for: a map from strings, its keys in the order
  of \<^verbatim>\<open>strcmp\<close>. They always return, allocate and free exactly the nodes of the tree, and keep it balanced.
\<close>

subsection \<open>The order of the keys\<close>

lemma strcmp_order: "strcmp x y = 0 \<longleftrightarrow> x = y" "strcmp x y < 0 \<longleftrightarrow> x < y" "strcmp x y > 0 \<longleftrightarrow> y < x"
  by (induction x y rule: strcmp.induct) auto

abbreviation keys :: "'v rbt \<Rightarrow> cstring list" where
  "keys t \<equiv> map fst (inorder t)"

definition ordered :: "'v rbt \<Rightarrow> bool" where
  "ordered t \<longleftrightarrow> sorted_wrt (<) (keys t)"

lemma ordered_Node: "ordered (Node a c l k v r) \<longleftrightarrow> ordered l \<and> ordered r
    \<and> (\<forall>x \<in> set (keys l). x < k) \<and> (\<forall>x \<in> set (keys r). k < x)"
  by (auto simp: ordered_def sorted_wrt_append dest: less_trans)

lemma ordered_distinct: "ordered t \<Longrightarrow> distinct (keys t)"
  using strict_sorted_iff[of "keys t"] by (simp add: ordered_def)

text \<open>A tree as the heap holds it, and nothing besides.\<close>

definition rb_holds :: "'v rb_tree \<Rightarrow> 'v rbt \<Rightarrow> bool" where
  "rb_holds s t \<longleftrightarrow> reps s t \<and> dom (tree_heap s) = set (addrs t) \<and> (\<forall>a \<in> set (addrs t). a < tree_brk s)
     \<and> rb_valid t \<and> ordered t"

definition rb_map :: "'v rbt \<Rightarrow> cstring \<rightharpoonup> 'v option" where
  "rb_map t = map_of (inorder t)"

lemma plug_append: "plug (ctx @ ctx') t = plug ctx' (plug ctx t)"
  by (induction ctx t rule: plug.induct) auto

subsection \<open>Searching\<close>

text \<open>A key is found where the tree has it.\<close>

lemma rb_get_found:
  assumes "tree_rep (tree_heap s) par t" "ordered t"
  shows "if key \<in> set (keys t)
    then \<exists>ctx a c l v r. t = plug ctx (Node a c l key v r) \<and> rb_get s (ptr t) key = Some (Some a)
    else rb_get s (ptr t) key = Some None"
  using assms
proof (induction t arbitrary: par)
  case Leaf
  then show ?case by (simp add: rb_get.simps[of s None])
next
  case (Node a c l k v r)
  note step = rb_get.simps[of s "Some a" key]
  have h: "tree_heap s a = Some \<lparr>nkey = k, nvalue = v, ncolor = c, nparent = par, nleft = ptr l, nright = ptr r\<rparr>"
    using Node.prems(1) by simp
  have ord: "ordered l" "ordered r" "\<forall>x \<in> set (keys l). x < k" "\<forall>x \<in> set (keys r). k < x"
    using Node.prems(2) unfolding ordered_Node by blast+
  consider (eq) "key = k" | (less) "key < k" | (more) "k < key" by (rule linorder_cases)
  then show ?case
  proof cases
    case eq
    then have "rb_get s (Some a) key = Some (Some a)" using h step by (simp add: strcmp_order)
    then show ?thesis using eq by (auto intro!: exI[of _ "[]"])
  next
    case less
    then have g: "rb_get s (Some a) key = rb_get s (ptr l) key" using h step by (auto simp: strcmp_order)
    have "key \<in> set (keys (Node a c l k v r)) \<longleftrightarrow> key \<in> set (keys l)" using less ord(4) by auto
    moreover have "plug (ctx @ [Frame Lft a c k v r]) x = Node a c (plug ctx x) k v r" for ctx x by (simp add: plug_append)
    ultimately show ?thesis using Node.IH(1)[of "Some a"] Node.prems(1) ord(1) g
      by (auto split: if_splits) metis
  next
    case more
    then have g: "rb_get s (Some a) key = rb_get s (ptr r) key" using h step by (auto simp: strcmp_order)
    have "key \<in> set (keys (Node a c l k v r)) \<longleftrightarrow> key \<in> set (keys r)" using more ord(3) by auto
    moreover have "plug (ctx @ [Frame Rgt a c k v l]) x = Node a c l k v (plug ctx x)" for ctx x by (simp add: plug_append)
    ultimately show ?thesis using Node.IH(2)[of "Some a"] Node.prems(1) ord(2) g
      by (auto split: if_splits) metis
  qed
qed

lemma rb_holdsD:
  assumes "rb_holds s t"
  shows "reps s t" "tree_rep (tree_heap s) None t" "root s = ptr t" "distinct (addrs t)" "dom (tree_heap s) = set (addrs t)"
    "\<forall>a \<in> set (addrs t). a < tree_brk s" "rb_valid t" "ordered t"
  using assms by (simp_all add: rb_holds_def reps_def)

text \<open>What the tree maps a key to, from where the key is.\<close>

lemma rb_map_at:
  assumes "ordered (plug ctx (Node a c l k v r))"
  shows "rb_map (plug ctx (Node a c l k v r)) k = Some v"
proof -
  obtain ls rs where "\<And>t. inorder (plug ctx t) = ls @ inorder t @ rs" using inorder_plug_parts by blast
  then have "(k, v) \<in> set (inorder (plug ctx (Node a c l k v r)))" by simp
  then show ?thesis unfolding rb_map_def by (rule map_of_is_SomeI[OF ordered_distinct[OF assms]])
qed

lemma rb_map_None: "rb_map t k = None \<longleftrightarrow> k \<notin> set (keys t)"
  by (simp add: rb_map_def map_of_eq_None_iff image_image)

lemma dom_rb_map: "dom (rb_map t) = set (keys t)"
  by (simp add: rb_map_def dom_map_of_conv_image_fst)

lemma rbtree_get_ok:
  assumes "rb_holds s t"
  shows "rbtree_get s key = Some (case rb_map t key of None \<Rightarrow> None | Some v \<Rightarrow> v)"
proof (cases "key \<in> set (keys t)")
  case True
  with rb_get_found[OF rb_holdsD(2,8)[OF assms], of key] obtain ctx a c l v r where
    t: "t = plug ctx (Node a c l key v r)" "rb_get s (ptr t) key = Some (Some a)" by auto
  have "tree_rep (tree_heap s) (up ctx) (Node a c l key v r)" using rb_holdsD(2)[OF assms] t(1) by simp
  then show ?thesis
    using t rb_holdsD(3)[OF assms] rb_map_at[OF rb_holdsD(8)[OF assms, unfolded t(1)]] by (simp add: rbtree_get_def)
next
  case False
  then show ?thesis
    using rb_get_found[OF rb_holdsD(2,8)[OF assms], of key] rb_holdsD(3)[OF assms] rb_map_None[of t key]
    by (simp add: rbtree_get_def)
qed

subsection \<open>Replacing\<close>

lemma rb_holds_update:
  assumes "rb_holds s (plug ctx (Node a c l k v r))"
  shows "\<exists>s'. with_node a (\<lambda>n. n\<lparr>nvalue := w\<rparr>) s = Some s' \<and> rb_holds s' (plug ctx (Node a c l k w r))
    \<and> tree_dispose s' = tree_dispose s \<and> rb_map (plug ctx (Node a c l k w r)) = (rb_map (plug ctx (Node a c l k v r)))(k \<mapsto> w)"
proof -
  note H = rb_holdsD[OF assms]
  have n: "tree_heap s a = Some \<lparr>nkey = k, nvalue = v, ncolor = c, nparent = up ctx, nleft = ptr l, nright = ptr r\<rparr>"
    using H(2) by simp
  from reps_update[of s ctx Lft a c l k v r "\<lambda>n. n\<lparr>nvalue := w\<rparr>" "\<lambda>_. w" nkey ncolor, OF _ _ n] H(1) obtain s' where
    s': "with_node a (\<lambda>n. n\<lparr>nvalue := w\<rparr>) s = Some s'" "reps s' (plug ctx (Node a c l k w r))" "keeps_tree s s'" by auto
  obtain ls rs where parts: "\<And>t. inorder (plug ctx t) = ls @ inorder t @ rs" using inorder_plug_parts by blast
  have k: "keys (plug ctx (Node a c l k w r)) = keys (plug ctx (Node a c l k v r))" by (simp add: parts)
  have "dom (tree_heap s') = dom (tree_heap s)" using s'(3) by (auto simp: keeps_tree_def dom_def)
  moreover have "rb_valid (plug ctx (Node a c l k w r))" using H(7) unfolding rb_valid_plug by auto
  ultimately have "rb_holds s' (plug ctx (Node a c l k w r))"
    using H(5,6,8) s'(2,3) k by (simp add: rb_holds_def keeps_tree_def ordered_def)
  moreover have "rb_map (plug ctx (Node a c l k w r)) = (rb_map (plug ctx (Node a c l k v r)))(k \<mapsto> w)"
  proof -
    have "k \<notin> fst ` set ls" "k \<notin> fst ` set (inorder l)" using ordered_distinct[OF H(8)] by (auto simp: parts)
    then show ?thesis by (auto simp: rb_map_def parts map_add_def fun_eq_iff map_of_eq_None_iff[symmetric] split: option.splits)
  qed
  ultimately show ?thesis using s'(1,3) by (auto simp: keeps_tree_def)
qed

lemma rbtree_replace_ok:
  assumes "rb_holds s t"
  shows "case rb_map t key of
      None \<Rightarrow> rbtree_replace s key w = Some (None, [], s)
    | Some v \<Rightarrow> \<exists>s' t'. rbtree_replace s key w = Some (w, disposed s v, s') \<and> rb_holds s' t' \<and> rb_map t' = (rb_map t)(key \<mapsto> w)
        \<and> tree_dispose s' = tree_dispose s"
proof (cases "key \<in> set (keys t)")
  case True
  with rb_get_found[OF rb_holdsD(2,8)[OF assms], of key] obtain ctx a c l v r where
    t: "t = plug ctx (Node a c l key v r)" "rb_get s (ptr t) key = Some (Some a)" by auto
  have "tree_rep (tree_heap s) (up ctx) (Node a c l key v r)" using rb_holdsD(2)[OF assms] t(1) by simp
  then show ?thesis
    using t rb_holdsD(3)[OF assms] rb_map_at[OF rb_holdsD(8)[OF assms, unfolded t(1)]] rb_holds_update[OF assms[unfolded t(1)], of w]
    by (auto simp: rbtree_replace_def)
next
  case False
  then show ?thesis
    using rb_get_found[OF rb_holdsD(2,8)[OF assms], of key] rb_holdsD(3)[OF assms] rb_map_None[of t key]
    by (simp add: rbtree_replace_def)
qed

subsection \<open>Inserting\<close>

text \<open>A hole between the smaller and the larger keys.\<close>

definition hole_for :: "cstring \<Rightarrow> 'v frame list \<Rightarrow> bool" where
  "hole_for key ctx \<longleftrightarrow> (\<exists>ls rs. (\<forall>t. inorder (plug ctx t) = ls @ inorder t @ rs)
     \<and> (\<forall>x \<in> fst ` set ls. x < key) \<and> (\<forall>x \<in> fst ` set rs. key < x))"

lemma hole_for_extend:
  assumes "hole_for key ctx" "(d = Lft) = (key < k)" "k \<noteq> key"
    and "\<forall>x \<in> set (keys y). if d = Lft then k < x else x < k"
  shows "hole_for key (ctx @ [Frame d a c k v y])"
proof -
  from assms(1) obtain ls rs where l: "\<And>t. inorder (plug ctx t) = ls @ inorder t @ rs"
      "\<forall>x \<in> fst ` set ls. x < key" "\<forall>x \<in> fst ` set rs. key < x"
    by (auto simp: hole_for_def)
  show ?thesis
  proof (cases d)
    case Lft
    then show ?thesis unfolding hole_for_def
      using l assms(2-4) by (intro exI[of _ ls] exI[of _ "rs @ (k, v) # inorder y"]) (auto simp: plug_append dest: less_trans)
  next
    case Rgt
    then have "k < key" using assms(2,3) by auto
    then show ?thesis unfolding hole_for_def
      using l assms(4) Rgt by (intro exI[of _ "inorder y @ (k, v) # ls"] exI[of _ rs]) (auto simp: plug_append dest: less_trans)
  qed
qed

fun hole_side :: "'v frame list \<Rightarrow> int \<Rightarrow> int \<Rightarrow> bool" where
  "hole_side [] cmp0 cmp \<longleftrightarrow> cmp = cmp0"
| "hole_side (Frame d a c k v y # ctx) cmp0 cmp \<longleftrightarrow> (if cmp < 0 then Lft else Rgt) = d"

lemma hole_side_extend:
  "hole_side ctx cmp1 cmp \<Longrightarrow> (if cmp1 < 0 then Lft else Rgt) = d \<Longrightarrow> hole_side (ctx @ [Frame d a c k v y]) cmp0 cmp"
  by (cases ctx rule: up.cases) auto

lemma insert_place_ok:
  assumes "tree_rep (tree_heap s) par0 t" "ordered t"
  shows "if key \<in> set (keys t) then insert_place s key par cmp (ptr t) = Some None
    else \<exists>ctx cmp'. t = plug ctx Leaf \<and> hole_for key ctx \<and> hole_side ctx cmp cmp'
      \<and> insert_place s key par cmp (ptr t) = Some (Some (if ctx = [] then par else up ctx, cmp'))"
  using assms
proof (induction t arbitrary: par0 par cmp)
  case Leaf
  have "hole_for key []" unfolding hole_for_def by (intro exI[of _ "[]"]) simp
  then show ?case by (auto simp: insert_place.simps[of s key par cmp None] intro!: exI[of _ "[]"])
next
  case (Node a c l k v r)
  note step = insert_place.simps[of s key par cmp "Some a"]
  have h: "tree_heap s a = Some \<lparr>nkey = k, nvalue = v, ncolor = c, nparent = par0, nleft = ptr l, nright = ptr r\<rparr>"
    using Node.prems(1) by simp
  have ord: "ordered l" "ordered r" "\<forall>x \<in> set (keys l). x < k" "\<forall>x \<in> set (keys r). k < x"
    using Node.prems(2) unfolding ordered_Node by blast+
  have up: "(if ctx @ [Frame d a c k v y] = [] then par else up (ctx @ [Frame d a c k v y])) = (if ctx = [] then Some a else up ctx)"
    for ctx d y by (cases ctx rule: up.cases) auto
  have pl: "plug (ctx @ [Frame Lft a c k v r]) x = Node a c (plug ctx x) k v r"
    "plug (ctx @ [Frame Rgt a c k v l]) x = Node a c l k v (plug ctx x)" for ctx x by (simp_all add: plug_append)
  consider (eq) "key = k" | (less) "key < k" | (more) "k < key" by (rule linorder_cases)
  then show ?case
  proof cases
    case eq
    then show ?thesis using h step by (auto simp: strcmp_order)
  next
    case less
    let ?cmp = "strcmp key k"
    have g: "insert_place s key par cmp (Some a) = insert_place s key (Some a) ?cmp (ptr l)"
      using h step less by (auto simp: strcmp_order Let_def)
    have k: "key \<in> set (keys (Node a c l k v r)) \<longleftrightarrow> key \<in> set (keys l)" using less ord(4) by auto
    show ?thesis
    proof (cases "key \<in> set (keys l)")
      case True
      then show ?thesis using Node.IH(1)[of "Some a" "Some a" ?cmp] Node.prems(1) ord(1) g k by simp
    next
      case False
      with Node.IH(1)[of "Some a" "Some a" ?cmp] Node.prems(1) ord(1) obtain ctx cmp' where
        c: "l = plug ctx Leaf" "hole_for key ctx" "hole_side ctx ?cmp cmp'"
          "insert_place s key (Some a) ?cmp (ptr l) = Some (Some (if ctx = [] then Some a else up ctx, cmp'))" by auto
      have "hole_for key (ctx @ [Frame Lft a c k v r])" using hole_for_extend[OF c(2), of Lft k r] less ord(4) by auto
      moreover have "hole_side (ctx @ [Frame Lft a c k v r]) cmp cmp'"
        using hole_side_extend[OF c(3)] less by (simp add: strcmp_order)
      moreover have "Node a c l k v r = plug (ctx @ [Frame Lft a c k v r]) Leaf" unfolding pl(1) c(1)[symmetric] ..
      moreover have "insert_place s key par cmp (ptr (Node a c l k v r)) =
          Some (Some (if ctx @ [Frame Lft a c k v r] = [] then par else up (ctx @ [Frame Lft a c k v r]), cmp'))"
        unfolding up using g c(4) by simp
      moreover have nk: "key \<notin> set (keys (Node a c l k v r))" using k False by blast
      ultimately show ?thesis unfolding if_not_P[OF nk] by blast
    qed
  next
    case more
    let ?cmp = "strcmp key k"
    have g: "insert_place s key par cmp (Some a) = insert_place s key (Some a) ?cmp (ptr r)"
      using h step more by (auto simp: strcmp_order Let_def)
    have k: "key \<in> set (keys (Node a c l k v r)) \<longleftrightarrow> key \<in> set (keys r)" using more ord(3) by auto
    show ?thesis
    proof (cases "key \<in> set (keys r)")
      case True
      then show ?thesis using Node.IH(2)[of "Some a" "Some a" ?cmp] Node.prems(1) ord(2) g k by simp
    next
      case False
      with Node.IH(2)[of "Some a" "Some a" ?cmp] Node.prems(1) ord(2) obtain ctx cmp' where
        c: "r = plug ctx Leaf" "hole_for key ctx" "hole_side ctx ?cmp cmp'"
          "insert_place s key (Some a) ?cmp (ptr r) = Some (Some (if ctx = [] then Some a else up ctx, cmp'))" by auto
      have "hole_for key (ctx @ [Frame Rgt a c k v l])" using hole_for_extend[OF c(2), of Rgt k l] more ord(3) by auto
      moreover have "\<not> ?cmp < 0" using more by (auto simp: strcmp_order)
      then have "hole_side (ctx @ [Frame Rgt a c k v l]) cmp cmp'" using hole_side_extend[OF c(3)] by simp
      moreover have "Node a c l k v r = plug (ctx @ [Frame Rgt a c k v l]) Leaf" unfolding pl(2) c(1)[symmetric] ..
      moreover have "insert_place s key par cmp (ptr (Node a c l k v r)) =
          Some (Some (if ctx @ [Frame Rgt a c k v l] = [] then par else up (ctx @ [Frame Rgt a c k v l]), cmp'))"
        unfolding up using g c(4) by simp
      moreover have nk: "key \<notin> set (keys (Node a c l k v r))" using k False by blast
      ultimately show ?thesis unfolding if_not_P[OF nk] by blast
    qed
  qed
qed

text \<open>The new node is linked in.\<close>

lemma link_new:
  assumes t: "rb_holds s (plug ctx Leaf)" and side: "hole_side ctx 0 cmp"
  defines "a \<equiv> tree_brk s"
  shows "\<exists>s2 s3. (case (if ctx = [] then None else up ctx) of
        None \<Rightarrow> Some ((snd (rb_init key v s))\<lparr>root := Some a\<rparr>)
      | Some p \<Rightarrow> with_node p (set_child (if cmp < 0 then Lft else Rgt) (Some a)) (snd (rb_init key v s))) = Some s2
    \<and> with_node a (\<lambda>n. n\<lparr>nparent := if ctx = [] then None else up ctx\<rparr>) s2 = Some s3
    \<and> reps s3 (plug ctx (Node a RB_RED Leaf key v Leaf)) \<and> tree_brk s3 = Suc a \<and> tree_dispose s3 = tree_dispose s
    \<and> dom (tree_heap s3) = insert a (dom (tree_heap s))"
proof -
  note H = rb_holdsD[OF t]
  have a: "a \<notin> set (ctx_addrs ctx)" using H(6) by (auto simp: a_def)
  have rt: "root s = ptr (plug ctx Leaf)" by (rule H(3))
  show ?thesis
  proof (cases ctx)
    case Nil
    then show ?thesis using H(2-5) by (auto simp: rb_init_def with_node_def reps_def a_def)
  next
    case (Cons f ctx1)
    obtain d p c k w y where f: "f = Frame d p c k w y" by (cases f)
    have p: "p \<noteq> a" "a \<noteq> p" "a \<notin> set (addrs y)" "a \<notin> set (ctx_addrs ctx1)" "p \<notin> set (addrs y)" "p \<notin> set (ctx_addrs ctx1)"
      using a H(4) Cons f by auto
    have d: "(if cmp < 0 then Lft else Rgt) = d" using side Cons f by simp
    have "dom (tree_heap s) = insert p (dom (tree_heap s))" using H(2) Cons f by (auto simp: insert_absorb)
    then show ?thesis
      using H(2,4) p rt unfolding Cons f d
      by (cases d) (auto simp: rb_init_def with_node_def reps_def a_def[symmetric] ptr_plug)
  qed
qed

lemma map_of_between: "k \<notin> fst ` set ls \<Longrightarrow> map_of (ls @ (k, v) # rs) = (map_of (ls @ rs))(k \<mapsto> v)"
  by (induction ls) (auto simp: fun_eq_iff)

lemma rb_init_simps [simp]: "fst (rb_init key v s) = tree_brk s" "root (snd (rb_init key v s)) = root s"
  by (simp_all add: rb_init_def)

lemma rbtree_insert_ok:
  assumes t: "rb_holds s t"
  shows "\<exists>s' t'. rbtree_insert s key v = Some (if key \<in> dom (rb_map t) then None else Some (tree_brk s), s') \<and> rb_holds s' t'
    \<and> rb_map t' = (if key \<in> dom (rb_map t) then rb_map t else (rb_map t)(key \<mapsto> v)) \<and> tree_dispose s' = tree_dispose s"
proof -
  note H = rb_holdsD[OF t]
  let ?a = "tree_brk s"
  define s1 where "s1 = snd (rb_init key v s)"
  have a: "?a \<notin> set (addrs t)" using H(6) by auto
  have rep1: "tree_rep (tree_heap s1) None t" using H(2) a by (simp add: s1_def rb_init_def)
  have init: "rb_init key v s = (?a, s1)" "root s1 = root s" by (simp_all add: s1_def rb_init_def)
  have dom: "key \<in> dom (rb_map t) \<longleftrightarrow> key \<in> set (keys t)" using rb_map_None[of t key] by auto
  note place = insert_place_ok[OF rep1 H(8), of key None 0]
  show ?thesis
  proof (cases "key \<in> set (keys t)")
    case True
    let ?s2 = "s1\<lparr>tree_heap := (tree_heap s1)(?a := None)\<rparr>"
    have "rb_destroy ?a False s1 = Some ([], ?s2)" by (subst rb_destroy.simps) (simp add: s1_def rb_init_def split: option.split)
    with place True have "rbtree_insert s key v = Some (None, ?s2)" by (simp add: rbtree_insert_def init H(3))
    moreover have "rb_holds ?s2 t"
      using H a by (auto simp: rb_holds_def reps_def s1_def rb_init_def)
    ultimately show ?thesis using True dom by (auto simp: s1_def rb_init_def)
  next
    case False
    with place obtain ctx cmp where c: "t = plug ctx Leaf" "hole_for key ctx" "hole_side ctx 0 cmp"
        "insert_place s1 key None 0 (ptr t) = Some (Some (if ctx = [] then None else up ctx, cmp))" by auto
    let ?t = "plug ctx (Node ?a RB_RED Leaf key v Leaf)"
    obtain s2 s3 where l: "(case (if ctx = [] then None else up ctx) of
        None \<Rightarrow> Some (s1\<lparr>root := Some ?a\<rparr>)
      | Some p \<Rightarrow> with_node p (set_child (if cmp < 0 then Lft else Rgt) (Some ?a)) s1) = Some s2"
        "with_node ?a (\<lambda>n. n\<lparr>nparent := if ctx = [] then None else up ctx\<rparr>) s2 = Some s3" "reps s3 ?t"
        "tree_brk s3 = Suc ?a" "tree_dispose s3 = tree_dispose s" "dom (tree_heap s3) = insert ?a (dom (tree_heap s))"
      using link_new[OF t[unfolded c(1)] c(3), of key v] unfolding s1_def by blast
    have "ctx_ok 0 ctx" using H(7) c(1) rb_valid_plug[of ctx Leaf] by simp
    then obtain s4 t4 where s4: "rb_balance_insert s3 ?a = Some s4" "reached s3 ?t s4 t4" "rb_valid t4"
      using rb_balance_insert_ok[OF l(3)] by auto
    obtain ls rs where parts: "\<And>t. inorder (plug ctx t) = ls @ inorder t @ rs" "\<forall>x \<in> fst ` set ls. x < key" "\<forall>x \<in> fst ` set rs. key < x"
      using c(2) by (auto simp: hole_for_def)
    have in4: "inorder t4 = ls @ (key, v) # rs" "inorder t = ls @ rs" using s4(2) c(1) by (simp_all add: parts reached_def)
    have "ordered t4"
      using H(8) parts(2,3) unfolding ordered_def in4 by (auto simp: sorted_wrt_append dest: less_trans)
    moreover have "set (addrs t4) = insert ?a (set (addrs t))" using s4(2) c(1) by (simp add: reached_def)
    moreover have "dom (tree_heap s4) = insert ?a (set (addrs t))"
      using s4(2) l(6) H(5) by (auto simp: reached_def keeps_tree_def dom_def)
    moreover have "\<forall>b \<in> set (ctx_addrs ctx). b < Suc ?a" using H(6) c(1) by (auto simp: less_Suc_eq)
    ultimately have "rb_holds s4 t4"
      using s4(2,3) l(4) by (simp add: rb_holds_def reached_def keeps_tree_def)
    moreover have "rb_map t4 = (rb_map t)(key \<mapsto> v)"
      unfolding rb_map_def in4 using parts(2) by (intro map_of_between) auto
    moreover have "rbtree_insert s key v = Some (Some ?a, s4)"
      using c(4) l(1,2) s4(1) by (simp add: rbtree_insert_def init H(3))
    moreover have "tree_dispose s4 = tree_dispose s" using s4(2) l(5) by (simp add: reached_def keeps_tree_def)
    ultimately show ?thesis using False dom by auto
  qed
qed

subsection \<open>Deleting\<close>

lemma rb_min_ok:
  assumes "tree_rep (tree_heap s) par t" "ptr t = Some a"
  shows "\<exists>ctx x c k v r rest. t = plug ctx (Node x c Leaf k v r) \<and> rb_min s a = Some x
    \<and> (\<forall>u. inorder (plug ctx u) = inorder u @ rest)"
  using assms
proof (induction t arbitrary: par a)
  case (Node b c l k v r)
  then have h: "tree_heap s a = Some \<lparr>nkey = k, nvalue = v, ncolor = c, nparent = par, nleft = ptr l, nright = ptr r\<rparr>" "a = b"
    by auto
  show ?case
  proof (cases l)
    case Leaf
    then have "rb_min s a = Some a" using h by (subst rb_min.simps) simp
    then show ?thesis using Leaf h(2) by (intro exI[of _ "[]"]) auto
  next
    case (Node b' c' l' k' v' r')
    then obtain ctx x cx kx vx rx rest where m: "l = plug ctx (Node x cx Leaf kx vx rx)" "rb_min s b' = Some x"
        "\<forall>u. inorder (plug ctx u) = inorder u @ rest"
      using Node.IH(1)[of "Some b" b'] Node.prems(1) by auto
    have pl: "plug (ctx @ [Frame Lft b c k v r]) u = Node b c (plug ctx u) k v r" for u by (simp add: plug_append)
    have "rb_min s a = Some x" using h(1) m(2) Node by (subst rb_min.simps) simp
    moreover have "Node b c l k v r = plug (ctx @ [Frame Lft b c k v r]) (Node x cx Leaf kx vx rx)" unfolding pl m(1) ..
    moreover have "\<forall>u. inorder (plug (ctx @ [Frame Lft b c k v r]) u) = inorder u @ rest @ (k, v) # inorder r"
      unfolding pl using m(3) by simp
    ultimately show ?thesis by blast
  qed
qed simp

lemma unlink_ok:
  assumes r: "reps s (plug ctx (Node x c l k v r))" and one: "l = Leaf \<or> r = Leaf"
  defines "w \<equiv> if l = Leaf then r else l"
  shows "\<exists>s' xn. unlink_node s x = Some (ptr w, s') \<and> reps s' (plug ctx w) \<and> keeps_tree s s'
    \<and> tree_heap s' x = Some xn \<and> ncolor xn = c \<and> nparent xn = up ctx \<and> nkey xn = k \<and> nvalue xn = v"
proof -
  let ?xn = "\<lparr>nkey = k, nvalue = v, ncolor = c, nparent = up ctx, nleft = ptr l, nright = ptr r\<rparr>"
  note R = repsD[OF r]
  have rt: "root s = ptr (plug ctx (Node x c l k v r))" using r by (simp add: reps_def)
  have x: "tree_heap s x = Some ?xn" "x \<notin> set (addrs w)" "x \<notin> set (ctx_addrs ctx)" using R by (auto simp: w_def)
  have w: "ptr w = (if ptr l \<noteq> None then ptr l else ptr r)" "tree_rep (tree_heap s) (Some x) w" "distinct (addrs w)"
    "set (ctx_addrs ctx) \<inter> set (addrs w) = {}"
    using R one by (auto simp: w_def)
  have dist: "distinct (addrs (plug ctx w))" using w R(3) by simp
  define s1 where "s1 = (case ctx of [] \<Rightarrow> s\<lparr>root := ptr w\<rparr>
    | Frame d p cp kp vp y # ctx1 \<Rightarrow> s\<lparr>tree_heap := (tree_heap s)(p \<mapsto> set_child d (ptr w) (the (tree_heap s p)))\<rparr>)"
  have s1: "(case up ctx of
           None \<Rightarrow> Some (s\<lparr>root := ptr w\<rparr>)
         | Some p \<Rightarrow> do { pn \<leftarrow> tree_heap s p; with_node p (set_child (if Some x = nleft pn then Lft else Rgt) (ptr w)) s }) = Some s1"
    "keeps_tree s s1" "root s1 = ptr (plug ctx w)" "tree_heap s1 x = Some ?xn"
    "ctx_rep (tree_heap s1) (ptr w) ctx" "tree_rep (tree_heap s1) (Some x) w"
  proof (atomize (full), goal_cases)
    case 1
    show ?case
    proof (cases ctx rule: up.cases)
      case 1
      then show ?thesis using x(1) w(2) by (simp add: s1_def keeps_tree_def)
    next
      case (2 d p cp kp vp y ctx1)
      have p: "p \<noteq> x" "p \<notin> set (addrs y)" "p \<notin> set (ctx_addrs ctx1)" "p \<notin> set (addrs w)" "Some x \<noteq> ptr y"
        using R(3,5) w(4) 2 ptr_addrs[of y x] by auto
      then show ?thesis
        using x(1) w(2) R(1) rt 2 by (cases d) (simp_all add: s1_def keeps_tree_def with_node_def ptr_plug)
    qed
  qed
  have un: "unlink_node s x = do {
      s1 \<leftarrow> (case up ctx of
           None \<Rightarrow> Some (s\<lparr>root := ptr w\<rparr>)
         | Some p \<Rightarrow> do { pn \<leftarrow> tree_heap s p; with_node p (set_child (if Some x = nleft pn then Lft else Rgt) (ptr w)) s });
      s2 \<leftarrow> (case ptr w of None \<Rightarrow> Some s1 | Some b \<Rightarrow> with_node b (\<lambda>m. m\<lparr>nparent := up ctx\<rparr>) s1);
      Some (ptr w, s2) }"
    by (simp only: unlink_node_def x(1) Option.bind.bind_lunit Let_def rb_node.select_convs w(1)[symmetric])
  show ?thesis
  proof (cases w)
    case Leaf
    then have "unlink_node s x = Some (ptr w, s1)" unfolding un s1(1) by simp
    moreover have "reps s1 (plug ctx w)" using s1(3,5) dist Leaf by (simp add: reps_def)
    ultimately show ?thesis using s1(2,4) by auto
  next
    case (Node b cb lb kb vb rb)
    let ?s2 = "s1\<lparr>tree_heap := (tree_heap s1)(b \<mapsto> \<lparr>nkey = kb, nvalue = vb, ncolor = cb, nparent = up ctx, nleft = ptr lb, nright = ptr rb\<rparr>)\<rparr>"
    have b: "tree_heap s1 b = Some \<lparr>nkey = kb, nvalue = vb, ncolor = cb, nparent = Some x, nleft = ptr lb, nright = ptr rb\<rparr>"
      "b \<notin> set (ctx_addrs ctx)" "b \<notin> set (addrs lb)" "b \<notin> set (addrs rb)" "b \<noteq> x" "x \<noteq> b"
      using s1(6) w(3,4) x(2) Node by auto
    have st: "with_node b (\<lambda>m. m\<lparr>nparent := up ctx\<rparr>) s1 = Some ?s2" using b(1) by (simp add: with_node_def)
    have "(case ptr w of None \<Rightarrow> Some s1 | Some b \<Rightarrow> with_node b (\<lambda>m. m\<lparr>nparent := up ctx\<rparr>) s1) = Some ?s2"
      unfolding Node using st by simp
    then have "unlink_node s x = Some (ptr w, ?s2)" unfolding un s1(1) by simp
    moreover have "reps ?s2 (plug ctx w)" using s1(3,5,6) b dist Node by (simp add: reps_def)
    moreover have "keeps_tree s ?s2" using s1(2) keeps_with_node[OF st] keeps_tree_trans by blast
    ultimately show ?thesis using s1(4) b(6) by auto
  qed
qed

lemma rb_ok_blacken: "rb_ok t \<Longrightarrow> rb_ok (blacken t)"
  by (cases t) auto

text \<open>The balance is restored after the node of colour \<open>c\<close> over \<open>w\<close> is gone.\<close>

lemma delete_rebalance:
  assumes r: "reps s (plug ctx w)" and ok: "rb_ok w" "ctx_ok (bheight w + blackened c) ctx"
    and red: "c = RB_RED \<Longrightarrow> color w = RB_BLACK"
  shows "\<exists>s' t'. (if c = RB_BLACK then rb_balance_delete s (ptr w) (up ctx) else Some s) = Some s'
    \<and> reached s (plug ctx w) s' t' \<and> rb_valid t'"
proof (cases c)
  case RB_BLACK
  then show ?thesis using rb_balance_delete_ok[OF r rb_ok_blacken[OF ok(1)]] ok(2) by simp
next
  case RB_RED
  then have "rb_valid (plug ctx w)" using ok red unfolding rb_valid_plug by simp
  with RB_RED reached_refl[OF r] show ?thesis by auto
qed

lemma rb_holds_free:
  assumes "reached s (plug ctx w) s' t'" "rb_valid t'" "keeps_tree s0 s" "dom (tree_heap s0) = insert x (set (addrs (plug ctx w)))"
    "x \<notin> set (addrs (plug ctx w))" "\<forall>a \<in> set (addrs (plug ctx w)). a < tree_brk s0" "ordered t'"
  shows "rb_holds (s'\<lparr>tree_heap := (tree_heap s')(x := None)\<rparr>) t'"
proof -
  have a: "set (addrs t') = set (addrs (plug ctx w))" "reps s' t'" "keeps_tree s s'" using assms(1) by (simp_all add: reached_def)
  have "dom (tree_heap s') = insert x (set (addrs t'))"
    using assms(3,4) a(1,3) by (auto simp: keeps_tree_def dom_def)
  then have "dom ((tree_heap s')(x := None)) = set (addrs t')" using assms(5) a(1) by auto
  then show ?thesis
    using assms(2,3,5,6,7) a by (simp add: rb_holds_def reps_def keeps_tree_def)
qed

lemma map_of_without:
  assumes "distinct (map fst (ls @ (k, v) # rs))"
  shows "map_of (ls @ rs) = (map_of (ls @ (k, v) # rs))(k := None)"
proof -
  have "k \<notin> fst ` set ls" "k \<notin> fst ` set rs" using assms by auto
  then show ?thesis
    by (auto simp: fun_eq_iff map_add_def map_of_eq_None_iff[symmetric] split: option.splits)
qed

lemma ordered_without: "sorted_wrt (<) (map fst (ls @ (k, v) # rs)) \<Longrightarrow> sorted_wrt (<) (map fst (ls @ rs))"
  by (simp add: sorted_wrt_append)

lemma rbtree_delete_absent:
  assumes "rb_holds s t" "rb_map t key = None"
  shows "rbtree_delete s key = Some (False, [], s)"
  using rb_get_found[OF rb_holdsD(2,8)[OF assms(1)], of key] rb_holdsD(3)[OF assms(1)] assms(2) rb_map_None[of t key]
  by (simp add: rbtree_delete_def)

text \<open>A node with at most one child: it leaves the tree itself.\<close>

lemma rbtree_delete_here:
  assumes t: "rb_holds s (plug ctx (Node a c l key v r))" and one: "l = Leaf \<or> r = Leaf"
    and get: "rb_get s (root s) key = Some (Some a)"
  shows "\<exists>s' t'. rbtree_delete s key = Some (True, disposed s v, s') \<and> rb_holds s' t'
    \<and> rb_map t' = (rb_map (plug ctx (Node a c l key v r)))(key := None) \<and> tree_dispose s' = tree_dispose s"
proof -
  note H = rb_holdsD[OF t]
  define w where "w = (if l = Leaf then r else l)"
  obtain s1 an where u: "unlink_node s a = Some (ptr w, s1)" "reps s1 (plug ctx w)" "keeps_tree s s1"
      "tree_heap s1 a = Some an" "ncolor an = c" "nparent an = up ctx"
    using unlink_ok[OF H(1) one] unfolding w_def by blast
  have n: "tree_heap s a = Some \<lparr>nkey = key, nvalue = v, ncolor = c, nparent = up ctx, nleft = ptr l, nright = ptr r\<rparr>"
    using H(2) by simp
  have ok: "rb_ok w" "ctx_ok (bheight w + blackened c) ctx" "c = RB_RED \<Longrightarrow> color w = RB_BLACK"
    using H(7) one unfolding rb_valid_plug by (auto simp: w_def)
  obtain s2 t2 where s2: "(if c = RB_BLACK then rb_balance_delete s1 (ptr w) (up ctx) else Some s1) = Some s2"
      "reached s1 (plug ctx w) s2 t2" "rb_valid t2"
    using delete_rebalance[OF u(2) ok] by blast
  obtain ls rs where parts: "\<And>t. inorder (plug ctx t) = ls @ inorder t @ rs" using inorder_plug_parts by blast
  have io: "inorder t2 = (ls @ inorder l) @ inorder r @ rs" "inorder (plug ctx (Node a c l key v r)) = (ls @ inorder l) @ (key, v) # inorder r @ rs"
    using s2(2) one by (auto simp: reached_def parts w_def)
  have ord: "ordered t2" using H(8) unfolding ordered_def io by (rule ordered_without)
  let ?s = "s2\<lparr>tree_heap := (tree_heap s2)(a := None)\<rparr>"
  have "rb_holds ?s t2"
    by (rule rb_holds_free[OF s2(2,3) u(3) _ _ _ ord]) (use H(4-6) one in \<open>auto simp: w_def\<close>)
  moreover have "rb_map t2 = (rb_map (plug ctx (Node a c l key v r)))(key := None)"
    unfolding rb_map_def io by (rule map_of_without) (use ordered_distinct[OF H(8)] io(2) in simp)
  moreover have "rbtree_delete s key = Some (True, disposed s v, ?s)"
    using one get n u s2(1) by (cases l; cases r; cases c) (simp_all add: rbtree_delete_def)
  moreover have "tree_dispose s2 = tree_dispose s" using s2(2) u(3) by (simp add: reached_def keeps_tree_def)
  ultimately show ?thesis by auto
qed

text \<open>A node with two children: the next key moves into it, and the node that had it leaves.\<close>

lemma rbtree_delete_next:
  assumes t: "rb_holds s (plug ctx (Node a c l key v r))" and two: "l \<noteq> Leaf" "r \<noteq> Leaf"
    and get: "rb_get s (root s) key = Some (Some a)"
  shows "\<exists>s' t'. rbtree_delete s key = Some (True, disposed s v, s') \<and> rb_holds s' t'
    \<and> rb_map t' = (rb_map (plug ctx (Node a c l key v r)))(key := None) \<and> tree_dispose s' = tree_dispose s"
proof -
  note H = rb_holdsD[OF t]
  have n: "tree_heap s a = Some \<lparr>nkey = key, nvalue = v, ncolor = c, nparent = up ctx, nleft = ptr l, nright = ptr r\<rparr>"
    and rep: "tree_rep (tree_heap s) (Some a) r" using H(2) by simp_all
  obtain q p where qp: "ptr l = Some q" "ptr r = Some p" using two by (cases l; cases r) auto
  from rb_min_ok[OF rep qp(2)] obtain cr x cx k w w' rest where
    m: "r = plug cr (Node x cx Leaf k w w')" "rb_min s p = Some x" "\<And>u. inorder (plug cr u) = inorder u @ rest" by blast
  define up_ctx where "up_ctx = (\<lambda>k v. cr @ Frame Rgt a c k v l # ctx)"
  have pl: "plug (up_ctx k' v') u = plug ctx (Node a c l k' v' (plug cr u))" for k' v' u by (simp add: up_ctx_def plug_append)
  have up: "up (up_ctx k' v') = up (up_ctx key v)" for k' v' by (cases cr rule: up.cases) (simp_all add: up_ctx_def)
  have adr: "ctx_addrs (up_ctx k' v') = ctx_addrs (up_ctx key v)" for k' v'
    unfolding up_ctx_def by (induction cr rule: ctx_addrs.induct) simp_all
  have tree: "plug ctx (Node a c l key v r) = plug (up_ctx key v) (Node x cx Leaf k w w')" by (simp add: pl m(1))
  note H' = H[unfolded tree]
  obtain s1 xn where u: "unlink_node s x = Some (ptr w', s1)" "reps s1 (plug (up_ctx key v) w')" "keeps_tree s s1"
      "tree_heap s1 x = Some xn" "ncolor xn = cx" "nparent xn = up (up_ctx key v)" "nkey xn = k" "nvalue xn = w"
    using unlink_ok[OF H'(1)] by auto
  have ax: "a \<noteq> x" using H(4) m(1) by auto
  obtain an where an: "tree_heap s1 a = Some an" "ncolor an = c"
    using reps_node[of s1 ctx Lft a c l key v "plug cr w'"] u(2) pl by auto
  obtain s2 where s2: "with_node a (\<lambda>n. n\<lparr>nkey := k, nvalue := w\<rparr>) s1 = Some s2" "reps s2 (plug (up_ctx k w) w')" "keeps_tree s1 s2"
    using reps_update[of s1 ctx Lft a c l key v "plug cr w'" "\<lambda>n. n\<lparr>nkey := k, nvalue := w\<rparr>" "\<lambda>_. w" "\<lambda>_. k" ncolor, OF _ _ an(1)]
      u(2) an(2) by (auto simp: pl)
  have "rb_valid (plug ctx (Node a c l k w (plug cr (Node x cx Leaf k w w'))))"
    using H(7) unfolding m(1) rb_valid_plug by auto
  then have "rb_valid (plug (up_ctx k w) (Node x cx Leaf k w w'))" by (simp add: pl)
  then have ok: "rb_ok w'" "ctx_ok (bheight w' + blackened cx) (up_ctx k w)" "cx = RB_RED \<Longrightarrow> color w' = RB_BLACK"
    unfolding rb_valid_plug by auto
  obtain s3 t3 where s3: "(if cx = RB_BLACK then rb_balance_delete s2 (ptr w') (up (up_ctx key v)) else Some s2) = Some s3"
      "reached s2 (plug (up_ctx k w) w') s3 t3" "rb_valid t3"
    using delete_rebalance[OF s2(2) ok] up by metis
  obtain ls rs where parts: "\<And>t. inorder (plug ctx t) = ls @ inorder t @ rs" using inorder_plug_parts by blast
  have io: "inorder t3 = (ls @ inorder l) @ ((k, w) # inorder w' @ rest) @ rs"
      "inorder (plug ctx (Node a c l key v r)) = (ls @ inorder l) @ (key, v) # ((k, w) # inorder w' @ rest) @ rs"
    using s3(2) by (simp_all add: reached_def pl parts m(3) m(1))
  have ord: "ordered t3" using H(8) unfolding ordered_def io by (rule ordered_without)
  let ?s = "s3\<lparr>tree_heap := (tree_heap s3)(x := None)\<rparr>"
  have k12: "keeps_tree s s2" using u(3) s2(3) by (rule keeps_tree_trans)
  have "rb_holds ?s t3"
    by (rule rb_holds_free[OF s3(2,3) k12 _ _ _ ord]) (use H'(4-6) in \<open>auto simp: adr[of k w]\<close>)
  moreover have "rb_map t3 = (rb_map (plug ctx (Node a c l key v r)))(key := None)"
    unfolding rb_map_def io by (rule map_of_without) (use ordered_distinct[OF H(8)] io(2) in simp)
  moreover have "rbtree_delete s key = Some (True, disposed s v, ?s)"
    using get n qp m(2) u ax s2(1) s3(1) by (cases cx) (simp_all add: rbtree_delete_def)
  moreover have "tree_dispose s3 = tree_dispose s" using s3(2) k12 by (simp add: reached_def keeps_tree_def)
  ultimately show ?thesis by auto
qed

lemma rbtree_delete_ok:
  assumes t: "rb_holds s t" and m: "rb_map t key = Some v"
  shows "\<exists>s' t'. rbtree_delete s key = Some (True, disposed s v, s') \<and> rb_holds s' t'
    \<and> rb_map t' = (rb_map t)(key := None) \<and> tree_dispose s' = tree_dispose s"
proof -
  have "key \<in> set (keys t)" using m rb_map_None[of t key] by auto
  with rb_get_found[OF rb_holdsD(2,8)[OF t], of key] obtain ctx a c l v' r where
    f: "t = plug ctx (Node a c l key v' r)" "rb_get s (ptr t) key = Some (Some a)" by auto
  have "v' = v" using m rb_map_at[OF rb_holdsD(8)[OF t, unfolded f(1)]] f(1) by simp
  moreover have "rb_get s (root s) key = Some (Some a)" using f(2) rb_holdsD(3)[OF t] by simp
  ultimately show ?thesis
    using rbtree_delete_here[OF t[unfolded f(1)]] rbtree_delete_next[OF t[unfolded f(1)]] f(1) by metis
qed

subsection \<open>Traversals\<close>

lemma rb_keys_ok:
  assumes "tree_rep (tree_heap s) par t" "ptr t = Some a"
  shows "rb_keys s a array = Some (array @ keys t)"
  using assms
proof (induction t arbitrary: par a array)
  case (Node b c l k v r)
  have "(case ptr l of None \<Rightarrow> Some array | Some q \<Rightarrow> rb_keys s q array) = Some (array @ keys l)"
    using Node.IH(1)[of "Some b"] Node.prems by (cases l) auto
  moreover have "(case ptr r of None \<Rightarrow> Some xs | Some q \<Rightarrow> rb_keys s q xs) = Some (xs @ keys r)" for xs
    using Node.IH(2)[of "Some b"] Node.prems by (cases r) auto
  ultimately show ?case using Node.prems by (subst rb_keys.simps) simp
qed simp

lemma rbtree_keys_ok: "rb_holds s t \<Longrightarrow> rbtree_keys s = Some (keys t)"
  using rb_keys_ok[OF rb_holdsD(2), of s t] rb_holdsD(3)[of s t] by (cases t) (auto simp: rbtree_keys_def)

lemma rb_range_ok:
  assumes "tree_rep (tree_heap s) par t" "ptr t = Some a" "ordered t"
  shows "rb_range s a lo hi array = Some (array @ filter (\<lambda>k. lo \<le> k \<and> k \<le> hi) (keys t))"
  using assms
proof (induction t arbitrary: par a array)
  case (Node b c l k v r)
  let ?in = "\<lambda>k. lo \<le> k \<and> k \<le> hi"
  have ord: "ordered l" "ordered r" "\<forall>x \<in> set (keys l). x < k" "\<forall>x \<in> set (keys r). k < x"
    using Node.prems(3) unfolding ordered_Node by blast+
  have l: "(if ptr l \<noteq> None \<and> strcmp k lo > 0 then rb_range s (the (ptr l)) lo hi array else Some array)
      = Some (array @ filter ?in (keys l))"
  proof (cases "ptr l \<noteq> None \<and> lo < k")
    case True
    then show ?thesis using Node.IH(1)[of "Some b" "the (ptr l)" array] Node.prems(1) ord(1) by (auto simp: strcmp_order)
  next
    case False
    then have "l = Leaf \<or> (\<forall>x \<in> set (keys l). \<not> lo \<le> x)" using ord(3) by (metis leD less_le_trans not_less ptr_None(1))
    then have "filter ?in (keys l) = []" by (auto simp: filter_empty_conv)
    then show ?thesis using False by (auto simp: strcmp_order)
  qed
  have r: "(if ptr r \<noteq> None \<and> strcmp k hi < 0 then rb_range s (the (ptr r)) lo hi xs else Some xs)
      = Some (xs @ filter ?in (keys r))" for xs
  proof (cases "ptr r \<noteq> None \<and> k < hi")
    case True
    then show ?thesis using Node.IH(2)[of "Some b" "the (ptr r)" xs] Node.prems(1) ord(2) by (auto simp: strcmp_order)
  next
    case False
    then have "r = Leaf \<or> (\<forall>x \<in> set (keys r). \<not> x \<le> hi)" using ord(4) by (metis leD le_less_trans not_less ptr_None(1))
    then have "filter ?in (keys r) = []" by (auto simp: filter_empty_conv)
    then show ?thesis using False by (auto simp: strcmp_order)
  qed
  have here: "strcmp k lo \<ge> 0 \<longleftrightarrow> lo \<le> k" "strcmp k hi \<le> 0 \<longleftrightarrow> k \<le> hi"
    using strcmp_order(2)[of k lo] strcmp_order(3)[of k hi] by (auto simp: not_less[symmetric])
  have n: "tree_heap s a = Some \<lparr>nkey = k, nvalue = v, ncolor = c, nparent = par, nleft = ptr l, nright = ptr r\<rparr>"
    using Node.prems(1,2) by simp
  have "rb_range s a lo hi array = Some ((if lo \<le> k \<and> k \<le> hi then (array @ filter ?in (keys l)) @ [k] else array @ filter ?in (keys l))
      @ filter ?in (keys r))"
    unfolding rb_range.simps[of s a] by (simp only: n Option.bind.bind_lunit Let_def rb_node.select_convs l r here)
  then show ?case by simp
qed simp

lemma rbtree_range_ok: "rb_holds s t \<Longrightarrow> rbtree_range s lo hi = Some (filter (\<lambda>k. lo \<le> k \<and> k \<le> hi) (keys t))"
  using rb_range_ok[OF rb_holdsD(2) _ rb_holdsD(8), of s t] rb_holdsD(3)[of s t] by (cases t) (auto simp: rbtree_range_def)

lemma rb_size_ok:
  assumes "tree_rep (tree_heap s) par t" "ptr t = Some a"
  shows "rb_size s a = Some (of_nat (length (inorder t)))"
  using assms
proof (induction t arbitrary: par a)
  case (Node b c l k v r)
  have "(case ptr l of None \<Rightarrow> Some 0 | Some q \<Rightarrow> rb_size s q) = Some (of_nat (length (inorder l)))"
    using Node.IH(1)[of "Some b"] Node.prems by (cases l) auto
  moreover have "(case ptr r of None \<Rightarrow> Some 0 | Some q \<Rightarrow> rb_size s q) = Some (of_nat (length (inorder r)))"
    using Node.IH(2)[of "Some b"] Node.prems by (cases r) auto
  ultimately show ?case using Node.prems by (subst rb_size.simps) simp
qed simp

lemma rbtree_size_ok: "rb_holds s t \<Longrightarrow> rbtree_size s = Some (of_nat (length (inorder t)))"
  using rb_size_ok[OF rb_holdsD(2), of s t] rb_holdsD(3)[of s t] by (cases t) (auto simp: rbtree_size_def)

lemma rb_black_depth_ok:
  assumes "tree_rep (tree_heap s) par t" "rb_ok t"
  shows "rb_black_depth s (ptr t) = Some (int (bheight t) + 1)"
  using assms
proof (induction t arbitrary: par)
  case Leaf
  then show ?case by (simp add: rb_black_depth.simps[of s None])
next
  case (Node b c l k v r)
  have "rb_black_depth s (ptr l) = Some (int (bheight l) + 1)" "rb_black_depth s (ptr r) = Some (int (bheight r) + 1)"
    using Node.IH[of "Some b"] Node.prems by auto
  then show ?case using Node.prems by (cases c) (simp_all add: rb_black_depth.simps[of s "Some b"])
qed

lemma rbtree_black_depth_ok: "rb_holds s t \<Longrightarrow> rbtree_black_depth s = Some (int (bheight t))"
proof -
  assume h: "rb_holds s t"
  note H = rb_holdsD[OF h]
  show ?thesis
  proof (cases t)
    case Leaf
    then show ?thesis using H(3) by (simp add: rbtree_black_depth_def)
  next
    case (Node b c l k v r)
    then have "c = RB_BLACK" "rb_ok l" "rb_ok r" "bheight l = bheight r" using H(7) by (auto simp: rb_valid_def)
    then show ?thesis
      using H(2,3) Node rb_black_depth_ok[of s "Some b" l] rb_black_depth_ok[of s "Some b" r] by (simp add: rbtree_black_depth_def)
  qed
qed

lemma rb_max_ok:
  assumes "tree_rep (tree_heap s) par t" "ptr t = Some a"
  shows "\<exists>x n. rb_max s a = Some x \<and> tree_heap s x = Some n \<and> nkey n = last (keys t)"
  using assms
proof (induction t arbitrary: par a)
  case (Node b c l k v r)
  show ?case
  proof (cases r)
    case Leaf
    then show ?thesis using Node.prems by (subst rb_max.simps) auto
  next
    case r: (Node b' c' l' k' v' r')
    from Node.IH(2)[of "Some b" b'] Node.prems r obtain x n where
      "rb_max s b' = Some x" "tree_heap s x = Some n" "nkey n = last (keys r)" by auto
    moreover have "rb_max s a = rb_max s b'" using Node.prems r by (subst rb_max.simps) auto
    ultimately show ?thesis using r by auto
  qed
qed simp

lemma rbtree_ends_ok:
  assumes "rb_holds s t"
  shows "rbtree_minimum s = Some (if keys t = [] then None else Some (hd (keys t)))"
    and "rbtree_maximum s = Some (if keys t = [] then None else Some (last (keys t)))"
proof -
  note H = rb_holdsD[OF assms]
  show "rbtree_minimum s = Some (if keys t = [] then None else Some (hd (keys t)))"
  proof (cases "ptr t")
    case None
    then show ?thesis using H(3) by (simp add: rbtree_minimum_def)
  next
    case (Some a)
    from rb_min_ok[OF H(2) Some] obtain ctx x c k v r rest where
      m: "t = plug ctx (Node x c Leaf k v r)" "rb_min s a = Some x" "\<forall>u. inorder (plug ctx u) = inorder u @ rest" by blast
    have "tree_rep (tree_heap s) (up ctx) (Node x c Leaf k v r)" using H(2) m(1) by simp
    moreover have "keys t = k # keys r @ map fst rest" using m(1,3) by simp
    ultimately show ?thesis using m(2) H(3) Some by (simp add: rbtree_minimum_def)
  qed
  show "rbtree_maximum s = Some (if keys t = [] then None else Some (last (keys t)))"
  proof (cases "ptr t")
    case None
    then show ?thesis using H(3) by (simp add: rbtree_maximum_def)
  next
    case (Some a)
    then have "keys t \<noteq> []" by (cases t) auto
    then show ?thesis using rb_max_ok[OF H(2) Some] H(3) Some by (auto simp: rbtree_maximum_def)
  qed
qed

text \<open>Destruction passes every value to the dispose function and frees every node.\<close>

fun tree_values :: "bool \<Rightarrow> 'v rbt \<Rightarrow> 'v list" where
  "tree_values f Leaf = []"
| "tree_values f (Node a c l k v r) = tree_values f l @ tree_values f r @ disposal f v"

lemma mset_tree_values: "mset (tree_values f t) = mset (concat (map (\<lambda>p. disposal f (snd p)) (inorder t)))"
  by (induction t) auto

lemma tree_rep_cong:
  assumes "\<And>x. x \<in> set (addrs t) \<Longrightarrow> h' x = h x"
  shows "tree_rep h' par t = tree_rep h par t"
  using assms by (induction t arbitrary: par) auto

lemma rb_destroy_ok:
  assumes "tree_rep (tree_heap s) par t" "ptr t = Some a" "distinct (addrs t)"
  shows "rb_destroy a f s = Some (tree_values f t, s\<lparr>tree_heap := (\<lambda>x. if x \<in> set (addrs t) then None else tree_heap s x)\<rparr>)"
  using assms
proof (induction t arbitrary: par a s)
  case (Node b c l k v r)
  let ?s1 = "s\<lparr>tree_heap := (\<lambda>x. if x \<in> set (addrs l) then None else tree_heap s x)\<rparr>"
  have "(case ptr l of None \<Rightarrow> Some ([], s) | Some q \<Rightarrow> rb_destroy q f s) = Some (tree_values f l, ?s1)"
    using Node.IH(1)[of s "Some b"] Node.prems by (cases l) auto
  moreover have "tree_rep (tree_heap ?s1) (Some b) r"
    using Node.prems(1,3) tree_rep_cong[of r "tree_heap ?s1" "tree_heap s" "Some b"] by fastforce
  then have "(case ptr r of None \<Rightarrow> Some ([], ?s1) | Some q \<Rightarrow> rb_destroy q f ?s1) = Some (tree_values f r,
      s\<lparr>tree_heap := (\<lambda>x. if x \<in> set (addrs l) \<union> set (addrs r) then None else tree_heap s x)\<rparr>)"
    using Node.IH(2)[of ?s1 "Some b"] Node.prems by (cases r) (auto simp: fun_eq_iff)
  ultimately show ?case
    using Node.prems by (subst rb_destroy.simps) (auto simp: disposal_def fun_eq_iff split: option.splits)
qed simp

subsection \<open>Balance\<close>

text \<open>How many nodes a search compares its key with.\<close>

partial_function (option) rb_visits :: "'v rb_tree \<Rightarrow> nat option \<Rightarrow> cstring \<Rightarrow> nat option" where
  "rb_visits s p key =
     (case p of
        None \<Rightarrow> Some 0
      | Some a \<Rightarrow> do {
          n \<leftarrow> tree_heap s a;
          if strcmp key (nkey n) = 0 then Some 1
          else do { m \<leftarrow> rb_visits s (if strcmp key (nkey n) < 0 then nleft n else nright n) key; Some (m + 1) }
        })"

lemma rb_visits_ok:
  assumes "tree_rep (tree_heap s) par t" "rb_ok t"
  shows "\<exists>n. rb_visits s (ptr t) key = Some n \<and> n \<le> 2 * bheight t + (if color t = RB_RED then 1 else 0)"
  using assms
proof (induction t arbitrary: par)
  case Leaf
  then show ?case by (simp add: rb_visits.simps[of s None])
next
  case (Node b c l k v r)
  obtain n where n: "rb_visits s (ptr (if strcmp key k < 0 then l else r)) key = Some n"
      "n \<le> 2 * bheight l + (if color (if strcmp key k < 0 then l else r) = RB_RED then 1 else 0)"
    using Node.IH[of "Some b"] Node.prems by (cases "strcmp key k < 0") auto
  have "rb_visits s (Some b) key = (if strcmp key k = 0 then Some 1 else Some (n + 1))"
    using Node.prems(1) n(1) by (auto simp: rb_visits.simps[of s "Some b"] split: if_splits)
  then show ?case using n(2) Node.prems(2) by (cases c) (auto split: if_splits)
qed

lemma bheight_size: "rb_ok t \<Longrightarrow> 2 ^ bheight t \<le> length (inorder t) + 1"
proof (induction t)
  case (Node b c l k v r)
  then show ?case by (cases c) auto
qed simp

subsection \<open>The tree as an ordered map\<close>

text \<open>What the heap maps a key to.\<close>

definition rb_contents :: "'v rb_tree \<Rightarrow> cstring \<rightharpoonup> 'v option" where
  "rb_contents s key =
     (case rb_get s (root s) key of Some (Some a) \<Rightarrow> map_option nvalue (tree_heap s a) | _ \<Rightarrow> None)"

definition rb_impl :: "('v rb_tree, 'v) om_impl" where
  "rb_impl = \<lparr>om_get = rbtree_get, om_insert = rbtree_insert, om_replace = rbtree_replace, om_delete = rbtree_delete,
     om_list = rbtree_keys, om_between = rbtree_range\<rparr>"

definition rb_inv :: "'v rb_tree \<Rightarrow> bool" where
  "rb_inv s \<longleftrightarrow> (\<exists>t. rb_holds s t)"

lemma rb_contents_ok:
  assumes "rb_holds s t"
  shows "rb_contents s = rb_map t"
proof
  fix key
  note H = rb_holdsD[OF assms]
  show "rb_contents s key = rb_map t key"
  proof (cases "key \<in> set (keys t)")
    case True
    with rb_get_found[OF H(2,8), of key] obtain ctx a c l v r where
      f: "t = plug ctx (Node a c l key v r)" "rb_get s (ptr t) key = Some (Some a)" by auto
    have "tree_rep (tree_heap s) (up ctx) (Node a c l key v r)" using H(2) f(1) by simp
    then show ?thesis using f(2) H(3) rb_map_at[OF H(8)[unfolded f(1)]] f(1) by (simp add: rb_contents_def)
  next
    case False
    then show ?thesis using rb_get_found[OF H(2,8), of key] H(3) rb_map_None[of t key] by (simp add: rb_contents_def)
  qed
qed

lemma om_keys_ok:
  assumes "ordered t"
  shows "om_keys (rb_map t) = keys t"
proof -
  have "sorted (keys t)" "distinct (keys t)"
    using assms ordered_distinct[OF assms] by (auto simp: ordered_def strict_sorted_iff)
  then show ?thesis unfolding om_keys_def dom_rb_map by (rule sorted_list_of_set.idem_if_sorted_distinct)
qed

lemma disposed_eq: "disposed s v = disposal (tree_dispose s) v"
  by (simp add: disposed_def disposal_def split: option.split)

interpretation rb: ordered_map rb_inv rb_contents tree_dispose rb_impl
proof
  fix s :: "'v rb_tree" and k lo hi :: cstring and v old :: "'v option"
  assume "rb_inv s"
  then obtain t where t: "rb_holds s t" by (auto simp: rb_inv_def)
  note c = rb_contents_ok[OF t]
  show "om_get rb_impl s k = Some (Option.bind (rb_contents s k) id)"
    using rbtree_get_ok[OF t, of k] c by (auto simp: rb_impl_def split: option.splits)
  show "\<exists>a s'. om_insert rb_impl s k v = Some (a, s') \<and> (a \<noteq> None \<longleftrightarrow> rb_contents s k = None) \<and> rb_inv s'
      \<and> rb_contents s' = (if rb_contents s k = None then (rb_contents s)(k \<mapsto> v) else rb_contents s) \<and> tree_dispose s' = tree_dispose s"
  proof -
    from rbtree_insert_ok[OF t, of k v] obtain s' t' where
      i: "rbtree_insert s k v = Some (if k \<in> dom (rb_map t) then None else Some (tree_brk s), s')" "rb_holds s' t'"
        "rb_map t' = (if k \<in> dom (rb_map t) then rb_map t else (rb_map t)(k \<mapsto> v))" "tree_dispose s' = tree_dispose s" by blast
    then show ?thesis using c rb_contents_ok[OF i(2)] by (auto simp: rb_impl_def rb_inv_def)
  qed
  show "om_replace rb_impl s k v = Some (None, [], s)" if "rb_contents s k = None"
    using rbtree_replace_ok[OF t, of k v] that c by (simp add: rb_impl_def)
  show "\<exists>s'. om_replace rb_impl s k v = Some (v, disposal (tree_dispose s) old, s') \<and> rb_inv s'
      \<and> rb_contents s' = (rb_contents s)(k \<mapsto> v) \<and> tree_dispose s' = tree_dispose s" if "rb_contents s k = Some old"
  proof -
    from rbtree_replace_ok[OF t, of k v] that c obtain s' t' where
      i: "rbtree_replace s k v = Some (v, disposed s old, s')" "rb_holds s' t'" "rb_map t' = (rb_map t)(k \<mapsto> v)"
        "tree_dispose s' = tree_dispose s" by auto
    then show ?thesis using c rb_contents_ok[OF i(2)] by (auto simp: rb_impl_def rb_inv_def disposed_eq)
  qed
  show "om_delete rb_impl s k = Some (False, [], s)" if "rb_contents s k = None"
    using rbtree_delete_absent[OF t, of k] that c by (simp add: rb_impl_def)
  show "\<exists>s'. om_delete rb_impl s k = Some (True, disposal (tree_dispose s) old, s') \<and> rb_inv s'
      \<and> rb_contents s' = (rb_contents s)(k := None) \<and> tree_dispose s' = tree_dispose s" if "rb_contents s k = Some old"
  proof -
    from rbtree_delete_ok[OF t, of k old] that c obtain s' t' where
      i: "rbtree_delete s k = Some (True, disposed s old, s')" "rb_holds s' t'" "rb_map t' = (rb_map t)(k := None)"
        "tree_dispose s' = tree_dispose s" by auto
    then show ?thesis using c rb_contents_ok[OF i(2)] by (auto simp: rb_impl_def rb_inv_def disposed_eq)
  qed
  show "om_list rb_impl s = Some (om_keys (rb_contents s))"
    using rbtree_keys_ok[OF t] c om_keys_ok[OF rb_holdsD(8)[OF t]] by (simp add: rb_impl_def)
  show "om_between rb_impl s lo hi = Some (filter (\<lambda>k. lo \<le> k \<and> k \<le> hi) (om_keys (rb_contents s)))"
    using rbtree_range_ok[OF t] c om_keys_ok[OF rb_holdsD(8)[OF t]] by (simp add: rb_impl_def)
qed

lemma rb_init_inv: "rb_inv (rbtree_set_dispose rbtree_init f)" "rb_contents (rbtree_set_dispose rbtree_init f) = Map.empty"
  "tree_dispose (rbtree_set_dispose rbtree_init f) = f"
proof -
  have h: "rb_holds (rbtree_set_dispose rbtree_init f) Leaf"
    by (simp add: rb_holds_def reps_def rbtree_init_def rbtree_set_dispose_def rb_valid_def ordered_def)
  then show "rb_inv (rbtree_set_dispose rbtree_init f)" by (auto simp: rb_inv_def)
  show "rb_contents (rbtree_set_dispose rbtree_init f) = Map.empty" using rb_contents_ok[OF h] by (simp add: rb_map_def)
qed (simp add: rbtree_set_dispose_def)

lemma rbtree_destroy_ok:
  assumes "rb_inv s" "tree_dispose s"
  shows "\<exists>ds s'. rbtree_destroy s = Some (ds, s') \<and> tree_heap s' = Map.empty
    \<and> mset ds = mset (concat (map (\<lambda>k. disposal True (the (rb_contents s k))) (om_keys (rb_contents s))))"
proof -
  from assms(1) obtain t where t: "rb_holds s t" by (auto simp: rb_inv_def)
  note H = rb_holdsD[OF t]
  have k: "om_keys (rb_contents s) = keys t" using rb_contents_ok[OF t] om_keys_ok[OF H(8)] by simp
  have "map (\<lambda>k. disposal True (the (rb_contents s k))) (keys t) = map (\<lambda>p. disposal True (snd p)) (inorder t)"
    using ordered_distinct[OF H(8)] rb_contents_ok[OF t] by (auto simp: rb_map_def)
  then have m: "mset (tree_values True t) = mset (concat (map (\<lambda>k. disposal True (the (rb_contents s k))) (om_keys (rb_contents s))))"
    unfolding mset_tree_values k by (simp only:)
  have "\<exists>s'. rbtree_destroy s = Some (tree_values True t, s') \<and> tree_heap s' = Map.empty"
  proof (cases "ptr t")
    case None
    then show ?thesis using H(3,5) by (simp add: rbtree_destroy_def)
  next
    case (Some a)
    have "(\<lambda>x. if x \<in> set (addrs t) then None else tree_heap s x) = Map.empty" using H(5) by (auto simp: fun_eq_iff dom_def)
    then show ?thesis using rb_destroy_ok[OF H(2) Some H(4), of True] H(3) Some assms(2) by (simp add: rbtree_destroy_def)
  qed
  with m show ?thesis by metis
qed

text \<open>C30: over any sequence of lookups, insertions, replacements, deletions and listings, the pointer tree
  behaves as an ordered map: every call returns, follows no bad pointer and fails no assertion, the
  values and the disposed ones are those of the map, and the keys are listed in the order of strcmp,
  whole or between two bounds.\<close>

theorem rb_run_refines:
  "\<exists>s. om_run rb_impl ops (rbtree_set_dispose rbtree_init f) = Some (fst (om_spec_run f ops Map.empty), s)
    \<and> rb_contents s = snd (om_spec_run f ops Map.empty)"
  using rb.run_refines[OF rb_init_inv(1), of ops f] by (auto simp: rb_init_inv(2,3))

text \<open>C31: the tree stays balanced. Whatever was done to it, the consistency check finds the same black
  depth \<open>d\<close> on every path and never reports a fault, the tree has at least \<open>2\<^sup>d - 1\<close> keys, and a search
  looks at no more than \<open>2 d\<close> nodes: searching takes logarithmic time, as documented.\<close>

theorem rb_run_balanced:
  "\<exists>rs s d. om_run rb_impl ops (rbtree_set_dispose rbtree_init f) = Some (rs, s) \<and> rbtree_black_depth s = Some (int d)
    \<and> 2 ^ d \<le> card (dom (rb_contents s)) + 1 \<and> (\<forall>key. \<exists>n \<le> 2 * d. rb_visits s (root s) key = Some n)"
proof -
  obtain rs s where r: "om_run rb_impl ops (rbtree_set_dispose rbtree_init f) = Some (rs, s)" "rb_inv s"
    using rb.run_refines[OF rb_init_inv(1), of ops f] by blast
  then obtain t where t: "rb_holds s t" by (auto simp: rb_inv_def)
  note H = rb_holdsD[OF t]
  have ok: "rb_ok t" "color t = RB_BLACK" using H(7) by (simp_all add: rb_valid_def)
  have "dom (rb_contents s) = set (keys t)" using rb_contents_ok[OF t] dom_rb_map[of t] by simp
  then have "card (dom (rb_contents s)) = length (inorder t)"
    using distinct_card[OF ordered_distinct[OF H(8)]] by simp
  then have "2 ^ bheight t \<le> card (dom (rb_contents s)) + 1" using bheight_size[OF ok(1)] by simp
  moreover have "\<exists>n \<le> 2 * bheight t. rb_visits s (root s) key = Some n" for key
    using rb_visits_ok[OF H(2) ok(1), of key] ok(2) H(3) by auto
  ultimately show ?thesis using r(1) rbtree_black_depth_ok[OF t] by blast
qed

text \<open>C32: no node is leaked and no value is lost. After any sequence of operations, destroying the tree
  frees every node that is still allocated and passes each value still stored to the dispose function
  exactly once.\<close>

theorem rb_run_destroyed:
  "\<exists>rs s ds s'. om_run rb_impl ops (rbtree_set_dispose rbtree_init True) = Some (rs, s) \<and> rbtree_destroy s = Some (ds, s')
    \<and> tree_heap s' = Map.empty
    \<and> mset ds = mset (concat (map (\<lambda>k. disposal True (the (rb_contents s k))) (om_keys (rb_contents s))))"
proof -
  obtain rs s where r: "om_run rb_impl ops (rbtree_set_dispose rbtree_init True) = Some (rs, s)" "rb_inv s" "tree_dispose s"
    using rb.run_refines[OF rb_init_inv(1), of ops True] by (auto simp: rb_init_inv(3))
  with rbtree_destroy_ok[OF r(2,3)] show ?thesis by blast
qed

end
