(* ===== verification/Indexed_Queue.thy ===== *)
theory Indexed_Queue
  imports RB_Map Linked_Queue
begin

text \<open>
  The queue of \<^verbatim>\<open>indexed_queue_op.c\<close>, in which remoted keeps the control messages of the agents: a linked queue
  in the order of arrival and a red-black tree that finds the entry of a key. An entry is an object of
  its own, which the tree points to and which points to its node in the queue; deleting a key from
  the tree frees the entry. \<open>None\<close> is the dereference of a bad pointer.
\<close>

subsection \<open>indexed\_queue\_op.c\<close>

record 'a iq_entry =
  entry_key :: cstring
  entry_data :: 'a
  entry_node :: nat

record 'a indexed_queue =
  iq_queue :: "'a linked_queue"
  iq_index :: "nat rb_tree"
  iq_entries :: "nat \<Rightarrow> 'a iq_entry option"
  iq_brk :: nat
  max_size :: nat
  current_size :: nat
  iq_dispose :: bool
  iq_get_key :: "('a \<Rightarrow> cstring option) option"

definition indexed_queue_entry_free :: "nat \<Rightarrow> 'a indexed_queue \<Rightarrow> 'a indexed_queue" where
  "indexed_queue_entry_free e q = q\<lparr>iq_entries := (iq_entries q)(e := None)\<rparr>"

definition indexed_queue_init :: "nat \<Rightarrow> 'a indexed_queue" where
  "indexed_queue_init n =
     \<lparr>iq_queue = linked_queue_init, iq_index = rbtree_set_dispose rbtree_init True, iq_entries = (\<lambda>_. None), iq_brk = 0,
      max_size = n, current_size = 0, iq_dispose = False, iq_get_key = None\<rparr>"

definition indexed_queue_set_dispose :: "'a indexed_queue \<Rightarrow> bool \<Rightarrow> 'a indexed_queue" where
  "indexed_queue_set_dispose q f = q\<lparr>iq_dispose := f\<rparr>"

definition indexed_queue_set_get_key :: "'a indexed_queue \<Rightarrow> ('a \<Rightarrow> cstring option) option \<Rightarrow> 'a indexed_queue" where
  "indexed_queue_set_get_key q g = q\<lparr>iq_get_key := g\<rparr>"

definition indexed_queue_empty :: "'a indexed_queue \<Rightarrow> bool" where
  "indexed_queue_empty q = (current_size q = 0)"

definition indexed_queue_full :: "'a indexed_queue \<Rightarrow> bool" where
  "indexed_queue_full q = (max_size q \<noteq> 0 \<and> current_size q \<ge> max_size q)"

definition indexed_queue_size :: "'a indexed_queue \<Rightarrow> nat" where
  "indexed_queue_size q = current_size q"

text \<open>The entry of a key and its address.\<close>

definition iq_lookup :: "'a indexed_queue \<Rightarrow> cstring \<Rightarrow> (nat \<times> 'a iq_entry) option option" where
  "iq_lookup q key =
     do {
       found \<leftarrow> rbtree_get (iq_index q) key;
       (case found of None \<Rightarrow> Some None | Some e \<Rightarrow> do { en \<leftarrow> iq_entries q e; Some (Some (e, en)) })
     }"

definition indexed_queue_push :: "'a indexed_queue \<Rightarrow> cstring \<Rightarrow> 'a \<Rightarrow> (int \<times> 'a indexed_queue) option" where
  "indexed_queue_push q key data =
     (if indexed_queue_full q then Some (- 1, q)
      else do {
        found \<leftarrow> rbtree_get (iq_index q) key;
        if found \<noteq> None then Some (- 1, q)
        else do {
          let e = iq_brk q;
          (node, lq) \<leftarrow> linked_queue_push (iq_queue q) (Some data);
          let q1 = q\<lparr>iq_queue := lq, iq_brk := e + 1,
            iq_entries := (iq_entries q)(e \<mapsto> \<lparr>entry_key = key, entry_data = data, entry_node = node\<rparr>)\<rparr>;
          (made, index) \<leftarrow> rbtree_insert (iq_index q1) key (Some e);
          (case made of
             None \<Rightarrow> do {
               (_, lq2) \<leftarrow> linked_queue_pop (iq_queue q1);
               Some (- 1, indexed_queue_entry_free e (q1\<lparr>iq_queue := lq2, iq_index := index\<rparr>))
             }
           | Some _ \<Rightarrow> Some (0, q1\<lparr>iq_index := index, current_size := current_size q1 + 1\<rparr>))
        }
      })"

text \<open>The operations with locking wait while the queue is full, or empty; a signal is not part of the state.\<close>

definition indexed_queue_push_ex :: "'a indexed_queue \<Rightarrow> cstring \<Rightarrow> 'a \<Rightarrow> (int, 'a indexed_queue) outcome option" where
  "indexed_queue_push_ex q key data =
     (if indexed_queue_full q then Some (Waits q)
      else do { (r, q1) \<leftarrow> indexed_queue_push q key data; Some (Returns r q1) })"

text \<open>The data of an entry and of its node are replaced.\<close>

definition iq_set_data :: "'a indexed_queue \<Rightarrow> nat \<Rightarrow> 'a iq_entry \<Rightarrow> 'a \<Rightarrow> 'a indexed_queue option" where
  "iq_set_data q e en data =
     (let lq = iq_queue q in do {
        n \<leftarrow> lq_heap lq (entry_node en);
        Some (q\<lparr>iq_entries := (iq_entries q)(e \<mapsto> en\<lparr>entry_data := data\<rparr>),
          iq_queue := lq\<lparr>lq_heap := (lq_heap lq)(entry_node en \<mapsto> n\<lparr>node_data := Some data\<rparr>)\<rparr>\<rparr>)
      })"

text \<open>The value returned, the data disposed of and the state.\<close>

definition indexed_queue_upsert :: "'a indexed_queue \<Rightarrow> cstring \<Rightarrow> 'a \<Rightarrow> (int \<times> 'a list \<times> 'a indexed_queue) option" where
  "indexed_queue_upsert q key data =
     do {
       found \<leftarrow> iq_lookup q key;
       (case found of
          Some (e, en) \<Rightarrow> do {
            q1 \<leftarrow> iq_set_data q e en data;
            Some (0, disposal (iq_dispose q) (Some (entry_data en)), q1)
          }
        | None \<Rightarrow> do { (r, q1) \<leftarrow> indexed_queue_push q key data; Some (r, [], q1) })
     }"

text \<open>What the locked variant does once there is room, after a wait or at once.\<close>

definition upsert_insert :: "'a indexed_queue \<Rightarrow> cstring \<Rightarrow> 'a \<Rightarrow> (int \<times> 'a list, 'a indexed_queue) outcome option" where
  "upsert_insert q key data =
     (if indexed_queue_full q then Some (Waits q)
      else do { (r, q1) \<leftarrow> indexed_queue_push q key data; Some (Returns (r, []) q1) })"

definition indexed_queue_upsert_ex :: "'a indexed_queue \<Rightarrow> cstring \<Rightarrow> 'a \<Rightarrow> (int \<times> 'a list, 'a indexed_queue) outcome option" where
  "indexed_queue_upsert_ex q key data =
     do {
       found \<leftarrow> iq_lookup q key;
       (case found of
          Some (e, en) \<Rightarrow> do {
            q1 \<leftarrow> iq_set_data q e en data;
            Some (Returns (1, disposal (iq_dispose q) (Some (entry_data en))) q1)
          }
        | None \<Rightarrow> upsert_insert q key data)
     }"

definition indexed_queue_get :: "'a indexed_queue \<Rightarrow> cstring \<Rightarrow> 'a option option" where
  "indexed_queue_get q key = do { found \<leftarrow> iq_lookup q key; Some (map_option (\<lambda>(e, en). entry_data en) found) }"

definition indexed_queue_peek :: "'a indexed_queue \<Rightarrow> 'a option option" where
  "indexed_queue_peek q =
     (if indexed_queue_empty q then Some None
      else (case lq_first (iq_queue q) of
          Some a \<Rightarrow> do { n \<leftarrow> lq_heap (iq_queue q) a; Some (node_data n) }
        | None \<Rightarrow> Some None))"

text \<open>A key goes from the index, and its entry with it.\<close>

definition iq_forget :: "'a indexed_queue \<Rightarrow> cstring \<Rightarrow> 'a indexed_queue option" where
  "iq_forget q key =
     do {
       (_, es, index) \<leftarrow> rbtree_delete (iq_index q) key;
       Some (fold indexed_queue_entry_free es (q\<lparr>iq_index := index\<rparr>))
     }"

text \<open>The search for the key when there is no function to give it.\<close>

fun iq_search :: "'a indexed_queue \<Rightarrow> 'a \<Rightarrow> cstring list \<Rightarrow> 'a indexed_queue option" where
  "iq_search q data [] = Some q"
| "iq_search q data (k # ks) =
     do {
       found \<leftarrow> iq_lookup q k;
       (case found of
          Some (e, en) \<Rightarrow> if entry_data en = data then iq_forget q k else iq_search q data ks
        | None \<Rightarrow> iq_search q data ks)
     }"

definition indexed_queue_pop :: "'a indexed_queue \<Rightarrow> ('a option \<times> 'a indexed_queue) option" where
  "indexed_queue_pop q =
     (if indexed_queue_empty q then Some (None, q)
      else do {
        (d, lq) \<leftarrow> linked_queue_pop (iq_queue q);
        let q1 = q\<lparr>iq_queue := lq\<rparr>;
        (case d of
           None \<Rightarrow> Some (None, q1)
         | Some data \<Rightarrow> do {
             q2 \<leftarrow> (case iq_get_key q1 of
                 Some get_key \<Rightarrow> (case get_key data of Some key \<Rightarrow> iq_forget q1 key | None \<Rightarrow> Some q1)
               | None \<Rightarrow> do { keys \<leftarrow> rbtree_keys (iq_index q1); iq_search q1 data keys });
             Some (Some data, q2\<lparr>current_size := current_size q2 - 1\<rparr>)
           })
      })"

definition indexed_queue_pop_ex :: "'a indexed_queue \<Rightarrow> ('a option, 'a indexed_queue) outcome option" where
  "indexed_queue_pop_ex q =
     (if indexed_queue_empty q then Some (Waits q) else do { (d, q1) \<leftarrow> indexed_queue_pop q; Some (Returns d q1) })"

text \<open>\<open>timeout\<close>: whether the wait on an empty queue ends before an element arrives.\<close>

definition indexed_queue_pop_ex_timedwait :: "bool \<Rightarrow> 'a indexed_queue \<Rightarrow> ('a option, 'a indexed_queue) outcome option" where
  "indexed_queue_pop_ex_timedwait timeout q =
     (if indexed_queue_empty q then Some (if timeout then Returns None q else Waits q)
      else do { (d, q1) \<leftarrow> indexed_queue_pop q; Some (Returns d q1) })"

text \<open>A node is taken out of the linked queue and freed.\<close>

definition iq_unlink :: "'a linked_queue \<Rightarrow> nat \<Rightarrow> 'a linked_queue option" where
  "iq_unlink lq a =
     do {
       n \<leftarrow> lq_heap lq a;
       lq1 \<leftarrow> (case node_prev n of
           Some p \<Rightarrow> set_next (node_next n) p lq
         | None \<Rightarrow> Some (lq\<lparr>lq_first := node_next n\<rparr>));
       lq2 \<leftarrow> (case node_next n of
           Some x \<Rightarrow> set_prev (node_prev n) x lq1
         | None \<Rightarrow> Some (lq1\<lparr>lq_last := node_prev n\<rparr>));
       Some (lq2\<lparr>lq_elements := lq_elements lq2 - 1, lq_heap := (lq_heap lq2)(a := None)\<rparr>)
     }"

definition indexed_queue_delete :: "'a indexed_queue \<Rightarrow> cstring \<Rightarrow> (bool \<times> 'a list \<times> 'a indexed_queue) option" where
  "indexed_queue_delete q key =
     do {
       found \<leftarrow> iq_lookup q key;
       (case found of
          None \<Rightarrow> Some (False, [], q)
        | Some (e, en) \<Rightarrow> do {
            lq \<leftarrow> iq_unlink (iq_queue q) (entry_node en);
            q1 \<leftarrow> iq_forget (q\<lparr>iq_queue := lq\<rparr>) key;
            Some (True, disposal (iq_dispose q) (Some (entry_data en)), q1\<lparr>current_size := current_size q1 - 1\<rparr>)
          })
     }"

definition indexed_queue_update :: "'a indexed_queue \<Rightarrow> cstring \<Rightarrow> 'a \<Rightarrow> ('a option \<times> 'a indexed_queue) option" where
  "indexed_queue_update q key data =
     do {
       found \<leftarrow> iq_lookup q key;
       (case found of
          None \<Rightarrow> Some (None, q)
        | Some (e, en) \<Rightarrow> do { q1 \<leftarrow> iq_set_data q e en data; Some (Some (entry_data en), q1) })
     }"

text \<open>Destruction: what is left in the queue is disposed of, the index is destroyed with its entries.\<close>

partial_function (option) iq_drain :: "'a linked_queue \<Rightarrow> ('a list \<times> 'a linked_queue) option" where
  "iq_drain lq =
     do {
       (d, lq1) \<leftarrow> linked_queue_pop lq;
       (case d of None \<Rightarrow> Some ([], lq1) | Some x \<Rightarrow> do { (xs, lq2) \<leftarrow> iq_drain lq1; Some (x # xs, lq2) })
     }"

definition indexed_queue_free :: "'a indexed_queue \<Rightarrow> ('a list \<times> 'a indexed_queue) option" where
  "indexed_queue_free q =
     do {
       (xs, lq) \<leftarrow> iq_drain (iq_queue q);
       (es, index) \<leftarrow> rbtree_destroy (iq_index q);
       Some (if iq_dispose q then xs else [], fold indexed_queue_entry_free es (q\<lparr>iq_queue := lq, iq_index := index\<rparr>))
     }"

declare iq_drain.simps [code]

subsection \<open>The linked queue\<close>

lemma lq_set_data_rep:
  assumes "lq_rep lq (ys @ (a, d0) # zs)"
  shows "\<exists>n. lq_heap lq a = Some n \<and> lq_rep (lq\<lparr>lq_heap := (lq_heap lq)(a \<mapsto> n\<lparr>node_data := d\<rparr>)\<rparr>) (ys @ (a, d) # zs)"
  using assms by (auto simp: lq_rep_def lq_seg_append)

lemma iq_unlink_rep:
  assumes rep: "lq_rep lq (ys @ (a, d) # zs)"
  shows "\<exists>lq'. iq_unlink lq a = Some lq' \<and> lq_rep lq' (ys @ zs) \<and> lq_brk lq' = lq_brk lq"
proof -
  have dist: "distinct (map fst (ys @ (a, d) # zs))" using rep by (simp add: lq_rep_def)
  show ?thesis
  proof (cases ys rule: rev_cases)
    case Nil
    show ?thesis
    proof (cases zs)
      case zs: Nil
      then show ?thesis using rep Nil by (auto simp: iq_unlink_def lq_rep_def)
    next
      case (Cons z zs1)
      obtain x dx where "z = (x, dx)" by (cases z)
      then show ?thesis using rep Nil Cons by (auto simp: iq_unlink_def lq_rep_def set_prev_def)
    qed
  next
    case (snoc ys1 y)
    obtain p dp where y: "y = (p, dp)" by (cases y)
    show ?thesis
    proof (cases zs)
      case Nil
      then show ?thesis using rep snoc y by (auto simp: iq_unlink_def lq_rep_def set_next_def lq_seg_append)
    next
      case (Cons z zs1)
      obtain x dx where z: "z = (x, dx)" by (cases z)
      have "p \<noteq> x" using dist snoc y Cons z by auto
      then show ?thesis
        using rep snoc y Cons z by (auto simp: iq_unlink_def lq_rep_def set_next_def set_prev_def lq_seg_append)
    qed
  qed
qed

lemma linked_queue_push_rep:
  assumes "lq_rep q xs"
  shows "\<exists>q'. linked_queue_push q d = Some (lq_brk q, q') \<and> lq_rep q' (xs @ [(lq_brk q, d)])"
  using lq_push_rep[OF assms, of d]
  by (auto simp: linked_queue_push_def linked_queue_push_ex_def bind_eq_Some_conv split: prod.splits)

subsection \<open>What the queue holds\<close>

record 'a iq_cell =
  c_node :: nat
  c_key :: cstring
  c_data :: 'a
  c_entry :: nat

abbreviation cell_entry :: "'a iq_cell \<Rightarrow> 'a iq_entry" where
  "cell_entry c \<equiv> \<lparr>entry_key = c_key c, entry_data = c_data c, entry_node = c_node c\<rparr>"

definition iq_rep :: "'a indexed_queue \<Rightarrow> 'a iq_cell list \<Rightarrow> bool" where
  "iq_rep q cells \<longleftrightarrow> lq_rep (iq_queue q) (map (\<lambda>c. (c_node c, Some (c_data c))) cells)
     \<and> rb_inv (iq_index q) \<and> tree_dispose (iq_index q)
     \<and> rb_contents (iq_index q) = map_of (map (\<lambda>c. (c_key c, Some (c_entry c))) cells)
     \<and> iq_entries q = map_of (map (\<lambda>c. (c_entry c, cell_entry c)) cells)
     \<and> distinct (map c_key cells) \<and> distinct (map c_entry cells) \<and> (\<forall>c \<in> set cells. c_entry c < iq_brk q)
     \<and> current_size q = length cells"

lemma iq_repD:
  assumes "iq_rep q cells"
  shows "lq_rep (iq_queue q) (map (\<lambda>c. (c_node c, Some (c_data c))) cells)" "rb_inv (iq_index q)" "tree_dispose (iq_index q)"
    "rb_contents (iq_index q) = map_of (map (\<lambda>c. (c_key c, Some (c_entry c))) cells)"
    "iq_entries q = map_of (map (\<lambda>c. (c_entry c, cell_entry c)) cells)"
    "distinct (map c_key cells)" "distinct (map c_entry cells)" "\<forall>c \<in> set cells. c_entry c < iq_brk q" "current_size q = length cells"
  using assms by (simp_all add: iq_rep_def)

lemma map_of_cells:
  "distinct (map f cells) \<Longrightarrow> c \<in> set cells \<Longrightarrow> map_of (map (\<lambda>c. (f c, g c)) cells) (f c) = Some (g c)"
  "k \<notin> f ` set cells \<Longrightarrow> map_of (map (\<lambda>c. (f c, g c)) cells) k = None"
proof -
  show "distinct (map f cells) \<Longrightarrow> c \<in> set cells \<Longrightarrow> map_of (map (\<lambda>c. (f c, g c)) cells) (f c) = Some (g c)"
    by (rule map_of_is_SomeI) (auto simp: comp_def)
  show "k \<notin> f ` set cells \<Longrightarrow> map_of (map (\<lambda>c. (f c, g c)) cells) k = None"
    by (induction cells) auto
qed

lemma map_of_cells_split:
  "distinct (map f (ys @ c # zs)) \<Longrightarrow>
    map_of (map (\<lambda>c. (f c, g c)) (ys @ zs)) = (map_of (map (\<lambda>c. (f c, g c)) (ys @ c # zs)))(f c := None)"
  by (induction ys) (auto simp: fun_eq_iff map_of_cells(2))

lemma iq_lookup_rep:
  assumes "iq_rep q cells"
  shows "c \<in> set cells \<Longrightarrow> iq_lookup q (c_key c) = Some (Some (c_entry c, cell_entry c))"
    and "key \<notin> c_key ` set cells \<Longrightarrow> iq_lookup q key = Some None"
    and "rbtree_get (iq_index q) key = Some (map_option c_entry (find (\<lambda>c. c_key c = key) cells))"
proof -
  note R = iq_repD[OF assms]
  have get: "rbtree_get (iq_index q) k = Some (Option.bind (rb_contents (iq_index q) k) id)" for k
    using rb.get_abs[OF R(2), of k] by (simp add: rb_impl_def)
  show "c \<in> set cells \<Longrightarrow> iq_lookup q (c_key c) = Some (Some (c_entry c, cell_entry c))"
    using get R(4,5) map_of_cells(1)[OF R(6), of c "\<lambda>c. Some (c_entry c)"] map_of_cells(1)[OF R(7), of c cell_entry]
    by (simp add: iq_lookup_def)
  show "key \<notin> c_key ` set cells \<Longrightarrow> iq_lookup q key = Some None"
    using get R(4) map_of_cells(2)[of key c_key cells "\<lambda>c. Some (c_entry c)"] by (simp add: iq_lookup_def)
  have "map_of (map (\<lambda>c. (c_key c, Some (c_entry c))) cells) key = map_option (Some \<circ> c_entry) (find (\<lambda>c. c_key c = key) cells)"
    by (induction cells) auto
  then show "rbtree_get (iq_index q) key = Some (map_option c_entry (find (\<lambda>c. c_key c = key) cells))"
    using get R(4) by (cases "find (\<lambda>c. c_key c = key) cells") auto
qed

subsection \<open>Operations\<close>

lemma iq_full_iff: "iq_rep q cells \<Longrightarrow> indexed_queue_full q \<longleftrightarrow> max_size q \<noteq> 0 \<and> length cells \<ge> max_size q"
  "iq_rep q cells \<Longrightarrow> indexed_queue_empty q \<longleftrightarrow> cells = []"
  by (simp_all add: indexed_queue_full_def indexed_queue_empty_def iq_repD(9))

text \<open>The settings stay.\<close>

definition iq_same :: "'a indexed_queue \<Rightarrow> 'a indexed_queue \<Rightarrow> bool" where
  "iq_same q q' \<longleftrightarrow> max_size q' = max_size q \<and> iq_dispose q' = iq_dispose q \<and> iq_get_key q' = iq_get_key q"

lemma iq_same_refl [simp]: "iq_same q q"
  by (simp add: iq_same_def)

lemma iq_push_rep:
  assumes rep: "iq_rep q cells"
  shows "\<exists>q' cells'. indexed_queue_push q key data
      = Some (if indexed_queue_full q \<or> key \<in> c_key ` set cells then - 1 else 0, q') \<and> iq_rep q' cells' \<and> iq_same q q'
    \<and> map (\<lambda>c. (c_key c, c_data c)) cells' = (if indexed_queue_full q \<or> key \<in> c_key ` set cells
        then map (\<lambda>c. (c_key c, c_data c)) cells else map (\<lambda>c. (c_key c, c_data c)) cells @ [(key, data)])"
proof (cases "indexed_queue_full q \<or> key \<in> c_key ` set cells")
  case True
  have "find (\<lambda>c. c_key c = key) cells \<noteq> None" if "key \<in> c_key ` set cells" using that by (auto simp: find_None_iff)
  then have "indexed_queue_push q key data = Some (- 1, q)"
    using True iq_lookup_rep(3)[OF rep, of key] by (auto simp: indexed_queue_push_def)
  then show ?thesis using True rep iq_same_refl[of q] by auto
next
  case False
  note R = iq_repD[OF rep]
  let ?c = "\<lparr>c_node = lq_brk (iq_queue q), c_key = key, c_data = data, c_entry = iq_brk q\<rparr>"
  obtain lq where lq: "linked_queue_push (iq_queue q) (Some data) = Some (lq_brk (iq_queue q), lq)"
      "lq_rep lq (map (\<lambda>c. (c_node c, Some (c_data c))) (cells @ [?c]))"
    using linked_queue_push_rep[OF R(1), of "Some data"] by auto
  have none: "rb_contents (iq_index q) key = None"
    using False R(4) map_of_cells(2)[of key c_key cells "\<lambda>c. Some (c_entry c)"] by simp
  obtain a index where i: "rbtree_insert (iq_index q) key (Some (iq_brk q)) = Some (Some a, index)" "rb_inv index"
      "rb_contents index = (rb_contents (iq_index q))(key \<mapsto> Some (iq_brk q))" "tree_dispose index = tree_dispose (iq_index q)"
    using rb.insert_abs[OF R(2), of key "Some (iq_brk q)"] none by (auto simp: rb_impl_def)
  have get: "rbtree_get (iq_index q) key = Some None"
    using iq_lookup_rep(3)[OF rep, of key] False by (auto simp: find_None_iff)
  have new: "iq_brk q \<notin> c_entry ` set cells" using R(8) by auto
  have fresh: "map_of (map (\<lambda>c. (c_key c, Some (c_entry c))) (cells @ [?c])) = (rb_contents (iq_index q))(key \<mapsto> Some (iq_brk q))"
    "map_of (map (\<lambda>c. (c_entry c, cell_entry c)) (cells @ [?c])) = (iq_entries q)(iq_brk q \<mapsto> cell_entry ?c)"
    using False none R(4,5) map_of_cells(2)[OF new, of cell_entry]
    by (auto simp: fun_eq_iff map_add_def split: option.splits)
  let ?q = "q\<lparr>iq_queue := lq, iq_brk := iq_brk q + 1, iq_entries := (iq_entries q)(iq_brk q \<mapsto> cell_entry ?c),
    iq_index := index, current_size := current_size q + 1\<rparr>"
  have push: "indexed_queue_push q key data = Some (0, ?q)"
    using False get lq(1) i(1) by (simp add: indexed_queue_push_def Let_def)
  have "distinct (map c_key (cells @ [?c]))" "distinct (map c_entry (cells @ [?c]))" using R(6,7) False new by auto
  then have "iq_rep ?q (cells @ [?c])"
    using R(3,8,9) lq(2) i(2-4) fresh False by (auto simp: iq_rep_def less_Suc_eq simp del: map_append)
  then show ?thesis
    using push False by (intro exI[of _ ?q] exI[of _ "cells @ [?c]"]) (simp add: iq_same_def)
qed

lemma iq_set_data_rep:
  assumes rep: "iq_rep q (ys @ c # zs)"
  shows "\<exists>q'. iq_set_data q (c_entry c) (cell_entry c) data = Some q' \<and> iq_rep q' (ys @ c\<lparr>c_data := data\<rparr> # zs) \<and> iq_same q q'"
proof -
  note R = iq_repD[OF rep]
  obtain n where n: "lq_heap (iq_queue q) (c_node c) = Some n"
      "lq_rep ((iq_queue q)\<lparr>lq_heap := (lq_heap (iq_queue q))(c_node c \<mapsto> n\<lparr>node_data := Some data\<rparr>)\<rparr>)
        (map (\<lambda>c. (c_node c, Some (c_data c))) (ys @ c\<lparr>c_data := data\<rparr> # zs))"
    using lq_set_data_rep[of "iq_queue q" "map (\<lambda>c. (c_node c, Some (c_data c))) ys" "c_node c" "Some (c_data c)"
        "map (\<lambda>c. (c_node c, Some (c_data c))) zs" "Some data"] R(1) by auto
  have e: "(iq_entries q)(c_entry c \<mapsto> (cell_entry c)\<lparr>entry_data := data\<rparr>)
      = map_of (map (\<lambda>c. (c_entry c, cell_entry c)) (ys @ c\<lparr>c_data := data\<rparr> # zs))"
    using R(7) unfolding R(5) by (auto simp: fun_eq_iff map_add_def map_of_cells(2) split: option.splits)
  have "iq_rep (q\<lparr>iq_entries := (iq_entries q)(c_entry c \<mapsto> (cell_entry c)\<lparr>entry_data := data\<rparr>),
      iq_queue := (iq_queue q)\<lparr>lq_heap := (lq_heap (iq_queue q))(c_node c \<mapsto> n\<lparr>node_data := Some data\<rparr>)\<rparr>\<rparr>) (ys @ c\<lparr>c_data := data\<rparr> # zs)"
    using R n(2) unfolding e by (simp add: iq_rep_def)
  then show ?thesis using n(1) by (simp add: iq_set_data_def iq_same_def Let_def)
qed

lemma iq_forget_rep:
  assumes inv: "rb_inv (iq_index q)" "tree_dispose (iq_index q)"
    and idx: "rb_contents (iq_index q) = map_of (map (\<lambda>c. (c_key c, Some (c_entry c))) (ys @ c # zs))"
    and ent: "iq_entries q = map_of (map (\<lambda>c. (c_entry c, cell_entry c)) (ys @ c # zs))"
    and dist: "distinct (map c_key (ys @ c # zs))" "distinct (map c_entry (ys @ c # zs))"
  shows "\<exists>index. iq_forget q (c_key c) = Some (q\<lparr>iq_index := index,
      iq_entries := map_of (map (\<lambda>c. (c_entry c, cell_entry c)) (ys @ zs))\<rparr>)
    \<and> rb_inv index \<and> tree_dispose index \<and> rb_contents index = map_of (map (\<lambda>c. (c_key c, Some (c_entry c))) (ys @ zs))"
proof -
  have "rb_contents (iq_index q) (c_key c) = Some (Some (c_entry c))"
    unfolding idx using map_of_cells(1)[OF dist(1), of c "\<lambda>c. Some (c_entry c)"] by simp
  from rb.delete_abs[OF inv(1) this] inv(2) obtain index where
    d: "rbtree_delete (iq_index q) (c_key c) = Some (True, [c_entry c], index)" "rb_inv index"
      "rb_contents index = (rb_contents (iq_index q))(c_key c := None)" "tree_dispose index"
    by (auto simp: rb_impl_def disposal_def)
  have e: "(iq_entries q)(c_entry c := None) = map_of (map (\<lambda>c. (c_entry c, cell_entry c)) (ys @ zs))"
    unfolding ent by (rule map_of_cells_split[OF dist(2), symmetric])
  have "rb_contents index = map_of (map (\<lambda>c. (c_key c, Some (c_entry c))) (ys @ zs))"
    unfolding d(3) idx by (rule map_of_cells_split[OF dist(1), symmetric])
  moreover have "iq_forget q (c_key c) = Some (q\<lparr>iq_index := index, iq_entries := (iq_entries q)(c_entry c := None)\<rparr>)"
    using d(1) by (simp add: iq_forget_def indexed_queue_entry_free_def)
  ultimately show ?thesis using d(2,4) unfolding e by blast
qed

lemma iq_delete_rep:
  assumes rep: "iq_rep q (ys @ c # zs)"
  shows "\<exists>q'. indexed_queue_delete q (c_key c) = Some (True, disposal (iq_dispose q) (Some (c_data c)), q')
    \<and> iq_rep q' (ys @ zs) \<and> iq_same q q'"
proof -
  note R = iq_repD[OF rep]
  obtain lq where lq: "iq_unlink (iq_queue q) (c_node c) = Some lq" "lq_rep lq (map (\<lambda>c. (c_node c, Some (c_data c))) (ys @ zs))"
    using iq_unlink_rep[of "iq_queue q" "map (\<lambda>c. (c_node c, Some (c_data c))) ys" "c_node c" "Some (c_data c)"
        "map (\<lambda>c. (c_node c, Some (c_data c))) zs"] R(1) by auto
  obtain index where f: "iq_forget (q\<lparr>iq_queue := lq\<rparr>) (c_key c) = Some (q\<lparr>iq_queue := lq, iq_index := index,
      iq_entries := map_of (map (\<lambda>c. (c_entry c, cell_entry c)) (ys @ zs))\<rparr>)"
    "rb_inv index" "tree_dispose index" "rb_contents index = map_of (map (\<lambda>c. (c_key c, Some (c_entry c))) (ys @ zs))"
    using iq_forget_rep[of "q\<lparr>iq_queue := lq\<rparr>" ys c zs] R(2-7) by auto
  have look: "iq_lookup q (c_key c) = Some (Some (c_entry c, cell_entry c))" using iq_lookup_rep(1)[OF rep, of c] by simp
  let ?q = "q\<lparr>iq_queue := lq, iq_index := index, iq_entries := map_of (map (\<lambda>c. (c_entry c, cell_entry c)) (ys @ zs)),
    current_size := current_size q - 1\<rparr>"
  have "iq_rep ?q (ys @ zs)" using R(6-9) lq(2) f(2-4) by (auto simp: iq_rep_def)
  moreover have "indexed_queue_delete q (c_key c) = Some (True, disposal (iq_dispose q) (Some (c_data c)), ?q)"
    using look lq(1) f(1) by (simp add: indexed_queue_delete_def)
  ultimately show ?thesis by (auto simp: iq_same_def)
qed

text \<open>The name of the data: what the callback gives, or the data itself if it is different from all other.\<close>

definition named :: "('a \<Rightarrow> cstring option) option \<Rightarrow> (cstring \<times> 'a) list \<Rightarrow> bool" where
  "named g xs \<longleftrightarrow> (case g of Some h \<Rightarrow> \<forall>(k, d) \<in> set xs. h d = Some k | None \<Rightarrow> distinct (map snd xs))"

lemma iq_search_rep:
  assumes "set ks \<subseteq> c_key ` set cells" "c \<in> set cells" "c_key c \<in> set ks" "distinct (map c_data cells)" "distinct (map c_key cells)"
    and look: "\<And>x. x \<in> set cells \<Longrightarrow> iq_lookup q (c_key x) = Some (Some (c_entry x, cell_entry x))"
  shows "iq_search q (c_data c) ks = iq_forget q (c_key c)"
  using assms(1,3)
proof (induction ks)
  case (Cons k ks)
  then obtain x where x: "x \<in> set cells" "c_key x = k" by auto
  have "c_data x = c_data c \<longleftrightarrow> x = c" "c_key x = c_key c \<longleftrightarrow> x = c"
    using assms(2,4,5) x(1) by (auto simp: distinct_map dest: inj_onD)
  with Cons look[OF x(1)] x(2) show ?case by auto
qed simp

lemma iq_lookup_queue: "iq_lookup (q\<lparr>iq_queue := lq\<rparr>) k = iq_lookup q k"
  by (simp add: iq_lookup_def cong: option.case_cong)

lemma iq_pop_rep:
  assumes rep: "iq_rep q (c # cells)" and name: "named (iq_get_key q) (map (\<lambda>c. (c_key c, c_data c)) (c # cells))"
  shows "\<exists>q'. indexed_queue_pop q = Some (Some (c_data c), q') \<and> iq_rep q' cells \<and> iq_same q q'"
proof -
  note R = iq_repD[OF rep]
  obtain lq where lq: "linked_queue_pop (iq_queue q) = Some (Some (c_data c), lq)" "lq_rep lq (map (\<lambda>c. (c_node c, Some (c_data c))) cells)"
    using lq_pop_rep[of "iq_queue q" "c_node c" "Some (c_data c)"] R(1) by auto
  let ?q1 = "q\<lparr>iq_queue := lq\<rparr>"
  obtain index where f: "iq_forget ?q1 (c_key c) = Some (?q1\<lparr>iq_index := index,
      iq_entries := map_of (map (\<lambda>c. (c_entry c, cell_entry c)) cells)\<rparr>)"
    "rb_inv index" "tree_dispose index" "rb_contents index = map_of (map (\<lambda>c. (c_key c, Some (c_entry c))) cells)"
    using iq_forget_rep[of ?q1 "[]" c cells] R(2-7) by auto
  have "(case iq_get_key ?q1 of
          Some get_key \<Rightarrow> (case get_key (c_data c) of Some key \<Rightarrow> iq_forget ?q1 key | None \<Rightarrow> Some ?q1)
        | None \<Rightarrow> do { keys \<leftarrow> rbtree_keys (iq_index ?q1); iq_search ?q1 (c_data c) keys }) = iq_forget ?q1 (c_key c)"
  proof (cases "iq_get_key q")
    case None
    have fin: "finite (dom (rb_contents (iq_index q)))" unfolding R(4) by (rule finite_dom_map_of)
    have ks: "rbtree_keys (iq_index q) = Some (om_keys (rb_contents (iq_index q)))"
      using rb.list_abs[OF R(2)] by (simp add: rb_impl_def)
    have dom: "set (om_keys (rb_contents (iq_index q))) = c_key ` set (c # cells)"
      unfolding om_keys_def set_sorted_list_of_set[OF fin] unfolding R(4) dom_map_of_conv_image_fst by force
    have look: "iq_lookup ?q1 (c_key x) = Some (Some (c_entry x, cell_entry x))" if "x \<in> set (c # cells)" for x
      using iq_lookup_rep(1)[OF rep that] by (simp add: iq_lookup_queue)
    have "distinct (map c_data (c # cells))" using name None by (simp add: named_def comp_def)
    then have "iq_search ?q1 (c_data c) (om_keys (rb_contents (iq_index q))) = iq_forget ?q1 (c_key c)"
      using dom R(6) by (intro iq_search_rep[of _ "c # cells" c, OF _ _ _ _ _ look]) auto
    then show ?thesis using None ks by simp
  next
    case (Some h)
    then show ?thesis using name by (simp add: named_def)
  qed
  moreover have "iq_rep (?q1\<lparr>iq_index := index, iq_entries := map_of (map (\<lambda>c. (c_entry c, cell_entry c)) cells),
      current_size := current_size q - 1\<rparr>) cells"
    using R(6-9) lq(2) f(2-4) by (auto simp: iq_rep_def)
  moreover have "\<not> indexed_queue_empty q" using iq_full_iff(2)[OF rep] by simp
  ultimately show ?thesis using lq(1) f(1) by (simp add: indexed_queue_pop_def Let_def iq_same_def)
qed

lemma iq_peek_rep:
  assumes rep: "iq_rep q cells"
  shows "indexed_queue_peek q = Some (case cells of [] \<Rightarrow> None | c # _ \<Rightarrow> Some (c_data c))"
  using iq_repD(1)[OF rep] iq_full_iff(2)[OF rep] by (cases cells) (auto simp: indexed_queue_peek_def lq_rep_def)

subsection \<open>Runs\<close>

datatype 'a iq_op = Iq_push cstring 'a | Iq_push_ex cstring 'a | Iq_upsert cstring 'a | Iq_upsert_ex cstring 'a
  | Iq_get cstring | Iq_peek | Iq_pop | Iq_pop_ex | Iq_delete cstring | Iq_update cstring 'a

datatype 'a iq_result = Code int "'a list" | Data "'a option" | Blocked

fun iq_step :: "'a iq_op \<Rightarrow> 'a indexed_queue \<Rightarrow> ('a iq_result list \<times> 'a indexed_queue) option" where
  "iq_step (Iq_push k d) q = do { (r, q1) \<leftarrow> indexed_queue_push q k d; Some ([Code r []], q1) }"
| "iq_step (Iq_push_ex k d) q =
     do { w \<leftarrow> indexed_queue_push_ex q k d; Some (case w of Returns r q1 \<Rightarrow> ([Code r []], q1) | Waits q1 \<Rightarrow> ([Blocked], q1)) }"
| "iq_step (Iq_upsert k d) q = do { (r, ds, q1) \<leftarrow> indexed_queue_upsert q k d; Some ([Code r ds], q1) }"
| "iq_step (Iq_upsert_ex k d) q =
     do { w \<leftarrow> indexed_queue_upsert_ex q k d;
          Some (case w of Returns (r, ds) q1 \<Rightarrow> ([Code r ds], q1) | Waits q1 \<Rightarrow> ([Blocked], q1)) }"
| "iq_step (Iq_get k) q = do { d \<leftarrow> indexed_queue_get q k; Some ([Data d], q) }"
| "iq_step Iq_peek q = do { d \<leftarrow> indexed_queue_peek q; Some ([Data d], q) }"
| "iq_step Iq_pop q = do { (d, q1) \<leftarrow> indexed_queue_pop q; Some ([Data d], q1) }"
| "iq_step Iq_pop_ex q =
     do { w \<leftarrow> indexed_queue_pop_ex q; Some (case w of Returns d q1 \<Rightarrow> ([Data d], q1) | Waits q1 \<Rightarrow> ([Blocked], q1)) }"
| "iq_step (Iq_delete k) q = do { (b, ds, q1) \<leftarrow> indexed_queue_delete q k; Some ([Code (if b then 1 else 0) ds], q1) }"
| "iq_step (Iq_update k d) q = do { (old, q1) \<leftarrow> indexed_queue_update q k d; Some ([Data old], q1) }"

text \<open>
  The same on a list of keys with their data, in the order of arrival. Data stored under a key has to be
  named: the callback gives the key for it, or, without a callback, no other element is the same.
\<close>

definition replace_data :: "cstring \<Rightarrow> 'a \<Rightarrow> (cstring \<times> 'a) list \<Rightarrow> (cstring \<times> 'a) list" where
  "replace_data k d xs = map (\<lambda>p. if fst p = k then (k, d) else p) xs"

definition may_store :: "('a \<Rightarrow> cstring option) option \<Rightarrow> cstring \<Rightarrow> 'a \<Rightarrow> (cstring \<times> 'a) list \<Rightarrow> bool" where
  "may_store g k d xs \<longleftrightarrow> (case g of Some h \<Rightarrow> h d = Some k | None \<Rightarrow> d \<notin> snd ` set xs)"

definition spec_push :: "nat \<Rightarrow> cstring \<Rightarrow> 'a \<Rightarrow> (cstring \<times> 'a) list \<Rightarrow> 'a iq_result list \<times> (cstring \<times> 'a) list" where
  "spec_push m k d xs =
     (if m \<noteq> 0 \<and> length xs \<ge> m \<or> k \<in> fst ` set xs then ([Code (- 1) []], xs) else ([Code 0 []], xs @ [(k, d)]))"

fun iq_spec :: "nat \<Rightarrow> bool \<Rightarrow> ('a \<Rightarrow> cstring option) option \<Rightarrow> 'a iq_op \<Rightarrow> (cstring \<times> 'a) list \<Rightarrow>
    ('a iq_result list \<times> (cstring \<times> 'a) list) option" where
  "iq_spec m f g (Iq_push k d) xs = (if may_store g k d xs then Some (spec_push m k d xs) else None)"
| "iq_spec m f g (Iq_push_ex k d) xs =
     (if \<not> may_store g k d xs then None
      else Some (if m \<noteq> 0 \<and> length xs \<ge> m then ([Blocked], xs) else spec_push m k d xs))"
| "iq_spec m f g (Iq_upsert k d) xs =
     (if \<not> may_store g k d xs then None
      else Some (case map_of xs k of
        Some old \<Rightarrow> ([Code 0 (disposal f (Some old))], replace_data k d xs)
      | None \<Rightarrow> spec_push m k d xs))"
| "iq_spec m f g (Iq_upsert_ex k d) xs =
     (if \<not> may_store g k d xs then None
      else Some (case map_of xs k of
        Some old \<Rightarrow> ([Code 1 (disposal f (Some old))], replace_data k d xs)
      | None \<Rightarrow> if m \<noteq> 0 \<and> length xs \<ge> m then ([Blocked], xs) else spec_push m k d xs))"
| "iq_spec m f g (Iq_get k) xs = Some ([Data (map_of xs k)], xs)"
| "iq_spec m f g Iq_peek xs = Some ([Data (map_option snd (find (\<lambda>_. True) xs))], xs)"
| "iq_spec m f g Iq_pop xs = Some (case xs of [] \<Rightarrow> ([Data None], []) | (k, d) # ys \<Rightarrow> ([Data (Some d)], ys))"
| "iq_spec m f g Iq_pop_ex xs = Some (case xs of [] \<Rightarrow> ([Blocked], []) | (k, d) # ys \<Rightarrow> ([Data (Some d)], ys))"
| "iq_spec m f g (Iq_delete k) xs =
     Some (case map_of xs k of
       Some old \<Rightarrow> ([Code 1 (disposal f (Some old))], filter (\<lambda>p. fst p \<noteq> k) xs)
     | None \<Rightarrow> ([Code 0 []], xs))"
| "iq_spec m f g (Iq_update k d) xs =
     (if \<not> may_store g k d xs then None
      else Some (case map_of xs k of Some old \<Rightarrow> ([Data (Some old)], replace_data k d xs) | None \<Rightarrow> ([Data None], xs)))"

abbreviation pairs :: "'a iq_cell list \<Rightarrow> (cstring \<times> 'a) list" where
  "pairs cells \<equiv> map (\<lambda>c. (c_key c, c_data c)) cells"

text \<open>The cell of a key that is there.\<close>

lemma iq_key_cases [consumes 1]:
  assumes "iq_rep q cells"
  obtains (absent) "k \<notin> c_key ` set cells" "iq_lookup q k = Some None" "map_of (pairs cells) k = None"
  | (present) ys c zs where "cells = ys @ c # zs" "c_key c = k" "iq_lookup q k = Some (Some (c_entry c, cell_entry c))"
      "map_of (pairs cells) k = Some (c_data c)" "\<And>d. pairs (ys @ c\<lparr>c_data := d\<rparr> # zs) = replace_data k d (pairs cells)"
      "pairs (ys @ zs) = filter (\<lambda>p. fst p \<noteq> k) (pairs cells)"
proof (cases "k \<in> c_key ` set cells")
  case True
  then obtain c ys zs where c: "cells = ys @ c # zs" "c_key c = k" by (metis imageE split_list)
  note dist = iq_repD(6)[OF assms]
  have "k \<notin> set (map c_key ys)" "k \<notin> set (map c_key zs)" using dist c by auto
  then have ne: "c_key x \<noteq> k" if "x \<in> set ys \<union> set zs" for x using that by auto
  have "iq_lookup q k = Some (Some (c_entry c, cell_entry c))" using iq_lookup_rep(1)[OF assms, of c] c by simp
  moreover have "map_of (pairs cells) k = Some (c_data c)" using map_of_cells(1)[OF dist, of c c_data] c by simp
  moreover have "pairs (ys @ c\<lparr>c_data := d\<rparr> # zs) = replace_data k d (pairs cells)" for d
    using ne c by (auto simp: replace_data_def)
  moreover have "filter (\<lambda>p. fst p \<noteq> k) (pairs ys) = pairs ys" "filter (\<lambda>p. fst p \<noteq> k) (pairs zs) = pairs zs"
    using ne by (auto simp: filter_id_conv)
  then have "pairs (ys @ zs) = filter (\<lambda>p. fst p \<noteq> k) (pairs cells)" using c by simp
  ultimately show thesis using c present by blast
next
  case False
  show thesis by (rule absent[OF False iq_lookup_rep(2)[OF assms False] map_of_cells(2)[OF False]])
qed

lemma iq_get_rep:
  assumes "iq_rep q cells"
  shows "indexed_queue_get q k = Some (map_of (pairs cells) k)"
  using assms
proof (cases rule: iq_key_cases[where k = k])
  case absent
  then show ?thesis by (simp add: indexed_queue_get_def)
next
  case (present ys c zs)
  show ?thesis using present(3,4) by (simp add: indexed_queue_get_def)
qed

lemma iq_push_spec:
  assumes "iq_rep q cells"
  shows "\<exists>r q' cells'. indexed_queue_push q k d = Some (r, q') \<and> spec_push (max_size q) k d (pairs cells) = ([Code r []], pairs cells')
    \<and> iq_rep q' cells' \<and> iq_same q q'"
proof -
  let ?no = "indexed_queue_full q \<or> k \<in> c_key ` set cells"
  have "k \<in> fst ` set (pairs cells) \<longleftrightarrow> k \<in> c_key ` set cells" by force
  then have spec: "spec_push (max_size q) k d (pairs cells)
      = (if ?no then ([Code (- 1) []], pairs cells) else ([Code 0 []], pairs cells @ [(k, d)]))"
    using iq_full_iff(1)[OF assms] by (simp add: spec_push_def)
  obtain q' cells' where "indexed_queue_push q k d = Some (if ?no then - 1 else 0, q')" "iq_rep q' cells'" "iq_same q q'"
      "pairs cells' = (if ?no then pairs cells else pairs cells @ [(k, d)])"
    using iq_push_rep[OF assms, of k d] by blast
  then show ?thesis unfolding spec
    by (intro exI[of _ "if ?no then - 1 else 0"] exI[of _ q'] exI[of _ cells']) (simp split: if_splits)
qed

lemma iq_step_rep:
  assumes rep: "iq_rep q cells" and name: "named (iq_get_key q) (pairs cells)"
    and st: "iq_spec (max_size q) (iq_dispose q) (iq_get_key q) op (pairs cells) = Some (outs, xs)"
  shows "\<exists>q' cells'. iq_step op q = Some (outs, q') \<and> iq_rep q' cells' \<and> pairs cells' = xs \<and> iq_same q q'"
proof (cases op)
  case (Iq_push k d)
  then show ?thesis using st iq_push_spec[OF rep, of k d] by (auto split: if_splits)
next
  case (Iq_push_ex k d)
  then show ?thesis
    using st iq_push_spec[OF rep, of k d] iq_full_iff(1)[OF rep] rep by (auto simp: indexed_queue_push_ex_def split: if_splits)
next
  case (Iq_upsert k d)
  from rep show ?thesis
  proof (cases rule: iq_key_cases[where k = k])
    case absent
    then show ?thesis using Iq_upsert st iq_push_spec[OF rep, of k d] by (auto simp: indexed_queue_upsert_def split: if_splits)
  next
    case (present ys c zs)
    obtain q' where q': "iq_set_data q (c_entry c) (cell_entry c) d = Some q'" "iq_rep q' (ys @ c\<lparr>c_data := d\<rparr> # zs)" "iq_same q q'"
      using iq_set_data_rep[OF rep[unfolded present(1)], of d] by blast
    have "iq_step op q = Some (outs, q')" "pairs (ys @ c\<lparr>c_data := d\<rparr> # zs) = xs"
      unfolding present(5) using Iq_upsert st present(3,4) q'(1) by (auto simp: indexed_queue_upsert_def split: if_splits)
    with q'(2,3) show ?thesis by blast
  qed
next
  case (Iq_upsert_ex k d)
  from rep show ?thesis
  proof (cases rule: iq_key_cases[where k = k])
    case absent
    then show ?thesis
      using Iq_upsert_ex st iq_push_spec[OF rep, of k d] iq_full_iff(1)[OF rep] rep
      by (auto simp: indexed_queue_upsert_ex_def upsert_insert_def split: if_splits)
  next
    case (present ys c zs)
    obtain q' where q': "iq_set_data q (c_entry c) (cell_entry c) d = Some q'" "iq_rep q' (ys @ c\<lparr>c_data := d\<rparr> # zs)" "iq_same q q'"
      using iq_set_data_rep[OF rep[unfolded present(1)], of d] by blast
    have "iq_step op q = Some (outs, q')" "pairs (ys @ c\<lparr>c_data := d\<rparr> # zs) = xs"
      unfolding present(5) using Iq_upsert_ex st present(3,4) q'(1) by (auto simp: indexed_queue_upsert_ex_def split: if_splits)
    with q'(2,3) show ?thesis by blast
  qed
next
  case (Iq_get k)
  then show ?thesis using st rep iq_get_rep[OF rep, of k] by auto
next
  case Iq_peek
  then show ?thesis using st iq_peek_rep[OF rep] rep by (cases cells) auto
next
  case Iq_pop
  show ?thesis
  proof (cases cells)
    case Nil
    then show ?thesis using Iq_pop st iq_full_iff(2)[OF rep] rep by (auto simp: indexed_queue_pop_def)
  next
    case (Cons c cs)
    then show ?thesis using Iq_pop st iq_pop_rep[OF rep[unfolded Cons]] name by auto
  qed
next
  case Iq_pop_ex
  show ?thesis
  proof (cases cells)
    case Nil
    then show ?thesis using Iq_pop_ex st iq_full_iff(2)[OF rep] rep by (auto simp: indexed_queue_pop_ex_def)
  next
    case (Cons c cs)
    then show ?thesis using Iq_pop_ex st iq_pop_rep[OF rep[unfolded Cons]] name iq_full_iff(2)[OF rep] by (auto simp: indexed_queue_pop_ex_def)
  qed
next
  case (Iq_delete k)
  from rep show ?thesis
  proof (cases rule: iq_key_cases[where k = k])
    case absent
    then show ?thesis using Iq_delete st rep by (auto simp: indexed_queue_delete_def)
  next
    case (present ys c zs)
    obtain q' where q': "indexed_queue_delete q k = Some (True, disposal (iq_dispose q) (Some (c_data c)), q')"
        "iq_rep q' (ys @ zs)" "iq_same q q'"
      using iq_delete_rep[OF rep[unfolded present(1)]] present(2) by auto
    have "iq_step op q = Some (outs, q')" "pairs (ys @ zs) = xs"
      unfolding present(6) using Iq_delete st present(4) q'(1) by auto
    with q'(2,3) show ?thesis by blast
  qed
next
  case (Iq_update k d)
  from rep show ?thesis
  proof (cases rule: iq_key_cases[where k = k])
    case absent
    then show ?thesis using Iq_update st rep by (auto simp: indexed_queue_update_def split: if_splits)
  next
    case (present ys c zs)
    obtain q' where q': "iq_set_data q (c_entry c) (cell_entry c) d = Some q'" "iq_rep q' (ys @ c\<lparr>c_data := d\<rparr> # zs)" "iq_same q q'"
      using iq_set_data_rep[OF rep[unfolded present(1)], of d] by blast
    have "iq_step op q = Some (outs, q')" "pairs (ys @ c\<lparr>c_data := d\<rparr> # zs) = xs"
      unfolding present(5) using Iq_update st present(3,4) q'(1) by (auto simp: indexed_queue_update_def split: if_splits)
    with q'(2,3) show ?thesis by blast
  qed
qed

lemma named_push: "named g xs \<Longrightarrow> may_store g k d xs \<Longrightarrow> spec_push m k d xs = (outs, ys) \<Longrightarrow> named g ys"
  by (auto simp: named_def may_store_def spec_push_def split: option.splits if_splits)

lemma replace_data_simps: "map fst (replace_data k d xs) = map fst xs" "k \<notin> fst ` set xs \<Longrightarrow> replace_data k d xs = xs"
  "set (replace_data k d xs) \<subseteq> insert (k, d) (set xs)"
  "replace_data k d (p # xs) = (if fst p = k then (k, d) else p) # replace_data k d xs"
  by (induction xs) (auto simp: replace_data_def)

lemma named_replace:
  assumes "named g xs" "may_store g k d xs" "distinct (map fst xs)"
  shows "named g (replace_data k d xs)"
proof (cases g)
  case (Some h)
  then show ?thesis using assms(1,2) replace_data_simps(3)[of k d xs] by (auto simp: named_def may_store_def)
next
  case None
  have "distinct (map snd (replace_data k d xs))"
    if "distinct (map snd xs)" "d \<notin> snd ` set xs" "distinct (map fst xs)" using that
  proof (induction xs)
    case (Cons p xs)
    have "snd ` set (replace_data k d xs) \<subseteq> insert d (snd ` set xs)" using replace_data_simps(3)[of k d xs] by auto
    then show ?case using Cons replace_data_simps(2)[of k xs d] by (cases "fst p = k") (auto simp: replace_data_simps(4))
  qed (simp add: replace_data_def)
  then show ?thesis using assms None by (auto simp: named_def may_store_def)
qed

lemma iq_spec_changes:
  assumes "iq_spec m f g op xs = Some (outs, ys)"
  shows "ys = xs \<or> ys = tl xs \<or> (\<exists>P. ys = filter P xs)
    \<or> (\<exists>k d. may_store g k d xs \<and> (spec_push m k d xs = (outs, ys) \<or> ys = replace_data k d xs))"
proof (cases op)
  case (Iq_delete k)
  then have "ys = xs \<or> ys = filter (\<lambda>p. fst p \<noteq> k) xs" using assms by (simp split: option.splits)
  then show ?thesis by blast
next
  case Iq_pop
  then have "ys = tl xs" using assms by (cases xs) auto
  then show ?thesis by blast
next
  case Iq_pop_ex
  then have "ys = tl xs" using assms by (cases xs) auto
  then show ?thesis by blast
qed (use assms in \<open>auto split: if_splits option.splits\<close>)

lemma named_step:
  assumes "named g xs" "iq_spec m f g op xs = Some (outs, ys)" "distinct (map fst xs)"
  shows "named g ys"
proof -
  have "named g (tl xs)" "\<And>P. named g (filter P xs)"
    using assms(1) by (cases xs; auto simp: named_def distinct_map_filter split: option.splits)+
  then show ?thesis
    using iq_spec_changes[OF assms(2)] named_push[OF assms(1)] named_replace[OF assms(1) _ assms(3)] assms(1) by blast
qed

subsection \<open>Any sequence of calls\<close>

lemma iq_init_rep: "iq_rep (indexed_queue_set_get_key (indexed_queue_set_dispose (indexed_queue_init m) f) g) []"
  using rb_init_inv[of True]
  by (simp add: iq_rep_def indexed_queue_set_get_key_def indexed_queue_set_dispose_def indexed_queue_init_def
      linked_queue_init_def lq_rep_def)

lemma iq_init_same:
  "max_size (indexed_queue_set_get_key (indexed_queue_set_dispose (indexed_queue_init m) f) g) = m"
  "iq_dispose (indexed_queue_set_get_key (indexed_queue_set_dispose (indexed_queue_init m) f) g) = f"
  "iq_get_key (indexed_queue_set_get_key (indexed_queue_set_dispose (indexed_queue_init m) f) g) = g"
  by (simp_all add: indexed_queue_set_get_key_def indexed_queue_set_dispose_def indexed_queue_init_def)

lemma iq_run_rep:
  assumes "iq_rep q cells" "named (iq_get_key q) (pairs cells)"
    "run_steps (iq_spec (max_size q) (iq_dispose q) (iq_get_key q)) ops (pairs cells) = Some (outs, xs)"
  shows "\<exists>q' cells'. run_steps iq_step ops q = Some (outs, q') \<and> iq_rep q' cells' \<and> pairs cells' = xs \<and> iq_same q q'
    \<and> named (iq_get_key q) xs"
  using assms
proof (induction ops arbitrary: q cells outs)
  case (Cons op ops)
  from Cons.prems(3) obtain o1 ys o2 where
    s: "iq_spec (max_size q) (iq_dispose q) (iq_get_key q) op (pairs cells) = Some (o1, ys)"
      "run_steps (iq_spec (max_size q) (iq_dispose q) (iq_get_key q)) ops ys = Some (o2, xs)" "outs = o1 @ o2"
    by (auto simp: bind_eq_Some_conv)
  from iq_step_rep[OF Cons.prems(1,2) s(1)] obtain q1 cells1 where
    1: "iq_step op q = Some (o1, q1)" "iq_rep q1 cells1" "pairs cells1 = ys" "iq_same q q1" by blast
  have "distinct (map fst (pairs cells))" using iq_repD(6)[OF Cons.prems(1)] by (simp add: comp_def)
  then have n: "named (iq_get_key q) ys" by (rule named_step[OF Cons.prems(2) s(1)])
  from Cons.IH[of q1 cells1 o2] 1 n s(2) obtain q' cells' where
    "run_steps iq_step ops q1 = Some (o2, q')" "iq_rep q' cells'" "pairs cells' = xs" "iq_same q1 q'" "named (iq_get_key q) xs"
    unfolding iq_same_def by auto
  with 1 s(3) show ?case by (auto simp: iq_same_def)
qed auto

lemma iq_run_init:
  assumes "run_steps (iq_spec m f g) ops [] = Some (outs, xs)"
  obtains q cells where
    "run_steps iq_step ops (indexed_queue_set_get_key (indexed_queue_set_dispose (indexed_queue_init m) f) g) = Some (outs, q)"
    "iq_rep q cells" "pairs cells = xs" "max_size q = m" "iq_dispose q = f" "iq_get_key q = g" "named g xs"
proof -
  have "named g []" by (auto simp: named_def split: option.splits)
  then show ?thesis
    using iq_run_rep[OF iq_init_rep[of m f g], of ops outs xs] assms that by (auto simp: iq_init_same iq_same_def)
qed

text \<open>Freeing the queue takes every node out and gives every entry back through the tree.\<close>

lemma iq_drain_rep: "lq_rep lq (map (\<lambda>c. (c_node c, Some (c_data c))) cells) \<Longrightarrow> \<exists>lq'. iq_drain lq = Some (map c_data cells, lq')"
proof (induction cells arbitrary: lq)
  case Nil
  then have "linked_queue_pop lq = Some (None, lq)"
    by (auto simp: linked_queue_pop_def linked_queue_pop_node_def lq_rep_def)
  then show ?case by (simp add: iq_drain.simps)
next
  case (Cons c cells)
  from lq_pop_rep[OF Cons.prems[simplified]] obtain lq1 where
    1: "linked_queue_pop lq = Some (Some (c_data c), lq1)" "lq_rep lq1 (map (\<lambda>c. (c_node c, Some (c_data c))) cells)" by blast
  from Cons.IH[OF 1(2)] 1(1) show ?case by (auto simp: iq_drain.simps[of lq])
qed

lemma fold_entry_free:
  "iq_entries (fold indexed_queue_entry_free es q) = (\<lambda>e. if e \<in> set es then None else iq_entries q e)"
  "iq_index (fold indexed_queue_entry_free es q) = iq_index q" "iq_queue (fold indexed_queue_entry_free es q) = iq_queue q"
  by (induction es arbitrary: q) (auto simp: indexed_queue_entry_free_def)

lemma iq_free_rep:
  assumes rep: "iq_rep q cells"
  shows "\<exists>q'. indexed_queue_free q = Some (if iq_dispose q then map c_data cells else [], q')
    \<and> iq_entries q' = Map.empty \<and> tree_heap (iq_index q') = Map.empty"
proof -
  note R = iq_repD[OF rep]
  obtain lq where lq: "iq_drain (iq_queue q) = Some (map c_data cells, lq)" using iq_drain_rep[OF R(1)] by blast
  obtain es t where t: "rbtree_destroy (iq_index q) = Some (es, t)" "tree_heap t = Map.empty"
    "mset es = mset (concat (map (\<lambda>k. disposal True (the (rb_contents (iq_index q) k))) (om_keys (rb_contents (iq_index q)))))"
    using rbtree_destroy_ok[OF R(2,3)] by blast
  have dom: "dom (rb_contents (iq_index q)) = c_key ` set cells" unfolding R(4) by (force simp: dom_map_of_conv_image_fst)
  have "e \<in> set es" if "iq_entries q e \<noteq> None" for e
  proof -
    have "e \<in> c_entry ` set cells"
      using that unfolding R(5) by (rule contrapos_np) (rule map_of_cells(2))
    then obtain c where c: "c \<in> set cells" "c_entry c = e" by blast
    then have "rb_contents (iq_index q) (c_key c) = Some (Some e)" 
      using map_of_cells(1)[OF R(6) c(1), of "\<lambda>c. Some (c_entry c)"] R(4) c(2) by simp
    moreover have "c_key c \<in> set (om_keys (rb_contents (iq_index q)))" using c(1) dom by (simp add: om_keys_def)
    ultimately have "e \<in> set (concat (map (\<lambda>k. disposal True (the (rb_contents (iq_index q) k))) (om_keys (rb_contents (iq_index q)))))"
      by (auto simp: disposal_def intro!: bexI[of _ "c_key c"])
    then show ?thesis using mset_eq_setD[OF t(3)] by blast
  qed
  then have "(\<lambda>e. if e \<in> set es then None else iq_entries q e) = Map.empty" by fastforce
  then show ?thesis using lq t(1,2) by (auto simp: indexed_queue_free_def fold_entry_free cong: if_cong)
qed

text \<open>C33: a queue of messages with an index over their keys behaves as the list of the keys and messages in
  the order of arrival, whatever sequence of calls is made, as long as each message belongs to its key
  (or, without a key callback, no message is in the queue twice). Every return code, every message
  handed out or disposed of and every wait is that of the list: pushing refuses a key that is there,
  upserting replaces its message in place, popping takes the oldest and deleting any key. At the end the
  size and every lookup agree with the list.\<close>

theorem iq_run_refines:
  assumes "run_steps (iq_spec m f g) ops [] = Some (outs, xs)"
  shows "\<exists>q. run_steps iq_step ops (indexed_queue_set_get_key (indexed_queue_set_dispose (indexed_queue_init m) f) g) = Some (outs, q)
    \<and> indexed_queue_size q = length xs \<and> (\<forall>k. indexed_queue_get q k = Some (map_of xs k))"
proof -
  obtain q cells where
    q: "run_steps iq_step ops (indexed_queue_set_get_key (indexed_queue_set_dispose (indexed_queue_init m) f) g) = Some (outs, q)"
      "iq_rep q cells" "pairs cells = xs" "max_size q = m" "iq_dispose q = f" "iq_get_key q = g" "named g xs"
    by (rule iq_run_init[OF assms])
  have "indexed_queue_size q = length xs" using iq_repD(9)[OF q(2)] q(3) by (auto simp: indexed_queue_size_def)
  with q(1) iq_get_rep[OF q(2)] q(3) show ?thesis by auto
qed

theorem iq_run_refines_witness:
  "\<exists>q. run_steps iq_step
      [Iq_push [1] (10::nat), Iq_push [2] 20, Iq_push [1] 11, Iq_push_ex [3] 30, Iq_upsert_ex [1] 12, Iq_pop, Iq_update [2] 22, Iq_delete [2], Iq_pop_ex]
      (indexed_queue_set_get_key (indexed_queue_set_dispose (indexed_queue_init 2) True) None)
      = Some ([Code 0 [], Code 0 [], Code (- 1) [], Blocked, Code 1 [10], Data (Some 12), Data (Some 20), Code 1 [22], Blocked], q)
    \<and> indexed_queue_size q = length ([] :: (cstring \<times> nat) list) \<and> (\<forall>k. indexed_queue_get q k = Some (map_of [] k))"
  by (rule iq_run_refines) (simp add: may_store_def spec_push_def replace_data_def disposal_def)

text \<open>C34: freeing the queue after any such calls hands exactly the messages still in it to the disposal
  callback, once each and in order, gives every entry of the index back and leaves no node of the
  tree allocated.\<close>

theorem iq_run_freed:
  assumes "run_steps (iq_spec m f g) ops [] = Some (outs, xs)"
  shows "\<exists>q q'. run_steps iq_step ops (indexed_queue_set_get_key (indexed_queue_set_dispose (indexed_queue_init m) f) g) = Some (outs, q)
    \<and> indexed_queue_free q = Some (if f then map snd xs else [], q')
    \<and> iq_entries q' = Map.empty \<and> tree_heap (iq_index q') = Map.empty"
proof -
  obtain q cells where
    q: "run_steps iq_step ops (indexed_queue_set_get_key (indexed_queue_set_dispose (indexed_queue_init m) f) g) = Some (outs, q)"
      "iq_rep q cells" "pairs cells = xs" "max_size q = m" "iq_dispose q = f" "iq_get_key q = g" "named g xs"
    by (rule iq_run_init[OF assms])
  have "map c_data cells = map snd xs" using q(3) by auto
  with q(1,5) iq_free_rep[OF q(2)] show ?thesis by auto
qed

theorem iq_run_freed_witness:
  "\<exists>q q'. run_steps iq_step [Iq_push [1] (10::nat), Iq_push [2] 20, Iq_upsert [1] 11]
      (indexed_queue_set_get_key (indexed_queue_set_dispose (indexed_queue_init 2) True) None) = Some ([Code 0 [], Code 0 [], Code 0 [10]], q)
    \<and> indexed_queue_free q = Some (if True then map snd [([1], 11), ([2 :: byte], 20)] else [], q')
    \<and> iq_entries q' = Map.empty \<and> tree_heap (iq_index q') = Map.empty"
  by (rule iq_run_freed) (simp add: may_store_def spec_push_def replace_data_def disposal_def)

end
