(* ===== verification/Control_Queue.thy ===== *)
theory Control_Queue
  imports Indexed_Queue "HOL-Library.Multiset" "HOL-Library.Word"
begin

text \<open>
  The control messages of remoted (\<^verbatim>\<open>remoted/src/secure.c\<close>): the workers store the control message of an agent
  in an indexed queue under the agent's ID, replacing the one that is waiting there, and one thread takes
  the messages out and handles them. The workers and the thread interleave: a step is what one of them does
  between two points where another can run. A worker that finds the queue full sleeps inside
  \<^verbatim>\<open>indexed_queue_upsert_ex\<close>; the counters are bumped after the queue is unlocked, in a step of their own.
  The theorems: no message is leaked or freed twice, an agent has at most one message in the queue, and
  the counters account for what is in it. A worker that slept can drop the newer message of an agent.
\<close>

section \<open>The model\<close>

record w_ctrl_msg_data =
  ctrl_key :: "cstring option"
  ctrl_message :: "byte list"
  is_startup :: int
  is_shutdown :: int
  post_startup :: bool

definition w_ctrl_msg_get_key :: "w_ctrl_msg_data \<Rightarrow> cstring option" where
  "w_ctrl_msg_get_key m = ctrl_key m"

text \<open>A worker that sleeps in the call, or has its result and has not acted on it.\<close>

datatype ctrl_worker = Asleep w_ctrl_msg_data | Stored int w_ctrl_msg_data

record ctrl_sys =
  ctrl_queue :: "w_ctrl_msg_data indexed_queue"
  workers :: "ctrl_worker list"
  popped :: "w_ctrl_msg_data option"
  inserted_count :: "32 word"
  replaced_count :: "32 word"
  processed_count :: "32 word"
  post_flags :: "cstring \<rightharpoonup> bool"

definition control_msg_queue :: "nat \<Rightarrow> w_ctrl_msg_data indexed_queue" where
  "control_msg_queue n = indexed_queue_set_get_key (indexed_queue_set_dispose (indexed_queue_init n) True) (Some w_ctrl_msg_get_key)"

definition ctrl_start :: "nat \<Rightarrow> (cstring \<rightharpoonup> bool) \<Rightarrow> ctrl_sys" where
  "ctrl_start n flags = \<lparr>ctrl_queue = control_msg_queue n, workers = [], popped = None,
     inserted_count = 0, replaced_count = 0, processed_count = 0, post_flags = flags\<rparr>"

datatype ctrl_event = Freed w_ctrl_msg_data | Handled w_ctrl_msg_data

definition rem_inc_ctrl_queue_inserted :: "ctrl_sys \<Rightarrow> ctrl_sys" where
  "rem_inc_ctrl_queue_inserted s = s\<lparr>inserted_count := inserted_count s + 1\<rparr>"

definition rem_inc_ctrl_queue_replaced :: "ctrl_sys \<Rightarrow> ctrl_sys" where
  "rem_inc_ctrl_queue_replaced s = s\<lparr>replaced_count := replaced_count s + 1\<rparr>"

definition rem_inc_ctrl_queue_processed :: "ctrl_sys \<Rightarrow> ctrl_sys" where
  "rem_inc_ctrl_queue_processed s = s\<lparr>processed_count := processed_count s + 1\<rparr>"

text \<open>The call of a worker, and its \<^verbatim>\<open>switch\<close> on the result.\<close>

definition store_ctrl_msg :: "w_ctrl_msg_data \<Rightarrow> ctrl_sys \<Rightarrow> (ctrl_event list \<times> ctrl_sys) option" where
  "store_ctrl_msg m s =
     do {
       agent \<leftarrow> ctrl_key m;
       w \<leftarrow> indexed_queue_upsert_ex (ctrl_queue s) agent m;
       Some (case w of
         Returns (r, ds) q \<Rightarrow> (map Freed ds, s\<lparr>ctrl_queue := q, workers := workers s @ [Stored r m]\<rparr>)
       | Waits q \<Rightarrow> ([], s\<lparr>ctrl_queue := q, workers := workers s @ [Asleep m]\<rparr>))
     }"

definition wake_ctrl_worker :: "nat \<Rightarrow> w_ctrl_msg_data \<Rightarrow> ctrl_sys \<Rightarrow> (ctrl_event list \<times> ctrl_sys) option" where
  "wake_ctrl_worker i m s =
     do {
       agent \<leftarrow> ctrl_key m;
       w \<leftarrow> upsert_insert (ctrl_queue s) agent m;
       Some (case w of
         Returns (r, ds) q \<Rightarrow> (map Freed ds, s\<lparr>ctrl_queue := q, workers := (workers s)[i := Stored r m]\<rparr>)
       | Waits q \<Rightarrow> ([], s\<lparr>ctrl_queue := q\<rparr>))
     }"

definition ctrl_msg_result :: "int \<Rightarrow> w_ctrl_msg_data \<Rightarrow> ctrl_sys \<Rightarrow> ctrl_event list \<times> ctrl_sys" where
  "ctrl_msg_result res m s =
     (if res = 0 then ([], rem_inc_ctrl_queue_inserted s)
      else if res = 1 then ([], rem_inc_ctrl_queue_replaced s)
      else ([Freed m], s))"

text \<open>
  The two halves of a round of the saving thread. \<open>save\<close> stands for the flag \<^verbatim>\<open>save_controlmsg\<close> leaves in
  its argument; the agent's flag in the key store follows it when it changed and the agent is still known.
\<close>

definition pop_ctrl_msg :: "ctrl_sys \<Rightarrow> (ctrl_event list \<times> ctrl_sys) option" where
  "pop_ctrl_msg s =
     do {
       w \<leftarrow> indexed_queue_pop_ex (ctrl_queue s);
       Some ([], case w of Returns d q \<Rightarrow> s\<lparr>ctrl_queue := q, popped := d\<rparr> | Waits q \<Rightarrow> s\<lparr>ctrl_queue := q\<rparr>)
     }"

definition handle_ctrl_msg :: "(w_ctrl_msg_data \<Rightarrow> bool) \<Rightarrow> w_ctrl_msg_data \<Rightarrow> ctrl_sys \<Rightarrow> (ctrl_event list \<times> ctrl_sys) option" where
  "handle_ctrl_msg save m s =
     (let s1 = rem_inc_ctrl_queue_processed s in
      if post_startup m \<noteq> save m then do {
        agent \<leftarrow> ctrl_key m;
        Some ([Handled m, Freed m], s1\<lparr>popped := None,
          post_flags := (if agent \<in> dom (post_flags s) then (post_flags s)(agent \<mapsto> save m) else post_flags s)\<rparr>)
      }
      else Some ([Handled m, Freed m], s1\<lparr>popped := None\<rparr>))"

datatype ctrl_act = Store w_ctrl_msg_data | Work nat | Save

definition ctrl_work :: "nat \<Rightarrow> ctrl_sys \<Rightarrow> (ctrl_event list \<times> ctrl_sys) option" where
  "ctrl_work i s =
     (if i < length (workers s) then
        (case workers s ! i of
           Asleep m \<Rightarrow> wake_ctrl_worker i m s
         | Stored r m \<Rightarrow> Some (ctrl_msg_result r m (s\<lparr>workers := take i (workers s) @ drop (Suc i) (workers s)\<rparr>)))
      else Some ([], s))"

definition save_control_thread :: "(w_ctrl_msg_data \<Rightarrow> bool) \<Rightarrow> ctrl_sys \<Rightarrow> (ctrl_event list \<times> ctrl_sys) option" where
  "save_control_thread save s = (case popped s of None \<Rightarrow> pop_ctrl_msg s | Some m \<Rightarrow> handle_ctrl_msg save m s)"

fun ctrl_step :: "(w_ctrl_msg_data \<Rightarrow> bool) \<Rightarrow> ctrl_act \<Rightarrow> ctrl_sys \<Rightarrow> (ctrl_event list \<times> ctrl_sys) option" where
  "ctrl_step save (Store m) s = store_ctrl_msg m s"
| "ctrl_step save (Work i) s = ctrl_work i s"
| "ctrl_step save Save s = save_control_thread save s"

section \<open>What the queue does with a message\<close>

definition ctrl_holds :: "nat \<Rightarrow> w_ctrl_msg_data indexed_queue \<Rightarrow> (cstring \<times> w_ctrl_msg_data) list \<Rightarrow> bool" where
  "ctrl_holds n q xs \<longleftrightarrow> (\<exists>cells. iq_rep q cells \<and> pairs cells = xs \<and> max_size q = n \<and> iq_dispose q
     \<and> iq_get_key q = Some w_ctrl_msg_get_key \<and> named (Some w_ctrl_msg_get_key) xs) \<and> (n \<noteq> 0 \<longrightarrow> length xs \<le> n)"

lemma mset_replace_data:
  "distinct (map fst xs) \<Longrightarrow> map_of xs k = Some old \<Longrightarrow>
   mset (map snd (replace_data k d xs)) + {#old#} = mset (map snd xs) + {#d#}"
proof (induction xs)
  case (Cons p xs)
  then show ?case using replace_data_simps(2)[of k xs d] by (cases "fst p = k") (auto simp: replace_data_simps(4))
qed simp

lemma ctrl_holds_distinct: "ctrl_holds n q xs \<Longrightarrow> distinct (map fst xs)"
  by (auto simp: ctrl_holds_def comp_def dest: iq_repD(6))

text \<open>A step of the queue on the message's own key is one of the list.\<close>

lemma ctrl_iq_step:
  assumes "ctrl_holds n q xs" "iq_spec n True (Some w_ctrl_msg_get_key) op xs = Some (outs, ys)" "n \<noteq> 0 \<longrightarrow> length ys \<le> n"
  shows "\<exists>q'. iq_step op q = Some (outs, q') \<and> ctrl_holds n q' ys"
proof -
  from assms(1) obtain cells where c: "iq_rep q cells" "pairs cells = xs" "max_size q = n" "iq_dispose q"
    "iq_get_key q = Some w_ctrl_msg_get_key" "named (Some w_ctrl_msg_get_key) xs"
    by (auto simp: ctrl_holds_def)
  have "named (Some w_ctrl_msg_get_key) ys" by (rule named_step[OF c(6) assms(2) ctrl_holds_distinct[OF assms(1)]])
  with iq_step_rep[OF c(1), of op outs ys] c(2-6) assms(2,3) show ?thesis by (auto simp: ctrl_holds_def iq_same_def)
qed

lemma iq_step_upsert_ex:
  "iq_step (Iq_upsert_ex k m) q = Some ([Code r ds], q') \<Longrightarrow> indexed_queue_upsert_ex q k m = Some (Returns (r, ds) q')"
  "iq_step (Iq_upsert_ex k m) q = Some ([Blocked], q') \<Longrightarrow> indexed_queue_upsert_ex q k m = Some (Waits q')"
  by (cases "indexed_queue_upsert_ex q k m"; cases "the (indexed_queue_upsert_ex q k m)"; auto split: prod.splits)+

lemma iq_step_pop_ex:
  "iq_step Iq_pop_ex q = Some ([Data d], q') \<Longrightarrow> indexed_queue_pop_ex q = Some (Returns d q')"
  "iq_step Iq_pop_ex q = Some ([Blocked], q') \<Longrightarrow> indexed_queue_pop_ex q = Some (Waits q')"
  by (cases "indexed_queue_pop_ex q"; cases "the (indexed_queue_pop_ex q)"; auto)+

lemma ctrl_upsert:
  assumes h: "ctrl_holds n q xs" and k: "ctrl_key m = Some k"
  obtains
    (replaced) old q' ys where "indexed_queue_upsert_ex q k m = Some (Returns (1, [old]) q')" "ctrl_holds n q' ys"
      "mset (map snd ys) + {#old#} = mset (map snd xs) + {#m#}" "length ys = length xs"
  | (inserted) q' where "indexed_queue_upsert_ex q k m = Some (Returns (0, []) q')" "ctrl_holds n q' (xs @ [(k, m)])"
  | (waits) q' where "indexed_queue_upsert_ex q k m = Some (Waits q')" "ctrl_holds n q' xs"
proof (cases "map_of xs k")
  case (Some old)
  with k have "iq_spec n True (Some w_ctrl_msg_get_key) (Iq_upsert_ex k m) xs = Some ([Code 1 [old]], replace_data k m xs)"
    by (simp add: may_store_def w_ctrl_msg_get_key_def disposal_def)
  moreover have len: "length (replace_data k m xs) = length xs" by (simp add: replace_data_def)
  moreover have "n \<noteq> 0 \<longrightarrow> length (replace_data k m xs) \<le> n" using h len by (simp add: ctrl_holds_def)
  ultimately obtain q' where "iq_step (Iq_upsert_ex k m) q = Some ([Code 1 [old]], q')" "ctrl_holds n q' (replace_data k m xs)"
    using ctrl_iq_step[OF h] by blast
  with replaced mset_replace_data[OF ctrl_holds_distinct[OF h] Some, of m] len show ?thesis
    by (auto dest: iq_step_upsert_ex iq_step_pop_ex simp del: iq_step.simps)
next
  case None
  then have abs: "k \<notin> fst ` set xs" by (simp add: map_of_eq_None_iff)
  show ?thesis
  proof (cases "n \<noteq> 0 \<and> length xs \<ge> n")
    case True
    with None k have "iq_spec n True (Some w_ctrl_msg_get_key) (Iq_upsert_ex k m) xs = Some ([Blocked], xs)"
      by (simp add: may_store_def w_ctrl_msg_get_key_def)
    moreover have "n \<noteq> 0 \<longrightarrow> length xs \<le> n" using h by (simp add: ctrl_holds_def)
    ultimately obtain q' where "iq_step (Iq_upsert_ex k m) q = Some ([Blocked], q')" "ctrl_holds n q' xs"
      using ctrl_iq_step[OF h] by blast
    with waits show ?thesis by (auto dest: iq_step_upsert_ex iq_step_pop_ex simp del: iq_step.simps)
  next
    case False
    with None abs k have "iq_spec n True (Some w_ctrl_msg_get_key) (Iq_upsert_ex k m) xs = Some ([Code 0 []], xs @ [(k, m)])"
      by (auto simp: may_store_def w_ctrl_msg_get_key_def spec_push_def)
    moreover have "n \<noteq> 0 \<longrightarrow> length (xs @ [(k, m)]) \<le> n" using False by auto
    ultimately obtain q' where "iq_step (Iq_upsert_ex k m) q = Some ([Code 0 []], q')" "ctrl_holds n q' (xs @ [(k, m)])"
      using ctrl_iq_step[OF h] by blast
    with inserted show ?thesis by (auto dest: iq_step_upsert_ex iq_step_pop_ex simp del: iq_step.simps)
  qed
qed

lemma ctrl_insert:
  assumes h: "ctrl_holds n q xs" and k: "ctrl_key m = Some k"
  obtains
    (refused) q' where "upsert_insert q k m = Some (Returns (- 1, []) q')" "ctrl_holds n q' xs"
  | (inserted) q' where "upsert_insert q k m = Some (Returns (0, []) q')" "ctrl_holds n q' (xs @ [(k, m)])"
  | (waits) "upsert_insert q k m = Some (Waits q)"
proof -
  from h obtain cells where c: "iq_rep q cells" "pairs cells = xs" "max_size q = n" by (auto simp: ctrl_holds_def)
  have full: "indexed_queue_full q \<longleftrightarrow> n \<noteq> 0 \<and> length xs \<ge> n" using iq_full_iff(1)[OF c(1)] c(2,3) by auto
  let ?sp = "spec_push n k m xs"
  show ?thesis
  proof (cases "indexed_queue_full q")
    case True
    with waits show ?thesis by (simp add: upsert_insert_def)
  next
    case False
    with full have len: "n \<noteq> 0 \<longrightarrow> length (snd ?sp) \<le> n" using h by (auto simp: spec_push_def ctrl_holds_def)
    have "iq_spec n True (Some w_ctrl_msg_get_key) (Iq_push k m) xs = Some (fst ?sp, snd ?sp)"
      using k by (simp add: may_store_def w_ctrl_msg_get_key_def)
    from ctrl_iq_step[OF h this len] obtain q' where q': "iq_step (Iq_push k m) q = Some (fst ?sp, q')" "ctrl_holds n q' (snd ?sp)" by blast
    show ?thesis
    proof (cases "k \<in> fst ` set xs")
      case True
      with q' refused False show ?thesis by (auto simp: spec_push_def upsert_insert_def bind_eq_Some_conv)
    next
      case absent: False
      with q' inserted False full show ?thesis by (auto simp: spec_push_def upsert_insert_def bind_eq_Some_conv)
    qed
  qed
qed

lemma ctrl_pop:
  assumes h: "ctrl_holds n q xs"
  obtains
    (none) q' where "xs = []" "indexed_queue_pop_ex q = Some (Waits q')" "ctrl_holds n q' xs"
  | (oldest) k m ys q' where "xs = (k, m) # ys" "indexed_queue_pop_ex q = Some (Returns (Some m) q')" "ctrl_holds n q' ys"
proof (cases xs)
  case Nil
  with ctrl_iq_step[OF h, of Iq_pop_ex "[Blocked]" "[]"] none show ?thesis by (auto dest: iq_step_upsert_ex iq_step_pop_ex simp del: iq_step.simps)
next
  case (Cons p ys)
  obtain k m where p: "p = (k, m)" by force
  have "n \<noteq> 0 \<longrightarrow> length ys \<le> n" using h Cons by (auto simp: ctrl_holds_def)
  with ctrl_iq_step[OF h, of Iq_pop_ex "[Data (Some m)]" ys] oldest Cons p show ?thesis
    by (auto dest: iq_step_upsert_ex iq_step_pop_ex simp del: iq_step.simps)
qed

section \<open>The invariant of the system\<close>

text \<open>A message is in the queue, in the hands of a worker or of the saving thread, or freed.\<close>

fun owned :: "ctrl_worker \<Rightarrow> w_ctrl_msg_data list" where
  "owned (Asleep m) = [m]"
| "owned (Stored r m) = (if r = 0 \<or> r = 1 then [] else [m])"

fun uncounted :: "ctrl_worker \<Rightarrow> nat" where
  "uncounted (Asleep m) = 0"
| "uncounted (Stored r m) = (if r = 0 then 1 else 0)"

fun worker_msg :: "ctrl_worker \<Rightarrow> w_ctrl_msg_data" where
  "worker_msg (Asleep m) = m"
| "worker_msg (Stored r m) = m"

fun freed :: "ctrl_event list \<Rightarrow> w_ctrl_msg_data list" where
  "freed [] = []"
| "freed (Freed m # es) = m # freed es"
| "freed (Handled m # es) = freed es"

fun stored :: "ctrl_act list \<Rightarrow> w_ctrl_msg_data list" where
  "stored [] = []"
| "stored (Store m # acts) = m # stored acts"
| "stored (_ # acts) = stored acts"

definition at_hand :: "ctrl_sys \<Rightarrow> w_ctrl_msg_data list" where
  "at_hand s = concat (map owned (workers s)) @ (case popped s of None \<Rightarrow> [] | Some m \<Rightarrow> [m])"

definition ctrl_inv :: "nat \<Rightarrow> (cstring \<times> w_ctrl_msg_data) list \<Rightarrow> ctrl_sys \<Rightarrow> bool" where
  "ctrl_inv n xs s \<longleftrightarrow> ctrl_holds n (ctrl_queue s) xs \<and> (\<forall>w \<in> set (workers s). ctrl_key (worker_msg w) \<noteq> None)
     \<and> pred_option (\<lambda>m. ctrl_key m \<noteq> None) (popped s)
     \<and> inserted_count s + of_nat (sum_list (map uncounted (workers s)))
         = processed_count s + of_nat (length xs + (if popped s = None then 0 else 1))"

lemma freed_append [simp]: "freed (xs @ ys) = freed xs @ freed ys"
  by (induction xs rule: freed.induct) auto

lemma freed_map [simp]: "freed (map Freed ds) = ds"
  by (induction ds) auto

lemma split_workers:
  assumes "i < length ws"
  obtains us vs where "ws = us @ ws ! i # vs" "take i ws = us" "drop (Suc i) ws = vs" "\<And>w. ws[i := w] = us @ w # vs"
  using id_take_nth_drop[OF assms] upd_conv_take_nth_drop[OF assms] that by metis

lemma store_ctrl_msg_ok:
  assumes inv: "ctrl_inv n xs s" and k: "ctrl_key m = Some k"
  shows "\<exists>outs s' ys. store_ctrl_msg m s = Some (outs, s') \<and> ctrl_inv n ys s'
    \<and> mset (freed outs) + mset (at_hand s') + mset (map snd ys) = mset (at_hand s) + mset (map snd xs) + {#m#}"
proof -
  have h: "ctrl_holds n (ctrl_queue s) xs" using inv by (simp add: ctrl_inv_def)
  from h k show ?thesis
  proof (cases rule: ctrl_upsert)
    case (replaced old q' ys)
    then show ?thesis using inv k
      by (intro exI[of _ "[Freed old]"] exI[of _ "s\<lparr>ctrl_queue := q', workers := workers s @ [Stored 1 m]\<rparr>"] exI[of _ ys])
        (auto simp: store_ctrl_msg_def ctrl_inv_def at_hand_def)
  next
    case (inserted q')
    then show ?thesis using inv k
      by (intro exI[of _ "[]"] exI[of _ "s\<lparr>ctrl_queue := q', workers := workers s @ [Stored 0 m]\<rparr>"] exI[of _ "xs @ [(k, m)]"])
        (auto simp: store_ctrl_msg_def ctrl_inv_def at_hand_def algebra_simps)
  next
    case (waits q')
    then show ?thesis using inv k
      by (intro exI[of _ "[]"] exI[of _ "s\<lparr>ctrl_queue := q', workers := workers s @ [Asleep m]\<rparr>"] exI[of _ xs])
        (auto simp: store_ctrl_msg_def ctrl_inv_def at_hand_def)
  qed
qed

lemma ctrl_work_ok:
  assumes inv: "ctrl_inv n xs s"
  shows "\<exists>outs s' ys. ctrl_work i s = Some (outs, s') \<and> ctrl_inv n ys s'
    \<and> mset (freed outs) + mset (at_hand s') + mset (map snd ys) = mset (at_hand s) + mset (map snd xs)"
proof (cases "i < length (workers s)")
  case True
  have h: "ctrl_holds n (ctrl_queue s) xs" using inv by (simp add: ctrl_inv_def)
  obtain us vs where w: "workers s = us @ workers s ! i # vs" "take i (workers s) = us" "drop (Suc i) (workers s) = vs"
    and upd: "\<And>w. (workers s)[i := w] = us @ w # vs" using split_workers[OF True] by blast
  show ?thesis
  proof (cases "workers s ! i")
    case (Stored r m)
    with w have ws: "workers s = us @ Stored r m # vs" by simp
    let ?out = "ctrl_msg_result r m (s\<lparr>workers := us @ vs\<rparr>)"
    have "ctrl_work i s = Some (fst ?out, snd ?out)" using True Stored w(2,3) by (simp add: ctrl_work_def)
    moreover have "ctrl_inv n xs (snd ?out)" using inv unfolding ctrl_inv_def
      by (auto simp: ws ctrl_msg_result_def rem_inc_ctrl_queue_inserted_def rem_inc_ctrl_queue_replaced_def algebra_simps)
    moreover have "mset (freed (fst ?out)) + mset (at_hand (snd ?out)) = mset (at_hand s)"
      by (simp add: at_hand_def ws ctrl_msg_result_def rem_inc_ctrl_queue_inserted_def rem_inc_ctrl_queue_replaced_def)
    ultimately show ?thesis by (intro exI[of _ "fst ?out"] exI[of _ "snd ?out"] exI[of _ xs]) simp
  next
    case (Asleep m)
    with w have ws: "workers s = us @ Asleep m # vs" by simp
    have do: "ctrl_work i s = wake_ctrl_worker i m s" using True Asleep by (simp add: ctrl_work_def)
    from inv ws obtain k where k: "ctrl_key m = Some k" by (auto simp: ctrl_inv_def)
    from h k show ?thesis
    proof (cases rule: ctrl_insert)
      case (refused q')
      then show ?thesis using inv k
        by (intro exI[of _ "[]"] exI[of _ "s\<lparr>ctrl_queue := q', workers := us @ Stored (- 1) m # vs\<rparr>"] exI[of _ xs])
          (auto simp: do wake_ctrl_worker_def ctrl_inv_def at_hand_def ws upd[unfolded ws])
    next
      case (inserted q')
      then show ?thesis using inv k
        by (intro exI[of _ "[]"] exI[of _ "s\<lparr>ctrl_queue := q', workers := us @ Stored 0 m # vs\<rparr>"] exI[of _ "xs @ [(k, m)]"])
          (auto simp: do wake_ctrl_worker_def ctrl_inv_def at_hand_def ws upd[unfolded ws] algebra_simps)
    next
      case waits
      then show ?thesis using inv k by (auto simp: do wake_ctrl_worker_def)
    qed
  qed
qed (use inv in \<open>auto simp: ctrl_work_def\<close>)

lemma save_control_thread_ok:
  assumes inv: "ctrl_inv n xs s"
  shows "\<exists>outs s' ys. save_control_thread save s = Some (outs, s') \<and> ctrl_inv n ys s'
    \<and> mset (freed outs) + mset (at_hand s') + mset (map snd ys) = mset (at_hand s) + mset (map snd xs)"
proof (cases "popped s")
  case None
  have h: "ctrl_holds n (ctrl_queue s) xs" using inv by (simp add: ctrl_inv_def)
  then show ?thesis
  proof (cases rule: ctrl_pop)
    case (none q')
    then show ?thesis using inv None
      by (auto simp: save_control_thread_def pop_ctrl_msg_def ctrl_inv_def at_hand_def)
  next
    case (oldest k m ys q')
    have "named (Some w_ctrl_msg_get_key) xs" using h by (auto simp: ctrl_holds_def)
    then have "ctrl_key m = Some k" using oldest(1) by (simp add: named_def w_ctrl_msg_get_key_def)
    then show ?thesis using inv None oldest
      by (intro exI[of _ "[]"] exI[of _ "s\<lparr>ctrl_queue := q', popped := Some m\<rparr>"] exI[of _ ys])
        (auto simp: save_control_thread_def pop_ctrl_msg_def ctrl_inv_def at_hand_def)
  qed
next
  case (Some m)
  with inv obtain k where "ctrl_key m = Some k" by (auto simp: ctrl_inv_def)
  with Some inv show ?thesis
    by (intro exI[of _ "[Handled m, Freed m]"] exI[of _ xs])
      (auto simp: save_control_thread_def handle_ctrl_msg_def Let_def rem_inc_ctrl_queue_processed_def ctrl_inv_def at_hand_def)
qed

lemma ctrl_step_ok:
  assumes "ctrl_inv n xs s" "\<forall>m \<in> set (stored [act]). ctrl_key m \<noteq> None"
  shows "\<exists>outs s' ys. ctrl_step save act s = Some (outs, s') \<and> ctrl_inv n ys s'
    \<and> mset (freed outs) + mset (at_hand s') + mset (map snd ys) = mset (at_hand s) + mset (map snd xs) + mset (stored [act])"
  using assms store_ctrl_msg_ok[OF assms(1)] ctrl_work_ok[OF assms(1)] save_control_thread_ok[OF assms(1), of save] by (cases act) auto

lemma stored_Cons: "stored (act # acts) = stored [act] @ stored acts"
  by (cases act) auto

lemma mset_chain:
  fixes a :: "'a multiset"
  assumes "a + h1 + y = h + x + s1" "b + h2 + z = h1 + y + s2"
  shows "a + b + h2 + z = h + x + (s1 + s2)"
proof (rule multiset_eqI)
  fix e
  show "count (a + b + h2 + z) e = count (h + x + (s1 + s2)) e"
    using arg_cong[OF assms(1), of "\<lambda>M. count M e"] arg_cong[OF assms(2), of "\<lambda>M. count M e"] by simp
qed

lemma ctrl_run_ok:
  assumes "ctrl_inv n xs s" "\<forall>m \<in> set (stored acts). ctrl_key m \<noteq> None"
  shows "\<exists>outs s' ys. run_steps (ctrl_step save) acts s = Some (outs, s') \<and> ctrl_inv n ys s'
    \<and> mset (freed outs) + mset (at_hand s') + mset (map snd ys) = mset (at_hand s) + mset (map snd xs) + mset (stored acts)"
  using assms
proof (induction acts arbitrary: s xs)
  case (Cons act acts)
  then have k: "\<forall>m \<in> set (stored [act]). ctrl_key m \<noteq> None" "\<forall>m \<in> set (stored acts). ctrl_key m \<noteq> None"
    unfolding stored_Cons[of act acts] by auto
  from ctrl_step_ok[OF Cons.prems(1) k(1), of save] obtain o1 s1 ys where 1: "ctrl_step save act s = Some (o1, s1)" "ctrl_inv n ys s1"
    "mset (freed o1) + mset (at_hand s1) + mset (map snd ys) = mset (at_hand s) + mset (map snd xs) + mset (stored [act])" by blast
  from Cons.IH[OF 1(2) k(2)] obtain o2 s2 zs where 2: "run_steps (ctrl_step save) acts s1 = Some (o2, s2)" "ctrl_inv n zs s2"
    "mset (freed o2) + mset (at_hand s2) + mset (map snd zs) = mset (at_hand s1) + mset (map snd ys) + mset (stored acts)" by blast
  have "mset (freed (o1 @ o2)) + mset (at_hand s2) + mset (map snd zs) = mset (at_hand s) + mset (map snd xs) + mset (stored (act # acts))"
    unfolding stored_Cons[of act acts] using mset_chain[OF 1(3) 2(3)] by simp
  with 1(1,2) 2(1,2) show ?case by auto
qed auto

lemma ctrl_start_inv: "ctrl_inv n [] (ctrl_start n flags)" "at_hand (ctrl_start n flags) = []"
  using iq_init_rep[of n True "Some w_ctrl_msg_get_key"]
  by (simp_all add: ctrl_inv_def ctrl_holds_def ctrl_start_def control_msg_queue_def iq_init_same named_def at_hand_def)

section \<open>The theorems\<close>

text \<open>C35: however the workers and the saving thread interleave, no control message is leaked or freed twice:
  each one handed in is freed, held by a worker or by the saving thread, or in the queue, exactly once. The
  queue has one message per agent and respects its limit, and the counters agree with it:
  inserted (with the insertions not counted yet) is processed plus what is still to process, modulo \<open>2\<^sup>32\<close>.
  No step reads a freed or missing object.\<close>

theorem ctrl_accounted:
  assumes "\<forall>m \<in> set (stored acts). ctrl_key m \<noteq> None"
  shows "\<exists>outs s xs. run_steps (ctrl_step save) acts (ctrl_start n flags) = Some (outs, s)
    \<and> mset (stored acts) = mset (freed outs) + mset (at_hand s) + mset (map snd xs)
    \<and> (\<forall>k. indexed_queue_get (ctrl_queue s) k = Some (map_of xs k)) \<and> distinct (map fst xs)
    \<and> indexed_queue_size (ctrl_queue s) = length xs \<and> (n = 0 \<or> length xs \<le> n)
    \<and> inserted_count s + of_nat (sum_list (map uncounted (workers s)))
        = processed_count s + of_nat (length xs + (if popped s = None then 0 else 1))"
proof -
  from ctrl_run_ok[OF ctrl_start_inv(1)[of n flags] assms, of save] obtain outs s xs where
    r: "run_steps (ctrl_step save) acts (ctrl_start n flags) = Some (outs, s)" "ctrl_inv n xs s"
      "mset (freed outs) + mset (at_hand s) + mset (map snd xs) = mset (stored acts)"
    by (auto simp: ctrl_start_inv(2))
  from r(2) have h: "ctrl_holds n (ctrl_queue s) xs" by (simp add: ctrl_inv_def)
  then obtain cells where c: "iq_rep (ctrl_queue s) cells" "pairs cells = xs" by (auto simp: ctrl_holds_def)
  have "indexed_queue_size (ctrl_queue s) = length xs" using iq_repD(9)[OF c(1)] c(2) by (auto simp: indexed_queue_size_def)
  moreover have "\<forall>k. indexed_queue_get (ctrl_queue s) k = Some (map_of xs k)" using iq_get_rep[OF c(1)] c(2) by simp
  moreover have "n = 0 \<or> length xs \<le> n" using h by (auto simp: ctrl_holds_def)
  moreover note ctrl_holds_distinct[OF h]
  ultimately show ?thesis using r by (intro exI[of _ outs] exI[of _ s] exI[of _ xs]) (auto simp: ctrl_inv_def)
qed

abbreviation ctrl_msg :: "cstring \<Rightarrow> byte list \<Rightarrow> w_ctrl_msg_data" where
  "ctrl_msg agent txt \<equiv> \<lparr>ctrl_key = Some agent, ctrl_message = txt, is_startup = 0, is_shutdown = 0, post_startup = False\<rparr>"

theorem ctrl_accounted_witness:
  "\<exists>outs s xs. run_steps (ctrl_step (\<lambda>m. False)) [Store (ctrl_msg [1] [10]), Work 0, Store (ctrl_msg [1] [11]), Save, Save]
      (ctrl_start 2 Map.empty) = Some (outs, s)
    \<and> mset [ctrl_msg [1] [10], ctrl_msg [1] [11]] = mset (freed outs) + mset (at_hand s) + mset (map snd xs)
    \<and> (\<forall>k. indexed_queue_get (ctrl_queue s) k = Some (map_of xs k)) \<and> distinct (map fst xs)
    \<and> indexed_queue_size (ctrl_queue s) = length xs \<and> ((2 :: nat) = 0 \<or> length xs \<le> 2)
    \<and> inserted_count s + of_nat (sum_list (map uncounted (workers s)))
        = processed_count s + of_nat (length xs + (if popped s = None then 0 else 1))"
  using ctrl_accounted[of "[Store (ctrl_msg [1] [10]), Work 0, Store (ctrl_msg [1] [11]), Save, Save]" "\<lambda>m. False" 2 Map.empty]
  by (simp del: run_steps.simps ctrl_step.simps)

text \<open>
  A newer message can be dropped for an older one. The queue of two is full when two messages of the same
  agent arrive; both workers sleep. The first one stores its message when there is room; the second one
  then finds the agent in the queue, but it is past the check that would replace the message: the push
  fails and the newer message is freed, with the older one left in the queue.
\<close>

lemma ctrl_update_lost:
  "(case run_steps (ctrl_step (\<lambda>m. False))
      [Store (ctrl_msg [1] [10]), Work 0, Store (ctrl_msg [2] [20]), Work 0,
       Store (ctrl_msg [3] [30]), Store (ctrl_msg [3] [31]), Save, Save, Work 0, Work 0, Save, Save, Work 0, Work 0]
      (ctrl_start 2 Map.empty) of
     Some (outs, s) \<Rightarrow>
       outs = [Handled (ctrl_msg [1] [10]), Freed (ctrl_msg [1] [10]), Handled (ctrl_msg [2] [20]), Freed (ctrl_msg [2] [20]),
               Freed (ctrl_msg [3] [31])]
       \<and> indexed_queue_get (ctrl_queue s) [3] = Some (Some (ctrl_msg [3] [30]))
   | None \<Rightarrow> False)"
  by code_simp

end
