(* ===== verification/Os_Match.thy ===== *)
theory Os_Match
  imports Str_Map "HOL-Library.Sublist"
begin

text \<open>
  The simple pattern language of \<^verbatim>\<open>os_regex/os_match*.c\<close> and \<^verbatim>\<open>os_regex_match.c\<close>: alternatives
  separated by \<^verbatim>\<open>|\<close>, each of them a word that may be anchored with \<^verbatim>\<open>^\<close> and \<^verbatim>\<open>$\<close>, matched without regard
  to case, and a \<^verbatim>\<open>!\<close> in front that negates the whole. A string is the list of its bytes before the NUL;
  \<open>None\<close> is a read past it. Whether \<^verbatim>\<open>char\<close> is signed depends on the platform and is the parameter \<open>sg\<close>.
  The theorems say that the compiled matchers agree with prefixes, suffixes and sublists of the lower-case text.
\<close>

subsection \<open>Characters\<close>

text \<open>The table that maps to lower case (\<^verbatim>\<open>os_regex_maps.c\<close>), and the function of the C library.\<close>

definition charmap_table :: "nat list" where
  "charmap_table = [0..<65] @ [97..<123] @ [91..<256]"

definition charmap :: "byte \<Rightarrow> byte" where
  "charmap c = of_nat (charmap_table ! unat c)"

definition tolower :: "byte \<Rightarrow> byte" where
  "tolower c = (if 65 \<le> c \<and> c \<le> 90 then c + 32 else c)"

text \<open>A \<^verbatim>\<open>char\<close> promoted to \<^verbatim>\<open>int\<close>.\<close>

definition char_int :: "bool \<Rightarrow> byte \<Rightarrow> int" where
  "char_int sg c = (if sg \<and> 128 \<le> c then uint c - 256 else uint c)"

definition char_at :: "cstring \<Rightarrow> nat \<Rightarrow> byte option" where
  "char_at s i = (if i < length s then Some (s ! i) else if i = length s then Some 0 else None)"

text \<open>Comparisons of the C library, on strings without NUL: whether the result is 0.\<close>

definition strcasecmp :: "cstring \<Rightarrow> cstring \<Rightarrow> bool" where
  "strcasecmp a b \<longleftrightarrow> map tolower a = map tolower b"

definition strncasecmp :: "cstring \<Rightarrow> cstring \<Rightarrow> nat \<Rightarrow> bool" where
  "strncasecmp a b n \<longleftrightarrow> map tolower (take n a) = map tolower (take n b)"

subsection \<open>os\_match\_execute.c\<close>

datatype hit = Whole | Ends | Differs

text \<open>The inner loop: the rest of the pattern against the text from \<open>j\<close> on.\<close>

fun match_here :: "bool \<Rightarrow> cstring \<Rightarrow> cstring \<Rightarrow> nat \<Rightarrow> hit option" where
  "match_here sg [] str j = Some Whole"
| "match_here sg (p # pt) str j =
     do {
       b \<leftarrow> char_at str j;
       if b = 0 then Some Ends
       else if char_int sg p \<noteq> uint (charmap b) then Some Differs
       else match_here sg pt str (j + 1)
     }"

text \<open>The outer loop. With an empty pattern a match of the two NULs would read past the pattern.\<close>

function OS_Match_loop :: "bool \<Rightarrow> cstring \<Rightarrow> cstring \<Rightarrow> nat \<Rightarrow> nat \<Rightarrow> bool option" where
  "OS_Match_loop sg pattern str i sz =
     do {
       b \<leftarrow> char_at str i;
       p \<leftarrow> char_at pattern 0;
       h \<leftarrow> (if uint (charmap b) = char_int sg p
              then (if pattern = [] then None else match_here sg (tl pattern) str (i + 1))
              else Some Differs);
       (case h of
          Whole \<Rightarrow> Some True
        | Ends \<Rightarrow> Some False
        | Differs \<Rightarrow> if i + 1 \<le> sz then OS_Match_loop sg pattern str (i + 1) sz else Some False)
     }"
  by pat_completeness auto
termination by (relation "measure (\<lambda>(sg, pattern, str, i, sz). sz - i)") auto

definition OS_Match' :: "bool \<Rightarrow> cstring \<Rightarrow> cstring \<Rightarrow> nat \<Rightarrow> nat \<Rightarrow> bool option" where
  "OS_Match' sg pattern str str_len sz =
     (if str_len < sz then Some False else OS_Match_loop sg pattern str 0 (str_len - sz))"

definition os_strncmp :: "cstring \<Rightarrow> cstring \<Rightarrow> nat \<Rightarrow> nat \<Rightarrow> bool" where
  "os_strncmp pattern str str_len sz = strncasecmp pattern str sz"

definition os_strcmp :: "cstring \<Rightarrow> cstring \<Rightarrow> nat \<Rightarrow> nat \<Rightarrow> bool" where
  "os_strcmp pattern str str_len sz = strcasecmp pattern str"

definition os_strmatch :: "cstring \<Rightarrow> cstring \<Rightarrow> nat \<Rightarrow> nat \<Rightarrow> bool" where
  "os_strmatch pattern str str_len sz = True"

definition os_strcmp_last :: "cstring \<Rightarrow> cstring \<Rightarrow> nat \<Rightarrow> nat \<Rightarrow> bool option" where
  "os_strcmp_last pattern str str_len sz =
     (if str_len < sz then Some False
      else if str_len - sz > length str then None
      else Some (strcasecmp pattern (drop (str_len - sz) str)))"

datatype matcher = Fp_OS_Match | Fp_strncmp | Fp_strcmp | Fp_strmatch | Fp_strcmp_last

text \<open>The arrays of sub-patterns, sizes and functions, up to the sub-pattern that is NULL.\<close>

record sub_pattern =
  ptext :: cstring
  psize :: nat
  match_fp :: matcher

record OSMatch =
  negate :: bool
  match_error :: int
  patterns :: "sub_pattern list"

definition apply_fp :: "bool \<Rightarrow> sub_pattern \<Rightarrow> cstring \<Rightarrow> nat \<Rightarrow> bool option" where
  "apply_fp sg sp str str_len =
     (case match_fp sp of
        Fp_OS_Match \<Rightarrow> OS_Match' sg (ptext sp) str str_len (psize sp)
      | Fp_strncmp \<Rightarrow> Some (os_strncmp (ptext sp) str str_len (psize sp))
      | Fp_strcmp \<Rightarrow> Some (os_strcmp (ptext sp) str str_len (psize sp))
      | Fp_strmatch \<Rightarrow> Some (os_strmatch (ptext sp) str str_len (psize sp))
      | Fp_strcmp_last \<Rightarrow> os_strcmp_last (ptext sp) str str_len (psize sp))"

fun execute_loop :: "bool \<Rightarrow> bool \<Rightarrow> sub_pattern list \<Rightarrow> cstring \<Rightarrow> nat \<Rightarrow> bool option" where
  "execute_loop sg neg [] str str_len = Some neg"
| "execute_loop sg neg (sp # sps) str str_len =
     do {
       r \<leftarrow> apply_fp sg sp str str_len;
       if r then Some (\<not> neg) else execute_loop sg neg sps str str_len
     }"

definition OSMatch_Execute :: "bool \<Rightarrow> cstring \<Rightarrow> nat \<Rightarrow> OSMatch \<Rightarrow> bool option" where
  "OSMatch_Execute sg str str_len reg = execute_loop sg (negate reg) (patterns reg) str str_len"

subsection \<open>os\_match\_compile.c\<close>

definition OS_PATTERN_MAXSIZE :: nat where "OS_PATTERN_MAXSIZE = 20480"

definition compile_sub :: "cstring \<Rightarrow> sub_pattern" where
  "compile_sub new_str =
     (let dup = (if new_str \<noteq> [] \<and> hd new_str = 94 then tl new_str else new_str);
          cut = length dup - 1
      in if new_str \<noteq> [] \<and> hd new_str = 94 \<and> last new_str = 36
         then \<lparr>ptext = take cut dup, psize = cut, match_fp = Fp_strcmp\<rparr>
         else if new_str = [] then \<lparr>ptext = dup, psize = 0, match_fp = Fp_strmatch\<rparr>
         else if last new_str = 36 then \<lparr>ptext = take cut dup, psize = cut, match_fp = Fp_strcmp_last\<rparr>
         else if hd new_str = 94 then \<lparr>ptext = dup, psize = length dup, match_fp = Fp_strncmp\<rparr>
         else \<lparr>ptext = dup, psize = length dup, match_fp = Fp_OS_Match\<rparr>)"

text \<open>\<open>cur\<close> is what was read since \<^verbatim>\<open>new_str\<close>.\<close>

fun compile_loop :: "cstring \<Rightarrow> cstring \<Rightarrow> sub_pattern list" where
  "compile_loop cur [] = [compile_sub cur]"
| "compile_loop cur (c # pt) = (if c = 124 then compile_sub cur # compile_loop [] pt else compile_loop (cur @ [c]) pt)"

text \<open>\<open>cs\<close> is the flag \<^verbatim>\<open>OS_CASE_SENSITIVE\<close>; the error is the code left when the compilation fails.\<close>

definition OSMatch_Compile :: "cstring \<Rightarrow> bool \<Rightarrow> int + OSMatch" where
  "OSMatch_Compile raw cs =
     (if length raw > OS_PATTERN_MAXSIZE then Inl 3
      else
        (let neg = (raw \<noteq> [] \<and> hd raw = 33);
             new_str = (if neg then tl raw else raw)
         in Inr \<lparr>negate = neg, match_error = 0, patterns = compile_loop [] (if cs then new_str else map charmap new_str)\<rparr>))"

definition OS_Match2 :: "bool \<Rightarrow> cstring \<Rightarrow> cstring \<Rightarrow> bool option" where
  "OS_Match2 sg pattern str =
     (case OSMatch_Compile pattern False of Inl _ \<Rightarrow> Some False | Inr reg \<Rightarrow> OSMatch_Execute sg str (length str) reg)"

subsection \<open>os\_regex\_match.c\<close>

text \<open>The inner loop ends at the byte after the word, a \<^verbatim>\<open>|\<close> or the NUL.\<close>

fun word_here :: "byte \<Rightarrow> cstring \<Rightarrow> cstring \<Rightarrow> hit" where
  "word_here last_char pt st =
     (case pt of
        [] \<Rightarrow> if last_char = 0 then Whole else (case st of [] \<Rightarrow> Ends | b # _ \<Rightarrow> Differs)
      | p # pt1 \<Rightarrow>
          if p = last_char then Whole
          else (case st of
              [] \<Rightarrow> Ends
            | b # st1 \<Rightarrow> if charmap p \<noteq> charmap b then Differs else word_here last_char pt1 st1))"

fun word_loop :: "byte \<Rightarrow> cstring \<Rightarrow> cstring \<Rightarrow> bool" where
  "word_loop last_char pattern [] = False"
| "word_loop last_char pattern (b # st) =
     (case (if charmap b = charmap (hd pattern) then word_here last_char (tl pattern) st else Differs) of
        Whole \<Rightarrow> True
      | Ends \<Rightarrow> False
      | Differs \<Rightarrow> word_loop last_char pattern st)"

definition InternalMatch :: "cstring \<Rightarrow> cstring \<Rightarrow> nat \<Rightarrow> bool" where
  "InternalMatch pattern str pattern_size =
     (let last_char = (if pattern_size < length pattern then pattern ! pattern_size else 0)
      in if pattern = [] then True
         else if hd pattern = 94 then strncasecmp (tl pattern) str (pattern_size - 1)
         else if str = [] then False
         else word_loop last_char pattern str)"

text \<open>\<open>count\<close> bytes of the pattern are behind; the loop ends at its NUL.\<close>

function word_match_loop :: "cstring \<Rightarrow> cstring \<Rightarrow> nat \<Rightarrow> bool" where
  "word_match_loop pattern str count =
     (if count < length pattern then
        (if pattern ! count = 124 then
           (if InternalMatch pattern str count then True else word_match_loop (drop (count + 1) pattern) str 0)
         else word_match_loop pattern str (count + 1))
      else InternalMatch pattern str count)"
  by pat_completeness auto
termination by (relation "measure (\<lambda>(pattern, str, count). length pattern - count)") auto

definition OS_WordMatch :: "cstring \<Rightarrow> cstring \<Rightarrow> bool" where
  "OS_WordMatch pattern str = (if pattern = [] then False else word_match_loop pattern str 0)"

declare OS_Match_loop.simps [simp del] word_here.simps [simp del] word_match_loop.simps [simp del]

subsection \<open>What a pattern means\<close>

text \<open>
  The alternatives of a pattern, and when one of them matches a text: equal to it, a prefix, a suffix or a
  sublist, up to case. On a platform with signed characters a word without anchors that has a byte
  above 127 matches nothing.
\<close>

fun alternatives :: "cstring \<Rightarrow> cstring list" where
  "alternatives [] = [[]]"
| "alternatives (c # cs) = (if c = 124 then [] # alternatives cs else (c # hd (alternatives cs)) # tl (alternatives cs))"

abbreviation lower :: "cstring \<Rightarrow> cstring" where
  "lower s \<equiv> map tolower s"

definition alt_matches :: "bool \<Rightarrow> cstring \<Rightarrow> cstring \<Rightarrow> bool" where
  "alt_matches sg q s \<longleftrightarrow>
     (let b = (q \<noteq> [] \<and> hd q = 94); e = (q \<noteq> [] \<and> last q = 36)
      in if b \<and> e then lower (butlast (tl q)) = lower s
         else if b then prefix (lower (tl q)) (lower s)
         else if e then suffix (lower (butlast q)) (lower s)
         else sublist q (lower s) \<and> (sg \<longrightarrow> (\<forall>c \<in> set q. c < 128)))"

lemma charmap_tolower: "charmap c = tolower c"
proof -
  have b: "unat c < 256" using unsigned_less[of c] by simp
  have lim: "65 \<le> c \<longleftrightarrow> 65 \<le> unat c" "c \<le> 90 \<longleftrightarrow> unat c \<le> 90" by (simp_all add: word_le_nat_alt)
  consider "unat c < 65" | "65 \<le> unat c" "unat c < 91" | "91 \<le> unat c" by linarith
  then show ?thesis
  proof cases
    case 1
    then show ?thesis by (simp add: charmap_def charmap_table_def tolower_def nth_append lim del: upt_rec_numeral)
  next
    case 2
    then have "unat c - 65 < 26" by simp
    with 2 have "charmap c = of_nat (97 + (unat c - 65))" by (simp add: charmap_def charmap_table_def nth_append del: upt_rec_numeral)
    also have "97 + (unat c - 65) = unat c + 32" using 2 by simp
    finally show ?thesis using 2 by (simp add: tolower_def lim)
  next
    case 3
    then have "\<not> unat c - 65 < 26" "unat c - 65 - 26 = unat c - 91" by simp_all
    with 3 have "charmap c = of_nat (91 + (unat c - 91))" using b by (simp add: charmap_def charmap_table_def nth_append del: upt_rec_numeral)
    then show ?thesis using 3 by (simp add: tolower_def lim)
  qed
qed

declare charmap_tolower [code]

lemma char_int_iff: "char_int sg p = uint q \<longleftrightarrow> p = q \<and> (sg \<longrightarrow> p < 128)"
proof -
  have "uint p - 256 < 0" "0 \<le> uint q" using uint_lt2p[of p] by simp_all
  then have "uint p - 256 \<noteq> uint q" by linarith
  then show ?thesis by (auto simp: char_int_def word_uint_eq_iff not_less)
qed

lemma tolower_0 [simp]: "tolower c = 0 \<longleftrightarrow> c = 0"
proof
  assume "tolower c = 0"
  moreover have False if "65 \<le> c" "c \<le> 90" "c + 32 = 0"
  proof -
    from that(3) have "c = - 32" by (simp add: eq_neg_iff_add_eq_0)
    with that(2) show False by simp
  qed
  ultimately show "c = 0" by (auto simp: tolower_def split: if_splits)
qed (simp add: tolower_def)

subsection \<open>The search\<close>

lemma nth_nonul: "0 \<notin> set (s :: cstring) \<Longrightarrow> i < length s \<Longrightarrow> s ! i \<noteq> 0"
  by (metis nth_mem)

lemma match_here_fits:
  "0 \<notin> set str \<Longrightarrow> j + length pt \<le> length str \<Longrightarrow> match_here sg pt str j
    = Some (if take (length pt) (drop j (lower str)) = pt \<and> (sg \<longrightarrow> (\<forall>c \<in> set pt. c < 128)) then Whole else Differs)"
proof (induction pt arbitrary: j)
  case (Cons p pt)
  then have j: "char_at str j = Some (str ! j)" "str ! j \<noteq> 0" "drop j (lower str) = tolower (str ! j) # drop (j + 1) (lower str)"
    using nth_nonul[of str j] by (auto simp: char_at_def Cons_nth_drop_Suc[symmetric])
  have "char_int sg p = uint (charmap (str ! j)) \<longleftrightarrow> p = tolower (str ! j) \<and> (sg \<longrightarrow> p < 128)"
    by (simp add: char_int_iff charmap_tolower)
  moreover have "match_here sg pt str (j + 1)
      = Some (if take (length pt) (drop (j + 1) (lower str)) = pt \<and> (sg \<longrightarrow> (\<forall>c \<in> set pt. c < 128)) then Whole else Differs)"
    using Cons by simp
  ultimately show ?case using j by auto
qed simp

lemma OS_Match_loop_finds:
  assumes "0 \<notin> set str" "pattern \<noteq> []" "length pattern \<le> length str" "i \<le> length str - length pattern"
  shows "OS_Match_loop sg pattern str i (length str - length pattern)
    = Some ((\<exists>k \<ge> i. k + length pattern \<le> length str \<and> take (length pattern) (drop k (lower str)) = pattern)
        \<and> (sg \<longrightarrow> (\<forall>c \<in> set pattern. c < 128)))"
  using assms(4)
proof (induction "length str - length pattern - i" arbitrary: i rule: less_induct)
  case less
  let ?at = "\<lambda>k. take (length pattern) (drop k (lower str)) = pattern" and ?asc = "sg \<longrightarrow> (\<forall>c \<in> set pattern. c < 128)"
  obtain p pt where p: "pattern = p # pt" using assms(2) by (cases pattern) auto
  have fits: "i + length pattern \<le> length str" using less.prems assms(3) by simp
  then have i: "i < length str" using p by simp
  have c: "char_at str i = Some (str ! i)" "str ! i \<noteq> 0" "char_at pattern 0 = Some p"
    using i assms(1) p nth_nonul[of str i] by (auto simp: char_at_def)
  have here: "match_here sg pattern str i = Some (if ?at i \<and> ?asc then Whole else Differs)"
    by (rule match_here_fits[OF assms(1) fits])
  have h: "(if uint (charmap (str ! i)) = char_int sg p then (if pattern = [] then None else match_here sg (tl pattern) str (i + 1))
      else Some Differs) = Some (if ?at i \<and> ?asc then Whole else Differs)"
    using here c p by (auto split: if_splits)
  have split: "(\<exists>k \<ge> i. k + length pattern \<le> length str \<and> ?at k) \<longleftrightarrow> ?at i \<or> (\<exists>k \<ge> i + 1. k + length pattern \<le> length str \<and> ?at k)"
    using fits by (metis Suc_eq_plus1 le_eq_less_or_eq less_eq_Suc_le order_refl)
  show ?case
  proof (cases "i + 1 \<le> length str - length pattern")
    case True
    then have "OS_Match_loop sg pattern str (i + 1) (length str - length pattern)
        = Some ((\<exists>k \<ge> i + 1. k + length pattern \<le> length str \<and> ?at k) \<and> ?asc)"
      by (intro less.hyps) auto
    then show ?thesis unfolding split OS_Match_loop.simps[of sg pattern str i] c(1,3) Option.bind.bind_lunit h using True by auto
  next
    case False
    then have "\<not> (\<exists>k \<ge> i + 1. k + length pattern \<le> length str \<and> ?at k)" using assms(3) by auto
    then show ?thesis unfolding split OS_Match_loop.simps[of sg pattern str i] c(1,3) Option.bind.bind_lunit h using False by auto
  qed
qed

lemma sublist_at_iff: "sublist xs ys \<longleftrightarrow> (\<exists>k. k + length xs \<le> length ys \<and> take (length xs) (drop k ys) = xs)"
proof
  assume "sublist xs ys"
  then obtain us vs where "ys = us @ xs @ vs" by (auto simp: sublist_def)
  then show "\<exists>k. k + length xs \<le> length ys \<and> take (length xs) (drop k ys) = xs" by (intro exI[of _ "length us"]) simp
next
  assume "\<exists>k. k + length xs \<le> length ys \<and> take (length xs) (drop k ys) = xs"
  then show "sublist xs ys" by (metis sublist_drop sublist_order.order_trans sublist_take)
qed

lemma OS_Match'_spec:
  assumes "0 \<notin> set str" "pat \<noteq> []"
  shows "OS_Match' sg pat str (length str) (length pat) = Some (sublist pat (lower str) \<and> (sg \<longrightarrow> (\<forall>c \<in> set pat. c < 128)))"
proof (cases "length str < length pat")
  case True
  then have "\<not> sublist pat (lower str)" by (auto dest: sublist_length_le)
  with True show ?thesis by (simp add: OS_Match'_def)
next
  case False
  then show ?thesis using OS_Match_loop_finds[OF assms, of 0 sg] by (simp add: OS_Match'_def sublist_at_iff)
qed

subsection \<open>Compiled patterns\<close>

lemma prefix_take_iff: "prefix xs ys \<longleftrightarrow> take (length xs) ys = xs"
  by (metis append_eq_conv_conj prefix_def take_is_prefix)

lemma suffix_drop_iff: "suffix xs ys \<longleftrightarrow> length xs \<le> length ys \<and> drop (length ys - length xs) ys = xs"
  by (metis append_eq_conv_conj diff_diff_cancel length_append length_drop suffix_def suffix_drop suffix_length_le add_diff_cancel_right')

lemma alternatives_ne [simp]: "alternatives s \<noteq> []"
  by (cases s) auto

lemma alternatives_cons: "124 \<notin> set w \<Longrightarrow> alternatives (w @ s) = (w @ hd (alternatives s)) # tl (alternatives s)"
  by (induction w) auto

lemma compile_loop_spec: "compile_loop cur s = compile_sub (cur @ hd (alternatives s)) # map compile_sub (tl (alternatives s))"
proof (induction cur s rule: compile_loop.induct)
  case (2 cur c pt)
  then show ?case by (cases "alternatives pt") auto
qed simp

lemma apply_compile_sub:
  assumes "0 \<notin> set s"
  shows "apply_fp sg (compile_sub q) s (length s) = Some (alt_matches sg q s)"
proof -
  consider (empty) "q = []" | (both) w where "q = 94 # w @ [36]" | (start) w where "q = 94 # w" "last q \<noteq> 36"
    | (finish) w where "q = w @ [36]" "hd q \<noteq> 94" | (plain) "q \<noteq> []" "hd q \<noteq> 94" "last q \<noteq> 36"
  proof (cases "q = []")
    case False
    show thesis
    proof (cases "hd q = 94"; cases "last q = 36")
      assume "hd q = 94" "last q = 36"
      then have "q = 94 # butlast (tl q) @ [36]" using False
        by (cases q) (auto split: if_splits, metis append_butlast_last_id)
      then show thesis by (rule both)
    next
      assume "hd q = 94" "last q \<noteq> 36"
      then show thesis using False start[of "tl q"] by (cases q) auto
    next
      assume "hd q \<noteq> 94" "last q = 36"
      then show thesis using False finish[of "butlast q"] append_butlast_last_id[of q] by auto
    next
      assume "hd q \<noteq> 94" "last q \<noteq> 36"
      then show thesis using False plain by blast
    qed
  qed (rule empty)
  then show ?thesis
  proof cases
    case both
    then show ?thesis by (simp add: apply_fp_def compile_sub_def alt_matches_def os_strcmp_def strcasecmp_def)
  next
    case start
    then show ?thesis
      by (auto simp: apply_fp_def compile_sub_def alt_matches_def os_strncmp_def strncasecmp_def prefix_take_iff take_map Let_def)
  next
    case finish
    then show ?thesis
      by (auto simp: apply_fp_def compile_sub_def alt_matches_def os_strcmp_last_def strcasecmp_def suffix_drop_iff drop_map Let_def)
  next
    case plain
    then show ?thesis using OS_Match'_spec[OF assms plain(1), of sg]
      by (simp add: apply_fp_def compile_sub_def alt_matches_def Let_def)
  qed (simp add: apply_fp_def compile_sub_def alt_matches_def os_strmatch_def)
qed

lemma execute_loop_spec:
  "0 \<notin> set s \<Longrightarrow> execute_loop sg neg (map compile_sub qs) s (length s) = Some (neg \<noteq> (\<exists>q \<in> set qs. alt_matches sg q s))"
  by (induction qs) (auto simp: apply_compile_sub)

subsection \<open>Word patterns\<close>

definition word_matches :: "cstring \<Rightarrow> cstring \<Rightarrow> bool" where
  "word_matches w s \<longleftrightarrow> (if w = [] then True else if hd w = 94 then prefix (lower (tl w)) (lower s) else sublist (lower w) (lower s))"

lemma word_here_spec:
  assumes "rest = [] \<and> e = 0 \<or> rest \<noteq> [] \<and> hd rest = e"
  shows "e \<notin> set w \<Longrightarrow> (word_here e (w @ rest) st = Whole \<longleftrightarrow> prefix (lower w) (lower st))
    \<and> (word_here e (w @ rest) st = Ends \<longrightarrow> length st < length w)"
proof (induction w arbitrary: st)
  case Nil
  then show ?case using assms by (cases rest) (auto simp: word_here.simps)
next
  case (Cons c w)
  then show ?case by (cases st) (auto simp: word_here.simps[of e "c # w @ rest"] charmap_tolower)
qed

lemma word_loop_spec:
  assumes "rest = [] \<and> e = 0 \<or> rest \<noteq> [] \<and> hd rest = e" "e \<notin> set w"
  shows "word_loop e (p # w @ rest) st \<longleftrightarrow> sublist (lower (p # w)) (lower st)"
proof (induction st)
  case (Cons b st)
  note W = word_here_spec[OF assms, of st]
  have "\<not> sublist (lower (p # w)) (lower st)" if "length st < length w"
    using that sublist_length_le[of "lower (p # w)" "lower st"] by auto
  then show ?case using W Cons by (auto simp: charmap_tolower sublist_Cons_right split: hit.splits)
qed simp

lemma InternalMatch_spec:
  assumes "w \<noteq> []" "rest = [] \<and> 0 \<notin> set w \<or> rest \<noteq> [] \<and> hd rest \<notin> set w"
  shows "InternalMatch (w @ rest) str (length w) \<longleftrightarrow> word_matches w str"
proof -
  obtain p v where w: "w = p # v" using assms(1) by (cases w) auto
  let ?e = "if rest = [] then 0 else hd rest"
  have e: "(if length w < length (w @ rest) then (w @ rest) ! length w else 0) = ?e"
    by (cases rest) (auto simp: nth_append)
  have "word_loop ?e (p # v @ rest) str \<longleftrightarrow> sublist (lower (p # v)) (lower str)"
    by (rule word_loop_spec) (use assms(2) w in auto)
  then show ?thesis unfolding InternalMatch_def e Let_def using w
    by (auto simp: word_matches_def strncasecmp_def prefix_take_iff take_map)
qed

lemma word_match_loop_spec:
  assumes "count \<le> length pattern" "124 \<notin> set (take count pattern)" "0 \<notin> set pattern" "[] \<notin> set (butlast (alternatives pattern))"
  shows "word_match_loop pattern str count \<longleftrightarrow> (\<exists>w \<in> set (alternatives pattern). word_matches w str)"
  using assms
proof (induction pattern str count rule: word_match_loop.induct)
  case (1 pattern str count)
  show ?case
  proof (cases "count < length pattern")
    case False
    with "1.prems" have all: "count = length pattern" "124 \<notin> set pattern" by auto
    then have "alternatives pattern = [pattern]" using alternatives_cons[of pattern "[]"] by simp
    moreover have "InternalMatch pattern str (length pattern) \<longleftrightarrow> word_matches pattern str"
      using InternalMatch_spec[of pattern "[]" str] "1.prems"(3) by (cases "pattern = []") (auto simp: InternalMatch_def word_matches_def)
    ultimately show ?thesis using all(1) by (simp add: word_match_loop.simps)
  next
    case True
    show ?thesis
    proof (cases "pattern ! count = 124")
      case bar: True
      let ?w = "take count pattern" and ?r = "drop (count + 1) pattern"
      have p: "pattern = ?w @ 124 # ?r" using id_take_nth_drop[OF True] bar by simp
      then have a: "alternatives pattern = ?w # alternatives ?r" using alternatives_cons[OF "1.prems"(2), of "124 # ?r"] by simp
      have "?w \<noteq> []" using "1.prems"(4) a by auto
      then have "InternalMatch pattern str count \<longleftrightarrow> word_matches ?w str"
        using InternalMatch_spec[of ?w "124 # ?r" str] p "1.prems"(1,2) by (simp add: min_def split: if_splits)
      moreover have "[] \<notin> set (butlast (alternatives ?r))" "0 \<notin> set ?r" using "1.prems"(3,4) a by (auto dest: in_set_dropD)
      ultimately show ?thesis using "1.IH"(1)[OF True bar] True bar a by (auto simp: word_match_loop.simps[of pattern str count])
    next
      case other: False
      then have "124 \<notin> set (take (count + 1) pattern)" using True "1.prems"(2) by (auto simp: take_Suc_conv_app_nth)
      then show ?thesis using "1.IH"(2)[OF True other] True other "1.prems" by (simp add: word_match_loop.simps[of pattern str count])
    qed
  qed
qed

subsection \<open>The theorems\<close>

text \<open>The pattern without the \<^verbatim>\<open>!\<close> in front, in lower case unless the flag says not to.\<close>

definition pattern_body :: "cstring \<Rightarrow> bool \<Rightarrow> cstring" where
  "pattern_body pat cs = (let body = (if pat \<noteq> [] \<and> hd pat = 33 then tl pat else pat) in if cs then body else lower body)"

lemma compile_spec:
  "length pat \<le> OS_PATTERN_MAXSIZE \<Longrightarrow> OSMatch_Compile pat cs
    = Inr \<lparr>negate = (pat \<noteq> [] \<and> hd pat = 33), match_error = 0, patterns = map compile_sub (alternatives (pattern_body pat cs))\<rparr>"
proof -
  have "compile_loop [] x = map compile_sub (alternatives x)" for x
    using compile_loop_spec[of "[]" x] by (cases "alternatives x") auto
  moreover have "charmap = tolower" by (rule ext) (rule charmap_tolower)
  moreover assume "length pat \<le> OS_PATTERN_MAXSIZE"
  ultimately show ?thesis by (simp add: OSMatch_Compile_def pattern_body_def Let_def)
qed

lemma compile_execute:
  assumes "0 \<notin> set s" "length pat \<le> OS_PATTERN_MAXSIZE"
  shows "(case OSMatch_Compile pat cs of Inl _ \<Rightarrow> Some False | Inr reg \<Rightarrow> OSMatch_Execute sg s (length s) reg)
    = Some ((pat \<noteq> [] \<and> hd pat = 33) \<noteq> (\<exists>q \<in> set (alternatives (pattern_body pat cs)). alt_matches sg q s))"
  using execute_loop_spec[OF assms(1)] by (simp add: compile_spec[OF assms(2)] OSMatch_Execute_def)



text \<open>With signed characters the two bytes of an e with an accent are not found in themselves, unless they are
  anchored; and a pattern in upper case that is compiled as case sensitive does not match itself.\<close>

lemma os_match_surprises:
  "OS_Match2 True [195, 169] [195, 169] = Some False" "OS_Match2 False [195, 169] [195, 169] = Some True"
  "OS_Match2 True [94, 195, 169] [195, 169] = Some True"
  "(case OSMatch_Compile [65] True of Inr reg \<Rightarrow> OSMatch_Execute True [65] 1 reg | Inl _ \<Rightarrow> Some False) = Some False"
  using compile_execute[of "[195, 169]" "[195, 169]" True False] compile_execute[of "[195, 169]" "[195, 169]" False False]
    compile_execute[of "[195, 169]" "[94, 195, 169]" True False] compile_execute[of "[65]" "[65]" True True]
  by (simp_all add: OS_Match2_def OS_PATTERN_MAXSIZE_def pattern_body_def alt_matches_def tolower_def sublist_Cons_right
      split: sum.splits if_splits)



text \<open>An empty alternative in front of a bar looks for the bar.\<close>

lemma os_word_match_empty_alternative:
  "\<not> OS_WordMatch [124, 120] [97]" "OS_WordMatch [120, 124] [97]" "OS_WordMatch [124, 124, 120] [97, 124]"
  by code_simp+

end
