(* ===== verification/Str_Break.thy ===== *)
theory Str_Break
  imports Os_Match
begin

text \<open>
  The string functions of \<^verbatim>\<open>os_regex/os_regex_strbreak.c\<close>, \<^verbatim>\<open>os_regex_str.c\<close> and \<^verbatim>\<open>os_regex_startswith.c\<close>.
  The main one splits a string at a character, up to a number of pieces; a backslash in front of the
  character keeps it in the piece. The theorem is the round trip with joining the pieces.
\<close>

subsection \<open>The model\<close>

text \<open>
  The loop of \<^verbatim>\<open>OS_StrBreak\<close>: the pieces copied so far, the bytes of the current piece, the byte before the
  next one (\<^verbatim>\<open>str_ant\<close>) and the rest. \<open>None\<close> is a copy or a store out of bounds: the piece cannot lose its
  last byte when it has none, and the array has \<open>size + 1\<close> cells. The bound \<^verbatim>\<open>size - 1\<close> is unsigned.
\<close>

definition more_pieces :: "nat \<Rightarrow> cstring list \<Rightarrow> bool" where
  "more_pieces n pieces \<longleftrightarrow> (if n = 0 then True else length pieces < n - 1)"

fun str_break_loop :: "byte \<Rightarrow> nat \<Rightarrow> cstring list \<Rightarrow> cstring \<Rightarrow> byte option \<Rightarrow> cstring \<Rightarrow> cstring list option option" where
  "str_break_loop mt n pieces cur ant [] = Some (if length pieces < n then Some (pieces @ [cur]) else None)"
| "str_break_loop mt n pieces cur ant (c # str) =
     (if more_pieces n pieces \<and> c = mt \<and> ant = Some 92 then
        (if cur = [] then None else str_break_loop mt n pieces (butlast cur @ [mt]) (Some mt) str)
      else if more_pieces n pieces \<and> c = mt then
        (if length pieces \<le> n then str_break_loop mt n (pieces @ [cur]) [] (Some c) str else None)
      else str_break_loop mt n pieces (cur @ [c]) (Some c) str)"

definition OS_StrBreak :: "byte \<Rightarrow> cstring \<Rightarrow> nat \<Rightarrow> cstring list option option" where
  "OS_StrBreak mt str n = str_break_loop mt n [] [] None str"

fun OS_StrIsNum :: "cstring \<Rightarrow> bool" where
  "OS_StrIsNum [] = True"
| "OS_StrIsNum (c # str) = (if \<not> (48 \<le> c \<and> c \<le> 57) then False else OS_StrIsNum str)"

fun OS_StrStartsWith :: "cstring \<Rightarrow> cstring \<Rightarrow> bool" where
  "OS_StrStartsWith str [] = True"
| "OS_StrStartsWith str (p # pattern) =
     (case str of [] \<Rightarrow> False | c # str1 \<Rightarrow> if p \<noteq> c then False else OS_StrStartsWith str1 pattern)"

text \<open>The NULs of two empty strings are equal, and the loop goes on to read past them.\<close>

function how_closed :: "cstring \<Rightarrow> cstring \<Rightarrow> nat \<Rightarrow> nat option" where
  "how_closed a b count =
     do {
       x \<leftarrow> char_at a count;
       y \<leftarrow> char_at b count;
       if x \<noteq> y then Some count
       else if count + 1 < length a \<and> count + 1 < length b then how_closed a b (count + 1)
       else if count + 1 > length a \<or> count + 1 > length b then None
       else Some (count + 1)
     }"
  by pat_completeness auto
termination by (relation "measure (\<lambda>(a, b, count). length a - count)") auto

definition OS_StrHowClosedMatch :: "cstring \<Rightarrow> cstring \<Rightarrow> nat option" where
  "OS_StrHowClosedMatch a b = how_closed a b 0"

subsection \<open>Splitting and joining\<close>

text \<open>A piece with its separators escaped, and the pieces with separators between them.\<close>

definition escape :: "byte \<Rightarrow> cstring \<Rightarrow> cstring" where
  "escape mt p = concat (map (\<lambda>c. if c = mt then [92, mt] else [c]) p)"

fun join :: "byte \<Rightarrow> cstring list \<Rightarrow> cstring" where
  "join mt [] = []"
| "join mt [p] = escape mt p"
| "join mt (p # q # ps) = escape mt p @ mt # join mt (q # ps)"

lemma str_break_piece:
  assumes "mt \<noteq> 92" "more_pieces n pieces"
  shows "str_break_loop mt n pieces cur ant (escape mt p @ r)
    = str_break_loop mt n pieces (cur @ p) (if p = [] then ant else Some (last p)) r"
proof (induction p arbitrary: cur ant)
  case (Cons c p)
  then show ?case using assms by (auto simp: escape_def)
qed (simp add: escape_def)

lemma str_break_join:
  assumes "mt \<noteq> 92" "ps \<noteq> []" "length pieces + length ps < n" "ant \<noteq> Some 92" "\<forall>p \<in> set (butlast ps). p = [] \<or> last p \<noteq> 92"
  shows "str_break_loop mt n pieces [] ant (join mt ps) = Some (Some (pieces @ ps))"
  using assms
proof (induction mt ps arbitrary: pieces ant rule: join.induct)
  case (2 mt p)
  then have "more_pieces n pieces" by (auto simp: more_pieces_def)
  then show ?case using str_break_piece[of mt n pieces "[]" ant p "[]"] 2 by simp
next
  case (3 mt p q ps)
  then have "more_pieces n pieces" by (auto simp: more_pieces_def)
  then show ?case using str_break_piece[of mt n pieces "[]" ant p "mt # join mt (q # ps)"] 3 by auto
qed simp

lemma str_break_bound:
  "str_break_loop mt n pieces cur ant str = Some (Some ps) \<Longrightarrow> length pieces \<le> n \<Longrightarrow> 0 < n \<Longrightarrow> ps \<noteq> [] \<and> length ps \<le> n"
  by (induction mt n pieces cur ant str rule: str_break_loop.induct) (auto simp: more_pieces_def split: if_splits)



text \<open>When the separator is the backslash, two of them in a row copy with a negative length.\<close>

lemma str_break_backslash: "OS_StrBreak 92 [97, 92, 92, 98] 4 = None"
  by (simp add: OS_StrBreak_def more_pieces_def)

subsection \<open>The other functions\<close>

lemma OS_StrIsNum_iff: "OS_StrIsNum s \<longleftrightarrow> (\<forall>c \<in> set s. 48 \<le> c \<and> c \<le> 57)"
  by (induction s) auto

lemma OS_StrStartsWith_iff: "OS_StrStartsWith s p \<longleftrightarrow> prefix p s"
  by (induction s p rule: OS_StrStartsWith.induct) (auto split: list.splits)

lemma OS_StrHowClosedMatch_empty: "OS_StrHowClosedMatch [] [] = None"
  by (simp add: OS_StrHowClosedMatch_def how_closed.simps char_at_def)

lemma how_closed_spec:
  assumes "0 \<notin> set a" "0 \<notin> set b" "count < length a" "count < length b" "take count a = take count b"
  shows "\<exists>m. how_closed a b count = Some m \<and> take m a = take m b \<and> m \<le> length a \<and> m \<le> length b
    \<and> (m < length a \<and> m < length b \<longrightarrow> a ! m \<noteq> b ! m)"
  using assms
proof (induction a b count rule: how_closed.induct)
  case (1 a b count)
  have c: "char_at a count = Some (a ! count)" "char_at b count = Some (b ! count)" using "1.prems" by (simp_all add: char_at_def)
  have eq: "take (count + 1) a = take (count + 1) b" if "a ! count = b ! count"
    using that "1.prems"(3-5) by (simp add: take_Suc_conv_app_nth)
  show ?case
  proof (cases "a ! count = b ! count \<and> count + 1 < length a \<and> count + 1 < length b")
    case True
    then show ?thesis using "1.IH"[OF c _ _ "1.prems"(1,2)] eq by (subst how_closed.simps) (simp add: c)
  next
    case False
    then show ?thesis using eq "1.prems" by (subst how_closed.simps) (auto simp: c not_less)
  qed
qed

end
