(* ===== verification/Os_Hash.thy ===== *)
theory Os_Hash
  imports Os_Match
begin

text \<open>
  The chained hash table of \<^verbatim>\<open>hash_op.c\<close>, with the primes of \<^verbatim>\<open>math_op.c\<close> for its rows and seeds. The nodes of
  a row are linked objects of an explicit heap; \<open>None\<close> is a bad pointer, a division by zero or a loop that
  does not end. A datum is a pointer that can be NULL, and \<^verbatim>\<open>free_data_function\<close> a boolean: the data it is
  called on are part of the results. \<open>sg\<close> tells whether \<^verbatim>\<open>char\<close> is signed, which the hash depends on. The
  operations with locks are those without, in one critical section. The theorems say that the table is a map
  whatever the hash does, that an iteration visits every key once and that freeing it disposes of all data.
\<close>

section \<open>The model\<close>

subsection \<open>math\_op.c\<close>

partial_function (option) prime_scan :: "uint32 \<Rightarrow> uint32 \<Rightarrow> uint32 \<Rightarrow> uint32 option" where
  "prime_scan val i max_i =
     (if i \<le> max_i then (if val mod i = 0 then Some i else prime_scan val (i + 2) max_i) else Some i)"

partial_function (option) getprime_loop :: "uint32 \<Rightarrow> uint32 option" where
  "getprime_loop val =
     do {
       i \<leftarrow> prime_scan val 3 (val div 2);
       if i \<ge> val div 2 then Some val
       else if val + 2 \<noteq> 0 then getprime_loop (val + 2)
       else Some 0
     }"

definition os_getprime :: "uint32 \<Rightarrow> uint32 option" where
  "os_getprime val = getprime_loop (if val mod 2 = 0 then val + 1 else val)"

subsection \<open>hash\_op.c\<close>

record 'v os_node =
  hnext :: "nat option"
  hprev :: "nat option"
  hkey :: cstring
  hdata :: "'v option"

record 'v os_hash =
  rows :: uint32
  initial_seed :: uint32
  hconstant :: uint32
  elements :: uint32
  free_data :: bool
  htable :: "nat option list"
  hheap :: "nat \<Rightarrow> 'v os_node option"
  hbrk :: nat

text \<open>The two numbers are those of \<^verbatim>\<open>os_random\<close>.\<close>

definition OSHash_Create :: "uint32 \<Rightarrow> uint32 \<Rightarrow> 'v os_hash option option" where
  "OSHash_Create rnd1 rnd2 =
     do {
       r \<leftarrow> os_getprime 32;
       if r = 0 then Some None
       else do {
         seed \<leftarrow> os_getprime (rnd1 mod r);
         c \<leftarrow> os_getprime (rnd2 mod r);
         Some (Some \<lparr>rows = r, initial_seed = seed, hconstant = c, elements = 0, free_data = False,
           htable = replicate (unat r + 1) None, hheap = Map.empty, hbrk = 0\<rparr>)
       }
     }"

definition OSHash_SetFreeDataPointer :: "'v os_hash \<Rightarrow> bool \<Rightarrow> 'v os_hash" where
  "OSHash_SetFreeDataPointer self f = self\<lparr>free_data := f\<rparr>"

definition os_genhash :: "bool \<Rightarrow> 'v os_hash \<Rightarrow> cstring \<Rightarrow> uint32" where
  "os_genhash sg self key = foldl (\<lambda>hash_key c. hash_key * hconstant self + of_int (char_int sg c)) (initial_seed self) key"

text \<open>The row of a key.\<close>

definition OSHash_GetIndex :: "bool \<Rightarrow> 'v os_hash \<Rightarrow> cstring \<Rightarrow> nat option" where
  "OSHash_GetIndex sg self key = (if rows self = 0 then None else Some (unat (os_genhash sg self key mod rows self)))"

text \<open>The walk along a row that every operation begins with: the node of the key and the one before it.\<close>

partial_function (option) row_find ::
    "(nat \<Rightarrow> 'v os_node option) \<Rightarrow> cstring \<Rightarrow> nat option \<Rightarrow> nat option \<Rightarrow> (nat \<times> nat option) option option" where
  "row_find heap key curr_node prev_node =
     (case curr_node of
        None \<Rightarrow> Some None
      | Some a \<Rightarrow> do {
          n \<leftarrow> heap a;
          if hkey n = key then Some (Some (a, prev_node)) else row_find heap key (hnext n) (Some a)
        })"

definition table_at :: "'v os_hash \<Rightarrow> nat \<Rightarrow> nat option option" where
  "table_at self i = (if i < length (htable self) then Some (htable self ! i) else None)"

definition find_node :: "bool \<Rightarrow> 'v os_hash \<Rightarrow> cstring \<Rightarrow> (nat \<times> (nat \<times> nat option) option) option" where
  "find_node sg self key =
     do {
       i \<leftarrow> OSHash_GetIndex sg self key;
       p \<leftarrow> table_at self i;
       r \<leftarrow> row_find (hheap self) key p None;
       Some (i, r)
     }"

definition OSHash_Get :: "bool \<Rightarrow> 'v os_hash \<Rightarrow> cstring \<Rightarrow> 'v option option" where
  "OSHash_Get sg self key =
     do {
       (i, r) \<leftarrow> find_node sg self key;
       (case r of None \<Rightarrow> Some None | Some (a, _) \<Rightarrow> do { n \<leftarrow> hheap self a; Some (hdata n) })
     }"

definition set_node :: "nat \<Rightarrow> ('v os_node \<Rightarrow> 'v os_node) \<Rightarrow> 'v os_hash \<Rightarrow> 'v os_hash option" where
  "set_node a f self = do { n \<leftarrow> hheap self a; Some (self\<lparr>hheap := (hheap self)(a \<mapsto> f n)\<rparr>) }"

text \<open>What is returned, the data disposed of and the table.\<close>

definition OSHash_Update :: "bool \<Rightarrow> 'v os_hash \<Rightarrow> cstring \<Rightarrow> 'v option \<Rightarrow> (int \<times> 'v list \<times> 'v os_hash) option" where
  "OSHash_Update sg self key data =
     do {
       (i, r) \<leftarrow> find_node sg self key;
       (case r of
          None \<Rightarrow> Some (0, [], self)
        | Some (a, _) \<Rightarrow> do {
            n \<leftarrow> hheap self a;
            self1 \<leftarrow> set_node a (\<lambda>n. n\<lparr>hdata := data\<rparr>) self;
            Some (1, if free_data self then case_option [] (\<lambda>d. [d]) (hdata n) else [], self1)
          })
     }"

text \<open>A new node becomes the head of its row.\<close>

definition push_node :: "'v os_hash \<Rightarrow> nat \<Rightarrow> cstring \<Rightarrow> 'v option \<Rightarrow> 'v os_hash option" where
  "push_node self i key data =
     do {
       let a = hbrk self;
       p \<leftarrow> table_at self i;
       self1 \<leftarrow> (case p of None \<Rightarrow> Some self | Some h \<Rightarrow> set_node h (\<lambda>n. n\<lparr>hprev := Some a\<rparr>) self);
       Some (self1\<lparr>hheap := (hheap self1)(a \<mapsto> \<lparr>hnext = p, hprev = None, hkey = key, hdata = data\<rparr>), hbrk := a + 1,
         htable := (htable self1)[i := Some a], elements := elements self1 + 1\<rparr>)
     }"

definition OSHash_Add' :: "bool \<Rightarrow> 'v os_hash \<Rightarrow> cstring \<Rightarrow> 'v option \<Rightarrow> bool \<Rightarrow> (int \<times> 'v os_hash) option" where
  "OSHash_Add' sg self key data update =
     do {
       (i, r) \<leftarrow> find_node sg self key;
       (case r of
          Some (a, _) \<Rightarrow> do {
            self1 \<leftarrow> (if update then set_node a (\<lambda>n. n\<lparr>hdata := data\<rparr>) self else Some self);
            Some (1, self1)
          }
        | None \<Rightarrow> do { self1 \<leftarrow> push_node self i key data; Some (2, self1) })
     }"

definition OSHash_Add :: "bool \<Rightarrow> 'v os_hash \<Rightarrow> cstring \<Rightarrow> 'v option \<Rightarrow> (int \<times> 'v os_hash) option" where
  "OSHash_Add sg self key data = OSHash_Add' sg self key data False"

definition OSHash_Set :: "bool \<Rightarrow> 'v os_hash \<Rightarrow> cstring \<Rightarrow> 'v option \<Rightarrow> (int \<times> 'v os_hash) option" where
  "OSHash_Set sg self key data = OSHash_Add' sg self key data True"

definition OSHash_Delete :: "bool \<Rightarrow> 'v os_hash \<Rightarrow> cstring \<Rightarrow> ('v option \<times> 'v os_hash) option" where
  "OSHash_Delete sg self key =
     do {
       (i, r) \<leftarrow> find_node sg self key;
       (case r of
          None \<Rightarrow> Some (None, self)
        | Some (a, prev_node) \<Rightarrow> do {
            n \<leftarrow> hheap self a;
            self1 \<leftarrow> (case prev_node of
                None \<Rightarrow> Some (self\<lparr>htable := (htable self)[i := hnext n]\<rparr>)
              | Some b \<Rightarrow> set_node b (\<lambda>m. m\<lparr>hnext := hnext n\<rparr>) self);
            self2 \<leftarrow> (case hnext n of None \<Rightarrow> Some self1 | Some c \<Rightarrow> set_node c (\<lambda>m. m\<lparr>hprev := prev_node\<rparr>) self1);
            Some (hdata n, self2\<lparr>hheap := (hheap self2)(a := None), elements := elements self2 - 1\<rparr>)
          })
     }"

definition OSHash_Get_Elem_ex :: "'v os_hash \<Rightarrow> uint32" where
  "OSHash_Get_Elem_ex self = elements self"

text \<open>The variants that take the key in lower case (\<^verbatim>\<open>str_lowercase\<close>).\<close>

definition OSHash_Add_ins :: "bool \<Rightarrow> 'v os_hash \<Rightarrow> cstring \<Rightarrow> 'v option \<Rightarrow> (int \<times> 'v os_hash) option" where
  "OSHash_Add_ins sg self key data = OSHash_Add sg self (map tolower key) data"

definition OSHash_Get_ins :: "bool \<Rightarrow> 'v os_hash \<Rightarrow> cstring \<Rightarrow> 'v option option" where
  "OSHash_Get_ins sg self key = OSHash_Get sg self (map tolower key)"

definition OSHash_Delete_ins :: "bool \<Rightarrow> 'v os_hash \<Rightarrow> cstring \<Rightarrow> ('v option \<times> 'v os_hash) option" where
  "OSHash_Delete_ins sg self key = OSHash_Delete sg self (map tolower key)"

text \<open>A row is freed node by node: the data disposed of and the heap.\<close>

partial_function (option) free_row ::
    "bool \<Rightarrow> (nat \<Rightarrow> 'v os_node option) \<Rightarrow> nat option \<Rightarrow> ('v list \<times> (nat \<Rightarrow> 'v os_node option)) option" where
  "free_row f heap curr_node =
     (case curr_node of
        None \<Rightarrow> Some ([], heap)
      | Some a \<Rightarrow> do {
          n \<leftarrow> heap a;
          (ds, heap1) \<leftarrow> free_row f (heap(a := None)) (hnext n);
          Some ((if f then case_option [] (\<lambda>d. [d]) (hdata n) else []) @ ds, heap1)
        })"

fun free_rows :: "bool \<Rightarrow> (nat \<Rightarrow> 'v os_node option) \<Rightarrow> nat option list \<Rightarrow> ('v list \<times> (nat \<Rightarrow> 'v os_node option)) option" where
  "free_rows f heap [] = Some ([], heap)"
| "free_rows f heap (p # ps) =
     do { (ds, heap1) \<leftarrow> free_row f heap p; (es, heap2) \<leftarrow> free_rows f heap1 ps; Some (ds @ es, heap2) }"

text \<open>Freeing the table, and the nodes left.\<close>

definition OSHash_Free :: "'v os_hash \<Rightarrow> ('v list \<times> (nat \<Rightarrow> 'v os_node option)) option" where
  "OSHash_Free self = free_rows (free_data self) (hheap self) (htable self)"

text \<open>A larger table starts empty: the rows below the old size are freed, the count of elements stays.\<close>

definition OSHash_setSize :: "'v os_hash \<Rightarrow> uint32 \<Rightarrow> (int \<times> 'v list \<times> 'v os_hash) option" where
  "OSHash_setSize self new_size =
     (if new_size \<le> rows self then Some (1, [], self)
      else do {
        r \<leftarrow> os_getprime new_size;
        if r = 0 then Some (0, [], self\<lparr>rows := r\<rparr>)
        else do {
          (ds, heap) \<leftarrow> free_rows (free_data self) (hheap self) (take (unat (rows self)) (htable self));
          seed \<leftarrow> os_getprime (456 mod r);
          c \<leftarrow> os_getprime (789 mod r);
          Some (1, ds, self\<lparr>rows := r, initial_seed := seed, hconstant := c, hheap := heap, htable := replicate (unat r + 1) None\<rparr>)
        }
      })"

text \<open>Iteration: the node at the first row from \<open>i\<close> on that has one, and its row.\<close>

function next_row :: "'v os_hash \<Rightarrow> nat \<Rightarrow> (nat option \<times> nat) option" where
  "next_row self i =
     (if i \<le> unat (rows self) then do {
        p \<leftarrow> table_at self i;
        (case p of Some a \<Rightarrow> Some (Some a, i) | None \<Rightarrow> next_row self (i + 1))
      } else Some (None, i))"
  by pat_completeness auto
termination by (relation "measure (\<lambda>(self, i). Suc (unat (rows self)) - i)") auto

definition OSHash_Begin :: "'v os_hash \<Rightarrow> (nat option \<times> nat) option" where
  "OSHash_Begin self = next_row self 0"

definition OSHash_Next :: "'v os_hash \<Rightarrow> nat \<Rightarrow> nat \<Rightarrow> (nat option \<times> nat) option" where
  "OSHash_Next self i current =
     do {
       n \<leftarrow> hheap self current;
       (case hnext n of Some a \<Rightarrow> Some (Some a, i) | None \<Rightarrow> next_row self (i + 1))
     }"

declare prime_scan.simps [code] getprime_loop.simps [code] row_find.simps [code] free_row.simps [code]
declare next_row.simps [simp del]

section \<open>What a table stands for\<close>

text \<open>A row as the list of its nodes, from the head on.\<close>

record 'v os_cell =
  c_addr :: nat
  c_key :: cstring
  c_data :: "'v option"

definition first :: "'v os_cell list \<Rightarrow> nat option" where
  "first xs = (case xs of [] \<Rightarrow> None | c # _ \<Rightarrow> Some (c_addr c))"

fun chain :: "(nat \<Rightarrow> 'v os_node option) \<Rightarrow> 'v os_cell list \<Rightarrow> bool" where
  "chain h [] = True"
| "chain h (c # xs) \<longleftrightarrow> (\<exists>n. h (c_addr c) = Some n \<and> hnext n = first xs \<and> hkey n = c_key c \<and> hdata n = c_data c) \<and> chain h xs"

text \<open>
  Every row is a chain of nodes with distinct keys, each in the row of its hash; there are no other nodes, and
  the count of elements is exact.
\<close>

definition os_rep :: "bool \<Rightarrow> 'v os_hash \<Rightarrow> 'v os_cell list list \<Rightarrow> bool" where
  "os_rep sg s css \<longleftrightarrow> rows s \<noteq> 0 \<and> length (htable s) = Suc (unat (rows s)) \<and> length css = Suc (unat (rows s))
     \<and> (\<forall>i < length css. htable s ! i = first (css ! i) \<and> chain (hheap s) (css ! i) \<and> distinct (map c_key (css ! i))
          \<and> (\<forall>c \<in> set (css ! i). OSHash_GetIndex sg s (c_key c) = Some i))
     \<and> (\<forall>a. hheap s a \<noteq> None \<longrightarrow> a < hbrk s \<and> (\<exists>i < length css. a \<in> c_addr ` set (css ! i)))
     \<and> elements s = of_nat (sum_list (map length css))"

lemma os_repD:
  assumes "os_rep sg s css"
  shows "rows s \<noteq> 0" "length (htable s) = Suc (unat (rows s))" "length css = Suc (unat (rows s))"
    "elements s = of_nat (sum_list (map length css))"
  using assms by (simp_all add: os_rep_def)

lemma os_rep_rowD:
  assumes "os_rep sg s css" "i < length css"
  shows "htable s ! i = first (css ! i)" "chain (hheap s) (css ! i)" "distinct (map c_key (css ! i))"
    "c \<in> set (css ! i) \<Longrightarrow> OSHash_GetIndex sg s (c_key c) = Some i"
  using assms by (auto simp: os_rep_def)

lemma os_rep_domD:
  assumes "os_rep sg s css" "hheap s a \<noteq> None"
  shows "a < hbrk s" "\<exists>i < length css. a \<in> c_addr ` set (css ! i)"
  using assms unfolding os_rep_def by blast+

lemma first_simps [simp]: "first [] = None" "first (c # xs) = Some (c_addr c)"
  by (simp_all add: first_def)

lemma chain_node: "chain h xs \<Longrightarrow> c \<in> set xs \<Longrightarrow> \<exists>n. h (c_addr c) = Some n \<and> hkey n = c_key c \<and> hdata n = c_data c"
  by (induction xs) auto

lemma chain_cong: "(\<And>c. c \<in> set xs \<Longrightarrow> h' (c_addr c) = h (c_addr c)) \<Longrightarrow> chain h' xs = chain h xs"
  by (induction xs) auto

lemma chain_off [simp]: "a \<notin> c_addr ` set xs \<Longrightarrow> chain (h(a := v)) xs = chain h xs"
  by (rule chain_cong) auto

lemma chain_append: "chain h (xs @ c # ys) \<Longrightarrow> chain h (c # ys)"
  by (induction xs) auto

text \<open>Nodes of a row have different addresses, for they have different keys.\<close>

lemma chain_inj: "chain h xs \<Longrightarrow> distinct (map c_key xs) \<Longrightarrow> distinct (map c_addr xs)"
proof (induction xs)
  case (Cons c xs)
  then show ?case using chain_node[of h xs] by fastforce
qed simp

lemma row_find_absent: "chain h xs \<Longrightarrow> k \<notin> c_key ` set xs \<Longrightarrow> row_find h k (first xs) p = Some None"
  by (induction xs arbitrary: p) (auto simp: row_find.simps)

lemma row_find_present:
  "chain h (ys @ c # zs) \<Longrightarrow> k \<notin> c_key ` set ys \<Longrightarrow> c_key c = k \<Longrightarrow>
   row_find h k (first (ys @ c # zs)) p = Some (Some (c_addr c, if ys = [] then p else Some (c_addr (last ys))))"
  by (induction ys arbitrary: p) (auto simp: row_find.simps)

text \<open>Changing one row.\<close>

lemma os_rep_row:
  assumes rep: "os_rep sg s css" and i: "i < length css"
    and heap: "\<And>a n. hheap s a = Some n \<Longrightarrow> OSHash_GetIndex sg s (hkey n) \<noteq> Some i \<Longrightarrow> heap a = Some n"
    and xs: "chain heap xs" "distinct (map c_key xs)" "\<And>c. c \<in> set xs \<Longrightarrow> OSHash_GetIndex sg s (c_key c) = Some i"
    and dom: "\<And>a. heap a \<noteq> None \<Longrightarrow> a < brk \<and> (a \<in> c_addr ` set xs \<or> hheap s a \<noteq> None \<and> a \<notin> c_addr ` set (css ! i))"
    and e: "e + of_nat (length (css ! i)) = elements s + of_nat (length xs)"
  shows "os_rep sg (s\<lparr>hheap := heap, hbrk := brk, htable := (htable s)[i := first xs], elements := e\<rparr>) (css[i := xs])"
proof -
  let ?s = "s\<lparr>hheap := heap, hbrk := brk, htable := (htable s)[i := first xs], elements := e\<rparr>"
  note R = os_repD[OF rep]
  have index: "OSHash_GetIndex sg ?s k = OSHash_GetIndex sg s k" for k by (simp add: OSHash_GetIndex_def os_genhash_def)
  have other: "chain heap (css ! j)" if j: "j < length css" "j \<noteq> i" for j
  proof -
    note J = os_rep_rowD[OF rep j(1)]
    have "heap (c_addr c) = hheap s (c_addr c)" if c: "c \<in> set (css ! j)" for c
    proof -
      obtain n where n: "hheap s (c_addr c) = Some n" "hkey n = c_key c" using chain_node[OF J(2) c] by blast
      then show ?thesis using heap[OF n(1)] J(4)[OF c] j(2) by simp
    qed
    then show ?thesis using J(2) chain_cong[of "css ! j" heap "hheap s"] by simp
  qed
  have sum: "sum_list (map length (css[i := xs])) + length (css ! i) = sum_list (map length css) + length xs"
    using i elem_le_sum_list[of i "map length css"] by (simp add: map_update sum_list_update)
  have "of_nat (sum_list (map length (css[i := xs]))) + of_nat (length (css ! i)) = elements s + (of_nat (length xs) :: uint32)"
    unfolding R(4) of_nat_add[symmetric] sum by (rule refl)
  then have el: "e = of_nat (sum_list (map length (css[i := xs])))" using e by (metis add_right_cancel)
  have d: "\<exists>j < length css. a \<in> c_addr ` set (css[i := xs] ! j)" if "heap a \<noteq> None" for a
    using dom[OF that] os_rep_domD(2)[OF rep, of a] i by (metis nth_list_update_eq nth_list_update_neq)
  show ?thesis unfolding os_rep_def index
    using R(1-3) i xs other os_rep_rowD[OF rep] dom d el by (auto simp: nth_list_update)
qed

abbreviation cell_pairs :: "'v os_cell list \<Rightarrow> (cstring \<times> 'v option) list" where
  "cell_pairs xs \<equiv> map (\<lambda>c. (c_key c, c_data c)) xs"

lemma cell_pairs_mid:
  "c_key c \<notin> c_key ` set ys \<Longrightarrow> map_of (cell_pairs (ys @ c # zs)) = (map_of (cell_pairs (ys @ zs)))(c_key c \<mapsto> c_data c)"
  by (induction ys) (auto simp: fun_upd_twist)

lemma index_ex: "rows s \<noteq> 0 \<Longrightarrow> \<exists>i. OSHash_GetIndex sg s k = Some i"
  by (simp add: OSHash_GetIndex_def)

lemma index_bound:
  assumes "rows s \<noteq> 0" "OSHash_GetIndex sg s k = Some i"
  shows "i < unat (rows s)"
proof -
  have "unat (rows s) \<noteq> 0" using assms(1) by (simp add: unat_eq_zero)
  then show ?thesis using assms(2) by (auto simp: OSHash_GetIndex_def unat_mod split: if_splits)
qed

lemma find_cases [consumes 1, case_names absent present]:
  assumes rep: "os_rep sg s css"
  obtains i where "OSHash_GetIndex sg s k = Some i" "i < length css" "k \<notin> c_key ` set (css ! i)" "find_node sg s k = Some (i, None)"
  | i ys c zs where "OSHash_GetIndex sg s k = Some i" "i < length css" "css ! i = ys @ c # zs" "k \<notin> c_key ` set ys" "c_key c = k"
      "find_node sg s k = Some (i, Some (c_addr c, if ys = [] then None else Some (c_addr (last ys))))"
proof -
  note R = os_repD[OF rep]
  obtain i where i: "OSHash_GetIndex sg s k = Some i" using R(1) by (simp add: OSHash_GetIndex_def)
  have b: "i < length css" using index_bound[OF R(1) i] R(3) by simp
  note I = os_rep_rowD[OF rep b]
  have t: "table_at s i = Some (first (css ! i))" using I(1) b R(2,3) by (simp add: table_at_def)
  show thesis
  proof (cases "k \<in> c_key ` set (css ! i)")
    case False
    then show thesis using that(1)[OF i b False] row_find_absent[OF I(2) False] i t by (simp add: find_node_def)
  next
    case True
    then have "\<exists>c \<in> set (css ! i). c_key c = k" by auto
    from split_list_first_propE[OF this] obtain ys c zs where c: "css ! i = ys @ c # zs" "c_key c = k" "\<forall>y \<in> set ys. c_key y \<noteq> k" by metis
    then have k: "k \<notin> c_key ` set ys" by auto
    show thesis
      by (rule that(2)[OF i b c(1) k c(2)]) (use row_find_present[OF I(2)[unfolded c(1)] k c(2), of None] i t c(1) in \<open>simp add: find_node_def\<close>)
  qed
qed

text \<open>The map from the keys to the data.\<close>

definition os_contents :: "bool \<Rightarrow> 'v os_hash \<Rightarrow> cstring \<rightharpoonup> 'v option" where
  "os_contents sg s k = (case find_node sg s k of Some (i, Some (a, _)) \<Rightarrow> map_option hdata (hheap s a) | _ \<Rightarrow> None)"

lemma contents_row:
  assumes rep: "os_rep sg s css" and i: "OSHash_GetIndex sg s k = Some i"
  shows "os_contents sg s k = map_of (cell_pairs (css ! i)) k"
  using rep
proof (cases rule: find_cases[where k = k])
  case (absent j)
  then have "map_of (cell_pairs (css ! i)) k = None" using i by (auto simp: map_of_eq_None_iff)
  then show ?thesis using absent(4) by (simp add: os_contents_def)
next
  case (present j ys c zs)
  have ij: "j = i" using present(1) i by simp
  obtain n where "hheap s (c_addr c) = Some n" "hdata n = c_data c"
    using chain_node[OF os_rep_rowD(2)[OF rep present(2)], of c] present(3) by auto
  moreover have "map_of (cell_pairs ys) k = None" using present(4) by (auto simp: map_of_eq_None_iff)
  then have "map_of (cell_pairs (css ! i)) k = Some (c_data c)" using present(3,5) ij by (simp add: map_add_def)
  ultimately show ?thesis using present(6) by (simp add: os_contents_def)
qed

lemma contents_update:
  assumes rep: "os_rep sg s css" "os_rep sg s' (css[i := xs])" and i: "OSHash_GetIndex sg s k = Some i"
    and same: "\<And>k. OSHash_GetIndex sg s' k = OSHash_GetIndex sg s k"
    and xs: "map_of (cell_pairs xs) = (map_of (cell_pairs (css ! i)))(k := v)"
  shows "os_contents sg s' = (os_contents sg s)(k := v)"
proof
  fix k'
  have b: "i < length css" using index_bound[OF os_repD(1)[OF rep(1)] i] os_repD(3)[OF rep(1)] by simp
  obtain j where j: "OSHash_GetIndex sg s k' = Some j" using os_repD(1)[OF rep(1)] by (simp add: OSHash_GetIndex_def)
  have "os_contents sg s' k' = map_of (cell_pairs (css[i := xs] ! j)) k'" using contents_row[OF rep(2), of k' j] j same by simp
  also have "\<dots> = ((os_contents sg s)(k := v)) k'"
  proof (cases "j = i")
    case True
    then show ?thesis using b xs contents_row[OF rep(1) j] by simp
  next
    case False
    then have "k' \<noteq> k" using i j by auto
    then show ?thesis using False contents_row[OF rep(1) j] by simp
  qed
  finally show "os_contents sg s' k' = ((os_contents sg s)(k := v)) k'" .
qed

lemma get_contents:
  assumes "os_rep sg s css"
  shows "OSHash_Get sg s k = Some (case os_contents sg s k of Some d \<Rightarrow> d | None \<Rightarrow> None)"
  using assms
proof (cases rule: find_cases[where k = k])
  case absent
  then show ?thesis by (simp add: OSHash_Get_def os_contents_def)
next
  case (present i ys c zs)
  then show ?thesis using chain_node[OF os_rep_rowD(2)[OF assms present(2)], of c] by (auto simp: OSHash_Get_def os_contents_def)
qed

lemma contents_cases:
  assumes "os_rep sg s css"
  shows "find_node sg s k = Some (i, None) \<Longrightarrow> os_contents sg s k = None"
    "find_node sg s k = Some (i, Some (a, p)) \<Longrightarrow> os_contents sg s k = map_option hdata (hheap s a)"
  by (simp_all add: os_contents_def)

subsection \<open>Changing data\<close>

lemma set_data_rep:
  assumes rep: "os_rep sg s css" and f: "find_node sg s k = Some (i, Some (a, p))"
  shows "\<exists>s' css' old. set_node a (\<lambda>n. n\<lparr>hdata := d\<rparr>) s = Some s' \<and> os_rep sg s' css' \<and> free_data s' = free_data s
    \<and> os_contents sg s k = Some old \<and> map_option hdata (hheap s a) = Some old \<and> os_contents sg s' = (os_contents sg s)(k \<mapsto> d)"
  using rep
proof (cases rule: find_cases[where k = k])
  case absent
  then show ?thesis using f by simp
next
  case (present j ys c zs)
  with f have a: "a = c_addr c" and ij: "j = i" by simp_all
  note I = os_rep_rowD[OF rep present(2)]
  obtain n where n: "hheap s a = Some n" "hkey n = c_key c" "hdata n = c_data c"
    using chain_node[OF I(2), of c] present(3) a by auto
  let ?h = "(hheap s)(a \<mapsto> n\<lparr>hdata := d\<rparr>)" and ?xs = "ys @ c\<lparr>c_data := d\<rparr> # zs"
  have dist: "distinct (map c_addr (ys @ c # zs))" using chain_inj[OF I(2,3)] present(3) by simp
  have ch: "chain ?h (us @ c\<lparr>c_data := d\<rparr> # zs)" if "chain (hheap s) (us @ c # zs)" "distinct (map c_addr (us @ c # zs))" for us
    using that
  proof (induction us)
    case Nil
    then have "chain ?h zs" using a by simp
    moreover have "\<exists>m. ?h (c_addr (c\<lparr>c_data := d\<rparr>)) = Some m \<and> hnext m = first zs \<and> hkey m = c_key (c\<lparr>c_data := d\<rparr>)
        \<and> hdata m = c_data (c\<lparr>c_data := d\<rparr>)"
      using n a Nil by auto
    ultimately show ?case unfolding append_Nil chain.simps by blast
  next
    case (Cons u us)
    then show ?case using a by (cases us) auto
  qed
  have row: "os_rep sg (s\<lparr>hheap := ?h, hbrk := hbrk s, htable := (htable s)[j := first ?xs], elements := elements s\<rparr>) (css[j := ?xs])"
  proof (rule os_rep_row[OF rep present(2)])
    show "chain ?h ?xs" using ch[of ys] I(2) dist present(3) by simp
    show "distinct (map c_key ?xs)" using I(3) present(3) by simp
    show "\<And>x. x \<in> set ?xs \<Longrightarrow> OSHash_GetIndex sg s (c_key x) = Some j" using I(4) present(3) by auto
    show "\<And>x m. hheap s x = Some m \<Longrightarrow> OSHash_GetIndex sg s (hkey m) \<noteq> Some j \<Longrightarrow> ?h x = Some m" using n present(1,5) by auto
    show "\<And>x. ?h x \<noteq> None \<Longrightarrow> x < hbrk s \<and> (x \<in> c_addr ` set ?xs \<or> hheap s x \<noteq> None \<and> x \<notin> c_addr ` set (css ! j))"
      using os_rep_domD(1)[OF rep] n(1) present(3) a by (auto split: if_splits)
  qed (simp add: present(3))
  moreover have "first ?xs = htable s ! j" using I(1) present(3) by (cases ys) simp_all
  moreover have "j < length (htable s)" using present(2) os_repD(2,3)[OF rep] by simp
  ultimately have rep': "os_rep sg (s\<lparr>hheap := ?h\<rparr>) (css[j := ?xs])" by simp
  have "map_of (cell_pairs ?xs) = (map_of (cell_pairs (css ! j)))(k \<mapsto> d)"
    using present(3-5) cell_pairs_mid[of c ys zs] cell_pairs_mid[of "c\<lparr>c_data := d\<rparr>" ys zs] by simp
  then have "os_contents sg (s\<lparr>hheap := ?h\<rparr>) = (os_contents sg s)(k \<mapsto> d)"
    by (intro contents_update[OF rep rep' present(1)]) (simp_all add: OSHash_GetIndex_def os_genhash_def)
  then show ?thesis using n rep' f by (auto simp: set_node_def os_contents_def)
qed

subsection \<open>Adding and removing nodes\<close>

lemma chain_prev: "h b = Some n \<Longrightarrow> chain (h(b \<mapsto> n\<lparr>hprev := p\<rparr>)) xs = chain h xs"
  by (induction xs) auto

lemma push_node_rep:
  assumes rep: "os_rep sg s css" and i: "OSHash_GetIndex sg s k = Some i" "k \<notin> c_key ` set (css ! i)"
  shows "\<exists>s' css'. push_node s i k d = Some s' \<and> os_rep sg s' css' \<and> free_data s' = free_data s
    \<and> os_contents sg s' = (os_contents sg s)(k \<mapsto> d)"
proof -
  note R = os_repD[OF rep]
  have b: "i < length css" using index_bound[OF R(1) i(1)] R(3) by simp
  note I = os_rep_rowD[OF rep b]
  let ?a = "hbrk s" and ?p = "first (css ! i)"
  have t: "table_at s i = Some ?p" using I(1) b R(2,3) by (simp add: table_at_def)
  have fresh: "hheap s ?a = None" using os_rep_domD(1)[OF rep, of ?a] by blast
  obtain h1 where h1: "(case ?p of None \<Rightarrow> Some s | Some h \<Rightarrow> set_node h (\<lambda>n. n\<lparr>hprev := Some ?a\<rparr>) s) = Some (s\<lparr>hheap := h1\<rparr>)"
    "chain h1 (css ! i)" "\<And>x. h1 x \<noteq> None \<longleftrightarrow> hheap s x \<noteq> None"
    "\<And>x m. hheap s x = Some m \<Longrightarrow> OSHash_GetIndex sg s (hkey m) \<noteq> Some i \<Longrightarrow> h1 x = Some m"
  proof (cases "css ! i")
    case Nil
    then show thesis using that[of "hheap s"] by simp
  next
    case (Cons c zs)
    obtain n where n: "hheap s (c_addr c) = Some n" "hkey n = c_key c" using I(2) Cons by auto
    have "OSHash_GetIndex sg s (hkey n) = Some i" using I(4)[of c] n(2) Cons by simp
    then have x: "\<And>x m. hheap s x = Some m \<Longrightarrow> OSHash_GetIndex sg s (hkey m) \<noteq> Some i \<Longrightarrow> x \<noteq> c_addr c" using n(1) by auto
    show thesis
    proof (rule that[of "(hheap s)(c_addr c \<mapsto> n\<lparr>hprev := Some ?a\<rparr>)"])
      show "chain ((hheap s)(c_addr c \<mapsto> n\<lparr>hprev := Some ?a\<rparr>)) (css ! i)"
        using I(2) chain_prev[where h = "hheap s" and b = "c_addr c", OF n(1)] by blast
    qed (use n(1) Cons x in \<open>auto simp: set_node_def\<close>)
  qed
  let ?n = "\<lparr>hnext = ?p, hprev = None, hkey = k, hdata = d\<rparr>" and ?c = "\<lparr>c_addr = ?a, c_key = k, c_data = d\<rparr>"
  have off: "?a \<notin> c_addr ` set (css ! i)" using chain_node[OF I(2)] fresh by fastforce
  have rep': "os_rep sg (s\<lparr>hheap := h1(?a \<mapsto> ?n), hbrk := ?a + 1, htable := (htable s)[i := first (?c # css ! i)],
      elements := elements s + 1\<rparr>) (css[i := ?c # css ! i])"
  proof (rule os_rep_row[OF rep b])
    show "chain (h1(?a \<mapsto> ?n)) (?c # css ! i)" using h1(2) off by simp
    show "distinct (map c_key (?c # css ! i))" using I(3) i(2) by simp
    show "\<And>c. c \<in> set (?c # css ! i) \<Longrightarrow> OSHash_GetIndex sg s (c_key c) = Some i" using I(4) i(1) by auto
    show "\<And>x m. hheap s x = Some m \<Longrightarrow> OSHash_GetIndex sg s (hkey m) \<noteq> Some i \<Longrightarrow> (h1(?a \<mapsto> ?n)) x = Some m"
      using h1(4) fresh by auto
    show "x < ?a + 1 \<and> (x \<in> c_addr ` set (?c # css ! i) \<or> hheap s x \<noteq> None \<and> x \<notin> c_addr ` set (css ! i))"
      if "(h1(?a \<mapsto> ?n)) x \<noteq> None" for x
      using that h1(3)[of x] os_rep_domD(1)[OF rep, of x] by (cases "x = ?a") auto
  qed simp
  have "os_contents sg (s\<lparr>hheap := h1(?a \<mapsto> ?n), hbrk := ?a + 1, htable := (htable s)[i := first (?c # css ! i)],
      elements := elements s + 1\<rparr>) = (os_contents sg s)(k \<mapsto> d)"
    by (rule contents_update[OF rep rep' i(1)]) (simp_all add: OSHash_GetIndex_def os_genhash_def)
  then show ?thesis using rep' t h1(1) by (auto simp: push_node_def Let_def)
qed

text \<open>A node is taken out of its row: the one before it, or the head, goes to the next.\<close>

lemma chain_unlink:
  assumes "chain h (ys @ c # zs)" "distinct (map c_addr (ys @ c # zs))" "ys \<noteq> []"
  shows "\<exists>m. h (c_addr (last ys)) = Some m \<and> chain (h(c_addr (last ys) \<mapsto> m\<lparr>hnext := first zs\<rparr>, c_addr c := None)) (ys @ zs)"
  using assms
proof (induction ys)
  case (Cons y ys)
  show ?case
  proof (cases "ys = []")
    case True
    then obtain m where m: "h (c_addr y) = Some m" "hkey m = c_key y" "hdata m = c_data y" using Cons.prems by auto
    have "chain (h(c_addr y \<mapsto> m\<lparr>hnext := first zs\<rparr>, c_addr c := None)) zs" using Cons.prems True by simp
    moreover have "\<exists>n. (h(c_addr y \<mapsto> m\<lparr>hnext := first zs\<rparr>, c_addr c := None)) (c_addr y) = Some n \<and> hnext n = first zs
        \<and> hkey n = c_key y \<and> hdata n = c_data y"
      using m Cons.prems(2) by auto
    ultimately have "chain (h(c_addr y \<mapsto> m\<lparr>hnext := first zs\<rparr>, c_addr c := None)) (y # zs)" unfolding chain.simps by blast
    with m(1) show ?thesis unfolding True append_Cons append_Nil last_ConsL[OF refl] by (intro exI[of _ m] conjI)
  next
    case False
    have "\<exists>m. h (c_addr (last ys)) = Some m \<and> chain (h(c_addr (last ys) \<mapsto> m\<lparr>hnext := first zs\<rparr>, c_addr c := None)) (ys @ zs)"
      by (rule Cons.IH) (use Cons.prems False in simp_all)
    then obtain m where m: "h (c_addr (last ys)) = Some m"
      "chain (h(c_addr (last ys) \<mapsto> m\<lparr>hnext := first zs\<rparr>, c_addr c := None)) (ys @ zs)" by blast
    let ?h = "h(c_addr (last ys) \<mapsto> m\<lparr>hnext := first zs\<rparr>, c_addr c := None)"
    have "c_addr y \<noteq> c_addr (last ys)" "c_addr y \<noteq> c_addr c" using Cons.prems(2) False by auto
    then have "?h (c_addr y) = h (c_addr y)" by simp
    moreover have "first (ys @ c # zs) = first (ys @ zs)" using False by (cases ys) auto
    ultimately have "chain ?h (y # ys @ zs)" using Cons.prems(1) m(2) unfolding append_Cons chain.simps by metis
    with m(1) show ?thesis unfolding append_Cons last_ConsR[OF False] by blast
  qed
qed simp

lemma unlink_step:
  assumes rep: "os_rep sg s css" and b: "i < length css" and row: "css ! i = ys @ c # zs"
    and n: "hheap s (c_addr c) = Some n" "hnext n = first zs"
  shows "\<exists>h1. (case (if ys = [] then None else Some (c_addr (last ys))) of
        None \<Rightarrow> Some (s\<lparr>htable := (htable s)[i := hnext n]\<rparr>)
      | Some b \<Rightarrow> set_node b (\<lambda>m. m\<lparr>hnext := hnext n\<rparr>) s) = Some (s\<lparr>hheap := h1, htable := (htable s)[i := first (ys @ zs)]\<rparr>)
    \<and> chain (h1(c_addr c := None)) (ys @ zs) \<and> (\<forall>x. h1 x \<noteq> None \<longleftrightarrow> hheap s x \<noteq> None)
    \<and> (\<forall>x m. hheap s x = Some m \<longrightarrow> OSHash_GetIndex sg s (hkey m) \<noteq> Some i \<longrightarrow> h1 x = Some m)"
proof -
  note I = os_rep_rowD[OF rep b]
  have dist: "distinct (map c_addr (ys @ c # zs))" using chain_inj[OF I(2,3)] row by simp
  show ?thesis
  proof (cases "ys = []")
    case True
    have "chain ((hheap s)(c_addr c := None)) zs" using I(2) row True dist by simp
    then show ?thesis using True n(2) by (intro exI[of _ "hheap s"]) simp
  next
    case False
    from chain_unlink[OF I(2)[unfolded row] dist False] obtain m where
      m: "hheap s (c_addr (last ys)) = Some m" "chain ((hheap s)(c_addr (last ys) \<mapsto> m\<lparr>hnext := first zs\<rparr>, c_addr c := None)) (ys @ zs)"
      by blast
    have "OSHash_GetIndex sg s (hkey m) = Some i" using I(4)[of "last ys"] chain_node[OF I(2), of "last ys"] row False m(1) by auto
    then have k: "\<And>x m'. hheap s x = Some m' \<Longrightarrow> OSHash_GetIndex sg s (hkey m') \<noteq> Some i \<Longrightarrow> x \<noteq> c_addr (last ys)" using m(1) by auto
    have "first (ys @ zs) = htable s ! i" "i < length (htable s)" using I(1) row False os_repD(2,3)[OF rep] b by (cases ys; simp)+
    then have "(htable s)[i := first (ys @ zs)] = htable s" by simp
    then have "set_node (c_addr (last ys)) (\<lambda>m. m\<lparr>hnext := hnext n\<rparr>) s
        = Some (s\<lparr>hheap := (hheap s)(c_addr (last ys) \<mapsto> m\<lparr>hnext := first zs\<rparr>), htable := (htable s)[i := first (ys @ zs)]\<rparr>)"
      using m(1) n(2) by (simp add: set_node_def)
    moreover have "\<forall>x. ((hheap s)(c_addr (last ys) \<mapsto> m\<lparr>hnext := first zs\<rparr>)) x \<noteq> None \<longleftrightarrow> hheap s x \<noteq> None" using m(1) by simp
    moreover have "\<forall>x m'. hheap s x = Some m' \<longrightarrow> OSHash_GetIndex sg s (hkey m') \<noteq> Some i
        \<longrightarrow> ((hheap s)(c_addr (last ys) \<mapsto> m\<lparr>hnext := first zs\<rparr>)) x = Some m'" using k by auto
    ultimately show ?thesis using m(2) False unfolding if_not_P[OF False] option.case by blast
  qed
qed

lemma delete_rep:
  assumes rep: "os_rep sg s css" and f: "find_node sg s k = Some (i, Some (a, p))"
  shows "\<exists>old s' css'. OSHash_Delete sg s k = Some (old, s') \<and> os_rep sg s' css' \<and> free_data s' = free_data s
    \<and> os_contents sg s k = Some old \<and> os_contents sg s' = (os_contents sg s)(k := None)"
  using rep
proof (cases rule: find_cases[where k = k])
  case absent
  then show ?thesis using f by simp
next
  case (present j ys c zs)
  with f have a: "a = c_addr c" "j = i" "p = (if ys = [] then None else Some (c_addr (last ys)))" by simp_all
  note I = os_rep_rowD[OF rep present(2)]
  have dist: "distinct (map c_addr (ys @ c # zs))" using chain_inj[OF I(2,3)] present(3) by simp
  obtain n where n: "hheap s a = Some n" "hnext n = first zs" "hkey n = k" "hdata n = c_data c"
    using chain_append[OF I(2)[unfolded present(3)]] a(1) present(5) by auto
  from unlink_step[OF rep present(2,3) n(1)[unfolded a(1)] n(2)] obtain h1 where
    h1: "(case p of None \<Rightarrow> Some (s\<lparr>htable := (htable s)[i := hnext n]\<rparr>) | Some b \<Rightarrow> set_node b (\<lambda>m. m\<lparr>hnext := hnext n\<rparr>) s)
        = Some (s\<lparr>hheap := h1, htable := (htable s)[i := first (ys @ zs)]\<rparr>)"
      "chain (h1(a := None)) (ys @ zs)" "\<And>x. h1 x \<noteq> None \<longleftrightarrow> hheap s x \<noteq> None"
      "\<And>x m. hheap s x = Some m \<Longrightarrow> OSHash_GetIndex sg s (hkey m) \<noteq> Some i \<Longrightarrow> h1 x = Some m"
    unfolding a by blast
  let ?s1 = "s\<lparr>hheap := h1, htable := (htable s)[i := first (ys @ zs)]\<rparr>"
  obtain h2 where h2: "(case first zs of None \<Rightarrow> Some ?s1 | Some b \<Rightarrow> set_node b (\<lambda>m. m\<lparr>hprev := p\<rparr>) ?s1) = Some (?s1\<lparr>hheap := h2\<rparr>)"
    "chain (h2(a := None)) (ys @ zs)" "\<And>x. h2 x \<noteq> None \<longleftrightarrow> hheap s x \<noteq> None"
    "\<And>x m. hheap s x = Some m \<Longrightarrow> OSHash_GetIndex sg s (hkey m) \<noteq> Some i \<Longrightarrow> h2 x = Some m"
  proof (cases zs)
    case Nil
    then show thesis using that[of h1] h1 by simp
  next
    case (Cons z zs')
    obtain m0 where m0: "hheap s (c_addr z) = Some m0" "hkey m0 = c_key z" using chain_node[OF I(2), of z] present(3) Cons by auto
    then obtain m where m: "h1 (c_addr z) = Some m" using h1(3)[of "c_addr z"] by auto
    have idx: "OSHash_GetIndex sg s (hkey m0) = Some i" using I(4)[of z] present(3) Cons m0(2) a(2) by simp
    have za: "c_addr z \<noteq> a" using dist Cons a(1) by auto
    then have "chain ((h1(a := None))(c_addr z \<mapsto> m\<lparr>hprev := p\<rparr>)) (ys @ zs)"
      using h1(2) chain_prev[where h = "h1(a := None)" and b = "c_addr z" and n = m and xs = "ys @ zs"] m by simp
    then have ch: "chain ((h1(c_addr z \<mapsto> m\<lparr>hprev := p\<rparr>))(a := None)) (ys @ zs)" using za by (simp add: fun_upd_twist)
    show thesis
    proof (rule that[of "h1(c_addr z \<mapsto> m\<lparr>hprev := p\<rparr>)"])
      show "(h1(c_addr z \<mapsto> m\<lparr>hprev := p\<rparr>)) x = Some m'" if "hheap s x = Some m'" "OSHash_GetIndex sg s (hkey m') \<noteq> Some i" for x m'
        using h1(4)[OF that] that m0 idx by (cases "x = c_addr z") auto
      show "(h1(c_addr z \<mapsto> m\<lparr>hprev := p\<rparr>)) x \<noteq> None \<longleftrightarrow> hheap s x \<noteq> None" for x
        using h1(3)[of x] m by (cases "x = c_addr z") auto
    qed (use ch m Cons in \<open>simp_all add: set_node_def\<close>)
  qed
  have rep': "os_rep sg (s\<lparr>hheap := h2(a := None), hbrk := hbrk s, htable := (htable s)[i := first (ys @ zs)],
      elements := elements s - 1\<rparr>) (css[i := ys @ zs])"
  proof (rule os_rep_row[OF rep present(2)[unfolded a(2)] _ h2(2)])
    show "distinct (map c_key (ys @ zs))" using I(3) present(3) by auto
    show "\<And>c. c \<in> set (ys @ zs) \<Longrightarrow> OSHash_GetIndex sg s (c_key c) = Some i" using I(4) present(3) a(2) by auto
    show "(h2(a := None)) x = Some m" if "hheap s x = Some m" "OSHash_GetIndex sg s (hkey m) \<noteq> Some i" for x m
      using h2(4)[OF that] that n(1,3) present(1) a(2) by (cases "x = a") auto
    show "x < hbrk s \<and> (x \<in> c_addr ` set (ys @ zs) \<or> hheap s x \<noteq> None \<and> x \<notin> c_addr ` set (css ! i))" if "(h2(a := None)) x \<noteq> None" for x
      using that h2(3)[of x] os_rep_domD(1)[OF rep, of x] present(3) a by (cases "x = a") auto
  qed (use present(3) a(2) in simp)
  have "map_of (cell_pairs (css ! i)) = (map_of (cell_pairs (ys @ zs)))(k \<mapsto> c_data c)"
    using cell_pairs_mid[of c ys zs] present(3-5) a(2) by simp
  moreover have "map_of (cell_pairs (ys @ zs)) k = None" using I(3) present(3,5) by (auto simp: map_of_eq_None_iff)
  ultimately have "map_of (cell_pairs (ys @ zs)) = (map_of (cell_pairs (css ! i)))(k := None)" by (simp add: fun_eq_iff)
  then have "os_contents sg (s\<lparr>hheap := h2(a := None), hbrk := hbrk s, htable := (htable s)[i := first (ys @ zs)],
      elements := elements s - 1\<rparr>) = (os_contents sg s)(k := None)"
    by (intro contents_update[OF rep rep' present(1)[unfolded a(2)]]) (simp_all add: OSHash_GetIndex_def os_genhash_def)
  moreover have "OSHash_Delete sg s k = Some (c_data c, s\<lparr>hheap := h2(a := None), hbrk := hbrk s,
      htable := (htable s)[i := first (ys @ zs)], elements := elements s - 1\<rparr>)"
    using f n h1(1) h2(1) by (simp add: OSHash_Delete_def)
  moreover have "os_contents sg s k = Some (c_data c)" using f n by (simp add: os_contents_def)
  ultimately show ?thesis using rep' by fastforce
qed

section \<open>Any sequence of calls\<close>

subsection \<open>The number of elements\<close>

lemma distinct_concat_nth:
  "(\<And>i. i < length xss \<Longrightarrow> distinct (xss ! i)) \<Longrightarrow>
   (\<And>i j. i < j \<Longrightarrow> j < length xss \<Longrightarrow> set (xss ! i) \<inter> set (xss ! j) = {}) \<Longrightarrow> distinct (concat xss)"
proof (induction xss)
  case (Cons xs xss)
  have "distinct (concat xss)" using Cons.prems(1)[of "Suc _"] Cons.prems(2)[of "Suc _" "Suc _"] by (intro Cons.IH) auto
  moreover have "set xs \<inter> set ys = {}" if "ys \<in> set xss" for ys
    using that Cons.prems(2)[of 0 "Suc _"] by (auto simp: in_set_conv_nth)
  ultimately show ?case using Cons.prems(1)[of 0] by auto
qed simp

lemma option_eqI: "(\<And>d. a = Some d \<longleftrightarrow> b = Some d) \<Longrightarrow> a = b"
  by (cases a; cases b) auto

lemma row_of_key:
  assumes rep: "os_rep sg s css" and i: "OSHash_GetIndex sg s k = Some i" and x: "(k, d) \<in> set (concat (map cell_pairs css))"
  shows "(k, d) \<in> set (cell_pairs (css ! i))"
proof -
  from x obtain xs c where c: "xs \<in> set css" "c \<in> set xs" "k = c_key c" "d = c_data c" by auto
  from c(1) obtain j where "j < length css" "xs = css ! j" unfolding in_set_conv_nth by blast
  with c have j: "j < length css" "c \<in> set (css ! j)" "k = c_key c" "d = c_data c" by simp_all
  then have "j = i" using os_rep_rowD(4)[OF rep j(1,2)] i by simp
  then show ?thesis using j(2-4) by simp
qed

lemma rows_distinct:
  assumes rep: "os_rep sg s css"
  shows "distinct (map fst (concat (map cell_pairs css)))"
proof -
  note I = os_rep_rowD[OF rep]
  have "set (map c_key (css ! i)) \<inter> set (map c_key (css ! j)) = {}" if "i < j" "j < length css" for i j
    using I(4)[of i] I(4)[of j] that by force
  then have "distinct (concat (map (map c_key) css))" using I(3) by (intro distinct_concat_nth) auto
  then show ?thesis by (simp add: map_concat comp_def)
qed

lemma rows_contents:
  assumes rep: "os_rep sg s css"
  shows "map_of (concat (map cell_pairs css)) = os_contents sg s"
proof
  fix k
  obtain i where i: "OSHash_GetIndex sg s k = Some i" using index_ex[OF os_repD(1)[OF rep]] by blast
  have b: "i < length css" using index_bound[OF os_repD(1)[OF rep] i] os_repD(3)[OF rep] by simp
  let ?xs = "concat (map cell_pairs css)"
  have "map_of ?xs k = Some d \<longleftrightarrow> map_of (cell_pairs (css ! i)) k = Some d" for d
  proof -
    have "map_of ?xs k = Some d \<longleftrightarrow> (k, d) \<in> set ?xs" by (rule map_of_eq_Some_iff[OF rows_distinct[OF rep]])
    also have "\<dots> \<longleftrightarrow> (k, d) \<in> set (cell_pairs (css ! i))" using row_of_key[OF rep i, of d] b by auto
    also have "\<dots> \<longleftrightarrow> map_of (cell_pairs (css ! i)) k = Some d"
      by (rule map_of_eq_Some_iff[symmetric]) (use os_rep_rowD(3)[OF rep b] in \<open>simp add: comp_def\<close>)
    finally show ?thesis .
  qed
  then have "map_of ?xs k = map_of (cell_pairs (css ! i)) k" by (rule option_eqI)
  then show "map_of ?xs k = os_contents sg s k" using contents_row[OF rep i] by simp
qed

lemma elements_card:
  assumes rep: "os_rep sg s css"
  shows "elements s = of_nat (card (dom (os_contents sg s)))"
proof -
  let ?xs = "concat (map cell_pairs css)"
  have "card (dom (os_contents sg s)) = length (map fst ?xs)"
    using distinct_card[OF rows_distinct[OF rep]] by (simp only: rows_contents[OF rep, symmetric] dom_map_of_conv_image_fst set_map)
  also have "\<dots> = sum_list (map length css)" by (simp only: length_map length_concat map_map comp_def)
  finally show ?thesis using os_repD(4)[OF rep] by simp
qed

subsection \<open>The specification\<close>

datatype 'v os_op = Os_get cstring | Os_add cstring "'v option" | Os_set cstring "'v option" | Os_update cstring "'v option" | Os_delete cstring

datatype 'v os_result = Pointer "'v option" | Status int "'v list"

fun os_step :: "bool \<Rightarrow> 'v os_op \<Rightarrow> 'v os_hash \<Rightarrow> ('v os_result list \<times> 'v os_hash) option" where
  "os_step sg (Os_get k) s = do { d \<leftarrow> OSHash_Get sg s k; Some ([Pointer d], s) }"
| "os_step sg (Os_add k d) s = do { (r, s1) \<leftarrow> OSHash_Add sg s k d; Some ([Status r []], s1) }"
| "os_step sg (Os_set k d) s = do { (r, s1) \<leftarrow> OSHash_Set sg s k d; Some ([Status r []], s1) }"
| "os_step sg (Os_update k d) s = do { (r, ds, s1) \<leftarrow> OSHash_Update sg s k d; Some ([Status r ds], s1) }"
| "os_step sg (Os_delete k) s = do { (d, s1) \<leftarrow> OSHash_Delete sg s k; Some ([Pointer d], s1) }"

fun os_spec :: "bool \<Rightarrow> 'v os_op \<Rightarrow> (cstring \<rightharpoonup> 'v option) \<Rightarrow> ('v os_result list \<times> (cstring \<rightharpoonup> 'v option)) option" where
  "os_spec f (Os_get k) m = Some ([Pointer (case m k of Some d \<Rightarrow> d | None \<Rightarrow> None)], m)"
| "os_spec f (Os_add k d) m = Some (if m k = None then ([Status 2 []], m(k \<mapsto> d)) else ([Status 1 []], m))"
| "os_spec f (Os_set k d) m = Some ([Status (if m k = None then 2 else 1) []], m(k \<mapsto> d))"
| "os_spec f (Os_update k d) m =
     Some (case m k of None \<Rightarrow> ([Status 0 []], m)
       | Some old \<Rightarrow> ([Status 1 (if f then case_option [] (\<lambda>x. [x]) old else [])], m(k \<mapsto> d)))"
| "os_spec f (Os_delete k) m = Some ([Pointer (case m k of Some d \<Rightarrow> d | None \<Rightarrow> None)], m(k := None))"

lemma find_ex:
  assumes "os_rep sg s css"
  shows "\<exists>i. OSHash_GetIndex sg s k = Some i \<and> (find_node sg s k = Some (i, None) \<and> k \<notin> c_key ` set (css ! i) \<and> os_contents sg s k = None
    \<or> (\<exists>a p. find_node sg s k = Some (i, Some (a, p))))"
  using assms by (cases rule: find_cases[where k = k]) (auto simp: os_contents_def)

lemma add_rep:
  assumes rep: "os_rep sg s css"
  shows "\<exists>s' css'. OSHash_Add' sg s k d u = Some (if os_contents sg s k = None then 2 else 1, s') \<and> os_rep sg s' css'
    \<and> free_data s' = free_data s
    \<and> os_contents sg s' = (if os_contents sg s k = None \<or> u then (os_contents sg s)(k \<mapsto> d) else os_contents sg s)"
proof -
  from find_ex[OF rep, of k] obtain i where i: "OSHash_GetIndex sg s k = Some i"
    and c: "find_node sg s k = Some (i, None) \<and> k \<notin> c_key ` set (css ! i) \<and> os_contents sg s k = None
      \<or> (\<exists>a p. find_node sg s k = Some (i, Some (a, p)))" by blast
  from c show ?thesis
  proof
    assume n: "find_node sg s k = Some (i, None) \<and> k \<notin> c_key ` set (css ! i) \<and> os_contents sg s k = None"
    with push_node_rep[OF rep i, of d] show ?thesis by (auto simp: OSHash_Add'_def)
  next
    assume "\<exists>a p. find_node sg s k = Some (i, Some (a, p))"
    then obtain a p where f: "find_node sg s k = Some (i, Some (a, p))" by blast
    from set_data_rep[OF rep f, of d] rep f show ?thesis by (cases u) (auto simp: OSHash_Add'_def)
  qed
qed

lemma os_step_rep:
  assumes rep: "os_rep sg s css"
  shows "\<exists>outs s' css' m. os_spec (free_data s) op (os_contents sg s) = Some (outs, m) \<and> os_step sg op s = Some (outs, s')
    \<and> os_rep sg s' css' \<and> free_data s' = free_data s \<and> os_contents sg s' = m"
proof (cases op)
  case (Os_get k)
  then show ?thesis using get_contents[OF rep, of k] rep by auto
next
  case (Os_add k d)
  then show ?thesis using add_rep[OF rep, of k d False] by (auto simp: OSHash_Add_def)
next
  case (Os_set k d)
  then show ?thesis using add_rep[OF rep, of k d True] by (auto simp: OSHash_Set_def)
next
  case (Os_update k d)
  from find_ex[OF rep, of k] obtain i where c: "find_node sg s k = Some (i, None) \<and> os_contents sg s k = None
      \<or> (\<exists>a p. find_node sg s k = Some (i, Some (a, p)))" by blast
  then show ?thesis using Os_update rep set_data_rep[OF rep, of k i _ _ d] by (fastforce simp: OSHash_Update_def)
next
  case (Os_delete k)
  from find_ex[OF rep, of k] obtain i where c: "find_node sg s k = Some (i, None) \<and> os_contents sg s k = None
      \<or> (\<exists>a p. find_node sg s k = Some (i, Some (a, p)))" by blast
  then show ?thesis
  proof
    assume "find_node sg s k = Some (i, None) \<and> os_contents sg s k = None"
    moreover from this have "(os_contents sg s)(k := None) = os_contents sg s" by auto
    ultimately show ?thesis using Os_delete rep by (auto simp: OSHash_Delete_def)
  next
    assume "\<exists>a p. find_node sg s k = Some (i, Some (a, p))"
    then show ?thesis using Os_delete delete_rep[OF rep, of k i] by fastforce
  qed
qed

lemma os_run_rep:
  assumes "os_rep sg s css"
  shows "\<exists>outs s' css' m. run_steps (os_spec (free_data s)) ops (os_contents sg s) = Some (outs, m)
    \<and> run_steps (os_step sg) ops s = Some (outs, s') \<and> os_rep sg s' css' \<and> free_data s' = free_data s \<and> os_contents sg s' = m"
  using assms
proof (induction ops arbitrary: s css)
  case (Cons op ops)
  from os_step_rep[OF Cons.prems, of op] obtain o1 s1 css1 m1 where
    1: "os_spec (free_data s) op (os_contents sg s) = Some (o1, m1)" "os_step sg op s = Some (o1, s1)" "os_rep sg s1 css1"
      "free_data s1 = free_data s" "os_contents sg s1 = m1" by blast
  from Cons.IH[OF 1(3)] 1 show ?case by fastforce
qed auto

subsection \<open>A new table\<close>

lemma os_getprime_32: "os_getprime 32 = Some 37"
  by code_simp

lemma os_getprime_small: "list_all (\<lambda>v. os_getprime v \<noteq> None) (map of_nat [0..<37])"
  by code_simp

lemma os_getprime_rows: "\<exists>p. os_getprime (v mod 37) = Some p"
proof -
  have "unat (v mod 37) < 37" by (simp add: unat_mod)
  moreover have "v mod 37 = of_nat (unat (v mod 37))" by simp
  ultimately have "v mod 37 \<in> set (map of_nat [0..<37])" by (metis atLeastLessThan_iff image_eqI le0 set_map set_upt)
  then show ?thesis using os_getprime_small by (auto simp: list_all_iff)
qed

lemma OSHash_Create_rep:
  "\<exists>s :: 'v os_hash. OSHash_Create rnd1 rnd2 = Some (Some s) \<and> os_rep sg (OSHash_SetFreeDataPointer s f) (replicate 38 [])
    \<and> os_contents sg (OSHash_SetFreeDataPointer s f) = Map.empty"
proof -
  obtain p1 p2 where p: "os_getprime (rnd1 mod 37) = Some p1" "os_getprime (rnd2 mod 37) = Some p2" using os_getprime_rows by metis
  let ?s = "\<lparr>rows = 37, initial_seed = p1, hconstant = p2, elements = 0, free_data = False,
    htable = replicate 38 None, hheap = Map.empty, hbrk = 0\<rparr> :: 'v os_hash"
  have "OSHash_Create rnd1 rnd2 = Some (Some ?s)" using p by (simp add: OSHash_Create_def os_getprime_32)
  moreover have rep: "os_rep sg (OSHash_SetFreeDataPointer ?s f) (replicate 38 [])"
    by (auto simp: os_rep_def OSHash_SetFreeDataPointer_def sum_list_replicate)
  moreover have "os_contents sg (OSHash_SetFreeDataPointer ?s f) = Map.empty"
  proof
    fix k
    obtain i where i: "OSHash_GetIndex sg (OSHash_SetFreeDataPointer ?s f) k = Some i"
      using index_ex[OF os_repD(1)[OF rep]] by blast
    have "i < 38" using index_bound[OF os_repD(1)[OF rep] i] by (simp add: OSHash_SetFreeDataPointer_def)
    then show "os_contents sg (OSHash_SetFreeDataPointer ?s f) k = None" using contents_row[OF rep i] by simp
  qed
  ultimately show ?thesis by blast
qed

subsection \<open>The table as a map of strings\<close>

definition os_inv :: "bool \<Rightarrow> 'v os_hash \<Rightarrow> bool" where
  "os_inv sg s \<longleftrightarrow> (\<exists>css. os_rep sg s css) \<and> (\<forall>k. os_contents sg s k \<noteq> Some None)"

definition os_map :: "bool \<Rightarrow> 'v os_hash \<Rightarrow> cstring \<rightharpoonup> 'v" where
  "os_map sg s k = (case os_contents sg s k of Some d \<Rightarrow> d | None \<Rightarrow> None)"

definition os_put :: "bool \<Rightarrow> 'v os_hash \<Rightarrow> cstring \<Rightarrow> 'v \<Rightarrow> (bool \<times> 'v os_hash) option" where
  "os_put sg s k v = do { (r, s1) \<leftarrow> OSHash_Set sg s k (Some v); Some (r = 1, s1) }"

definition os_del :: "bool \<Rightarrow> 'v os_hash \<Rightarrow> cstring \<Rightarrow> (bool \<times> 'v os_hash) option" where
  "os_del sg s k = do { (d, s1) \<leftarrow> OSHash_Delete sg s k; Some (d \<noteq> None, s1) }"

interpretation oh: str_map "os_inv sg" "os_map sg" "OSHash_Get sg" "os_put sg" "os_del sg" for sg
proof
  fix s :: "'v os_hash" and k
  assume inv: "os_inv sg s"
  then obtain css where rep: "os_rep sg s css" and nn: "\<And>k. os_contents sg s k \<noteq> Some None" by (auto simp: os_inv_def)
  have there: "os_map sg s k \<noteq> None \<longleftrightarrow> os_contents sg s k \<noteq> None" using nn[of k] by (auto simp: os_map_def split: option.splits)
  show "OSHash_Get sg s k = Some (os_map sg s k)" using get_contents[OF rep] by (simp add: os_map_def)
  show "\<exists>s'. os_put sg s k v = Some (os_map sg s k \<noteq> None, s') \<and> os_inv sg s' \<and> os_map sg s' = (os_map sg s)(k \<mapsto> v)" for v
  proof -
    obtain s' css' where a: "OSHash_Add' sg s k (Some v) True = Some (if os_contents sg s k = None then 2 else 1, s')"
      "os_rep sg s' css'" "os_contents sg s' = (os_contents sg s)(k \<mapsto> Some v)"
      using add_rep[OF rep, of k "Some v" True] by auto
    have "os_inv sg s'" using a(2,3) nn by (auto simp: os_inv_def)
    moreover have "os_map sg s' = (os_map sg s)(k \<mapsto> v)" using a(3) by (auto simp: os_map_def fun_eq_iff)
    moreover have "os_put sg s k v = Some (os_map sg s k \<noteq> None, s')" using a(1) there by (simp add: os_put_def OSHash_Set_def)
    ultimately show ?thesis by blast
  qed
  obtain outs s' css' m where d: "os_spec (free_data s) (Os_delete k) (os_contents sg s) = Some (outs, m)"
    "os_step sg (Os_delete k) s = Some (outs, s')" "os_rep sg s' css'" "os_contents sg s' = m"
    using os_step_rep[OF rep, of "Os_delete k"] by blast
  then have "OSHash_Delete sg s k = Some (os_map sg s k, s')" "os_contents sg s' = (os_contents sg s)(k := None)"
    by (auto simp: os_map_def bind_eq_Some_conv)
  then show "\<exists>s'. os_del sg s k = Some (os_map sg s k \<noteq> None, s') \<and> os_inv sg s' \<and> os_map sg s' = (os_map sg s)(k := None)"
    using d(3) nn by (auto simp: os_del_def os_inv_def os_map_def fun_eq_iff)
qed

subsection \<open>Iterating and freeing\<close>

text \<open>The loop of a client over the nodes, from a node and its row on: their keys and data.\<close>

partial_function (option) os_visit :: "'v os_hash \<Rightarrow> nat option \<Rightarrow> nat \<Rightarrow> (cstring \<times> 'v option) list option" where
  "os_visit s node i =
     (case node of
        None \<Rightarrow> Some []
      | Some a \<Rightarrow> do {
          n \<leftarrow> hheap s a;
          (p, j) \<leftarrow> OSHash_Next s i a;
          xs \<leftarrow> os_visit s p j;
          Some ((hkey n, hdata n) # xs)
        })"

definition os_iterate :: "'v os_hash \<Rightarrow> (cstring \<times> 'v option) list option" where
  "os_iterate s = do { (p, i) \<leftarrow> OSHash_Begin s; os_visit s p i }"

lemma visit_rows:
  assumes rep: "os_rep sg s css"
  shows "i \<le> length css \<Longrightarrow> do { (p, j) \<leftarrow> next_row s i; os_visit s p j } = Some (concat (map cell_pairs (drop i css)))"
proof (induction "length css - i" arbitrary: i)
  case 0
  then have "\<not> i \<le> unat (rows s)" using os_repD(3)[OF rep] by simp
  then show ?case using 0 by (simp add: next_row.simps os_visit.simps)
next
  case (Suc d)
  then have b: "i < length css" by simp
  note I = os_rep_rowD[OF rep b]
  have IH: "do { (p, j) \<leftarrow> next_row s (i + 1); os_visit s p j } = Some (concat (map cell_pairs (drop (i + 1) css)))"
    using Suc.hyps(2) b by (intro Suc.hyps(1)) auto
  have row: "os_visit s (first xs) i = Some (cell_pairs xs @ concat (map cell_pairs (drop (i + 1) css)))"
    if "chain (hheap s) xs" "xs \<noteq> []" for xs
    using that
  proof (induction xs)
    case (Cons c xs)
    then obtain n where n: "hheap s (c_addr c) = Some n" "hnext n = first xs" "hkey n = c_key c" "hdata n = c_data c" by auto
    show ?case
    proof (cases xs)
      case Nil
      obtain p j where pj: "next_row s (i + 1) = Some (p, j)" "os_visit s p j = Some (concat (map cell_pairs (drop (i + 1) css)))"
        using IH by (auto simp: bind_eq_Some_conv)
      then show ?thesis using n Nil by (simp add: os_visit.simps[of s "Some (c_addr c)"] OSHash_Next_def)
    next
      case more: (Cons c' zs)
      then have "os_visit s (first xs) i = Some (cell_pairs xs @ concat (map cell_pairs (drop (i + 1) css)))" using Cons by simp
      then show ?thesis using n more by (simp add: os_visit.simps[of s "Some (c_addr c)"] OSHash_Next_def)
    qed
  qed simp
  have t: "i \<le> unat (rows s)" "table_at s i = Some (first (css ! i))" using I(1) b os_repD(2,3)[OF rep] by (simp_all add: table_at_def)
  have d: "drop i css = css ! i # drop (i + 1) css" using b by (simp add: Cons_nth_drop_Suc)
  show ?case
  proof (cases "css ! i")
    case Nil
    then show ?thesis using IH t d by (simp add: next_row.simps[of s i])
  next
    case (Cons c zs)
    then show ?thesis using row[OF I(2)] t d by (simp add: next_row.simps[of s i])
  qed
qed

text \<open>The data of a row that are not NULL.\<close>

definition row_data :: "'v os_cell list \<Rightarrow> 'v list" where
  "row_data xs = concat (map (\<lambda>c. case_option [] (\<lambda>d. [d]) (c_data c)) xs)"

lemma free_row_chain:
  "chain h xs \<Longrightarrow> distinct (map c_addr xs) \<Longrightarrow>
   free_row f h (first xs) = Some (if f then row_data xs else [], \<lambda>a. if a \<in> c_addr ` set xs then None else h a)"
proof (induction xs arbitrary: h)
  case (Cons c xs)
  then obtain n where n: "h (c_addr c) = Some n" "hnext n = first xs" "hdata n = c_data c" by auto
  have "free_row f (h(c_addr c := None)) (first xs)
      = Some (if f then row_data xs else [], \<lambda>a. if a \<in> c_addr ` set xs then None else (h(c_addr c := None)) a)"
  proof (rule Cons.IH)
    have "c_addr c \<notin> c_addr ` set xs" "chain h xs" using Cons.prems by simp_all
    then show "chain (h(c_addr c := None)) xs" by (rule chain_off[THEN iffD2])
  qed (use Cons.prems in simp)
  then show ?case using n by (auto simp: free_row.simps[of f h] row_data_def fun_eq_iff)
qed (simp add: free_row.simps row_data_def)

lemma free_rows_chains:
  "(\<And>xs. xs \<in> set css \<Longrightarrow> chain h xs) \<Longrightarrow> distinct (concat (map (map c_addr) css)) \<Longrightarrow>
   free_rows f h (map first css) = Some (if f then concat (map row_data css) else [],
     \<lambda>a. if a \<in> c_addr ` set (concat css) then None else h a)"
proof (induction css arbitrary: h)
  case (Cons xs css)
  let ?h = "\<lambda>a. if a \<in> c_addr ` set xs then None else h a"
  have "chain ?h ys" if "ys \<in> set css" for ys
  proof -
    have "c_addr ` set xs \<inter> c_addr ` set ys = {}" using that Cons.prems(2) by auto
    then have "chain ?h ys = chain h ys" by (intro chain_cong) auto
    then show ?thesis using Cons.prems(1) that by simp
  qed
  then have "free_rows f ?h (map first css) = Some (if f then concat (map row_data css) else [],
      \<lambda>a. if a \<in> c_addr ` set (concat css) then None else ?h a)"
    using Cons.prems(2) by (intro Cons.IH) auto
  then show ?case using free_row_chain[of h xs f] Cons.prems by (auto simp: fun_eq_iff)
qed simp

lemma free_rep:
  assumes rep: "os_rep sg s css"
  shows "OSHash_Free s = Some (if free_data s then concat (map row_data css) else [], Map.empty)"
proof -
  note R = os_repD[OF rep] and I = os_rep_rowD[OF rep]
  have t: "htable s = map first css" using R(2,3) I(1) by (intro nth_equalityI) auto
  have "set (map c_addr (css ! i)) \<inter> set (map c_addr (css ! j)) = {}" if "i < j" "j < length css" for i j
  proof (rule ccontr)
    assume "set (map c_addr (css ! i)) \<inter> set (map c_addr (css ! j)) \<noteq> {}"
    then obtain c c' where "c \<in> set (css ! i)" "c' \<in> set (css ! j)" "c_addr c = c_addr c'" by auto
    then show False using that chain_node[OF I(2)[of i], of c] chain_node[OF I(2)[of j], of c'] I(4)[of i c] I(4)[of j c'] by auto
  qed
  then have "distinct (concat (map (map c_addr) css))" using chain_inj[OF I(2,3)] by (intro distinct_concat_nth) auto
  moreover have "chain (hheap s) xs" if "xs \<in> set css" for xs using that I(2) by (metis in_set_conv_nth)
  ultimately have "OSHash_Free s = Some (if free_data s then concat (map row_data css) else [],
      \<lambda>a. if a \<in> c_addr ` set (concat css) then None else hheap s a)"
    unfolding OSHash_Free_def t by (intro free_rows_chains)
  moreover have "(\<lambda>a. if a \<in> c_addr ` set (concat css) then None else hheap s a) = Map.empty"
    using os_rep_domD(2)[OF rep] by (fastforce simp: fun_eq_iff)
  ultimately show ?thesis by simp
qed

section \<open>The theorems\<close>

lemma oshash_run:
  fixes ops :: "'v os_op list"
  obtains s0 outs m s css where "OSHash_Create rnd1 rnd2 = Some (Some s0)" "run_steps (os_spec f) ops Map.empty = Some (outs, m)"
    "run_steps (os_step sg) ops (OSHash_SetFreeDataPointer s0 f) = Some (outs, s)" "os_rep sg s css" "os_contents sg s = m" "free_data s = f"
proof -
  obtain s0 :: "'v os_hash" where s0: "OSHash_Create rnd1 rnd2 = Some (Some s0)" "os_rep sg (OSHash_SetFreeDataPointer s0 f) (replicate 38 [])"
    "os_contents sg (OSHash_SetFreeDataPointer s0 f) = Map.empty" using OSHash_Create_rep by blast
  have "free_data (OSHash_SetFreeDataPointer s0 f) = f" by (simp add: OSHash_SetFreeDataPointer_def)
  with os_run_rep[OF s0(2), of ops] s0(3) that[OF s0(1)] show thesis by auto
qed

text \<open>A client of the map interface sees a map.\<close>

lemma oshash_map_run:
  "\<exists>s0 s. OSHash_Create rnd1 rnd2 = Some (Some s0)
    \<and> map_run (OSHash_Get sg) (os_put sg) (os_del sg) ops (OSHash_SetFreeDataPointer s0 f) = Some (fst (map_spec_run ops Map.empty), s)"
proof -
  obtain s0 :: "'a os_hash" where s0: "OSHash_Create rnd1 rnd2 = Some (Some s0)" "os_rep sg (OSHash_SetFreeDataPointer s0 f) (replicate 38 [])"
    "os_contents sg (OSHash_SetFreeDataPointer s0 f) = Map.empty"
    using OSHash_Create_rep by blast
  then have "os_inv sg (OSHash_SetFreeDataPointer s0 f)" "os_map sg (OSHash_SetFreeDataPointer s0 f) = Map.empty"
    by (auto simp: os_inv_def os_map_def)
  with s0(1) oh.run_refines[of sg "OSHash_SetFreeDataPointer s0 f" ops] show ?thesis by auto
qed

text \<open>Enlarging a table forgets its keys and keeps counting them.\<close>

lemma oshash_setSize_count:
  "case OSHash_Create 0 0 of
     Some (Some s) \<Rightarrow>
       (case OSHash_Add True s [97] (Some (7 :: nat)) of
          Some (_, s1) \<Rightarrow>
            (case OSHash_setSize s1 64 of
               Some (r, ds, s2) \<Rightarrow> r = 1 \<and> OSHash_Get True s2 [97] = Some None \<and> OSHash_Get_Elem_ex s2 = 1
             | None \<Rightarrow> False)
        | None \<Rightarrow> False)
   | _ \<Rightarrow> False"
  by code_simp

text \<open>C39: from its creation, with any random seeds and any function to free data, the chained table is a map
  for every sequence of lookups, additions, replacements, updates and deletions: every call returns, with
  the code, the datum and the data freed that a map gives; the keys are found whatever rows their hashes
  share, no bad pointer is followed, and the count of elements is the number of keys modulo \<open>2\<^sup>32\<close>.\<close>

theorem oshash_run_refines:
  "\<exists>s0 outs m s. OSHash_Create rnd1 rnd2 = Some (Some s0)
    \<and> run_steps (os_spec f) ops Map.empty = Some (outs, m)
    \<and> run_steps (os_step sg) ops (OSHash_SetFreeDataPointer s0 f) = Some (outs, s)
    \<and> (\<forall>key. OSHash_Get sg s key = Some (case m key of Some d \<Rightarrow> d | None \<Rightarrow> None))
    \<and> OSHash_Get_Elem_ex s = of_nat (card (dom m))"
proof -
  obtain s0 outs m s css where r: "OSHash_Create rnd1 rnd2 = Some (Some s0)" "run_steps (os_spec f) ops Map.empty = Some (outs, m)"
    "run_steps (os_step sg) ops (OSHash_SetFreeDataPointer s0 f) = Some (outs, s)" "os_rep sg s css" "os_contents sg s = m" "free_data s = f"
    by (rule oshash_run)
  have "OSHash_Get_Elem_ex s = of_nat (card (dom m))" using elements_card[OF r(4)] r(5) by (simp add: OSHash_Get_Elem_ex_def)
  with r get_contents[OF r(4)] show ?thesis by blast
qed

text \<open>C40: after any calls on a new table, an iteration from \<^verbatim>\<open>OSHash_Begin\<close> with \<^verbatim>\<open>OSHash_Next\<close> ends and visits every key
  once, with its datum; and freeing the table hands every datum that is not NULL to the function that frees data
  once, if there is one, and leaves no node.\<close>

theorem oshash_iterates_and_frees:
  "\<exists>s0 outs m s xs. OSHash_Create rnd1 rnd2 = Some (Some s0)
    \<and> run_steps (os_spec f) ops Map.empty = Some (outs, m)
    \<and> run_steps (os_step sg) ops (OSHash_SetFreeDataPointer s0 f) = Some (outs, s)
    \<and> os_iterate s = Some xs \<and> distinct (map fst xs) \<and> map_of xs = m
    \<and> OSHash_Free s = Some (if f then concat (map (\<lambda>x. case_option [] (\<lambda>d. [d]) (snd x)) xs) else [], Map.empty)"
proof -
  obtain s0 outs m s css where r: "OSHash_Create rnd1 rnd2 = Some (Some s0)" "run_steps (os_spec f) ops Map.empty = Some (outs, m)"
    "run_steps (os_step sg) ops (OSHash_SetFreeDataPointer s0 f) = Some (outs, s)" "os_rep sg s css" "os_contents sg s = m" "free_data s = f"
    by (rule oshash_run)
  let ?xs = "concat (map cell_pairs css)"
  have "os_iterate s = Some ?xs" using visit_rows[OF r(4), of 0] by (simp add: os_iterate_def OSHash_Begin_def)
  moreover have "concat (map row_data css) = concat (map (\<lambda>x. case_option [] (\<lambda>d. [d]) (snd x)) ?xs)"
    by (induction css) (simp_all add: row_data_def comp_def)
  then have "OSHash_Free s = Some (if f then concat (map (\<lambda>x. case_option [] (\<lambda>d. [d]) (snd x)) ?xs) else [], Map.empty)"
    using free_rep[OF r(4)] r(6) by simp
  ultimately show ?thesis using r rows_distinct[OF r(4)] rows_contents[OF r(4)] by blast
qed

end
