(* ===== verification/Spec2Isabelle.thy ===== *)
theory Spec2Isabelle
  imports Net_Buffer Agent_Buffer Sec_Msg Batch_System Control_Queue Str_Break Os_Hash
begin

text \<open>
  A verification development for the event path of GuardSarm, a security monitoring system: agents collect
  events and send them to a manager, whose daemon \<^verbatim>\<open>remoted\<close> receives, queues and dispatches them. The C code
  is under \<^verbatim>\<open>src/src\<close>; the theories model its queues, buffers, framing, message security, containers and
  pattern matching, operation by operation, and prove that they do what their callers rely on.

  \<^bold>\<open>How an event travels.\<close> An agent appends the event to its buffer (\<open>Agent_Buffer\<close>, \<^verbatim>\<open>client-agent/src/buffer.c\<close>);
  the dispatcher takes it out, encrypts it (\<open>Sec_Msg\<close>, \<^verbatim>\<open>shared/os_crypto/shared/msgs.c\<close>) and sends it with its length
  in front (\<open>Net_Frame\<close>, \<^verbatim>\<open>shared/os_net/os_net.c\<close>). \<^verbatim>\<open>remoted\<close> reads the stream into a buffer per socket and cuts the frames
  out of it (\<open>Net_Buffer\<close>, \<^verbatim>\<open>remoted/src/netbuffer.c\<close>, with the byte ring of \<open>Byte_Queue\<close>, \<^verbatim>\<open>shared/src/bqueue_op.c\<close>, for
  what it sends), and puts the messages into a ring (\<open>Ring_Queue\<close>, \<^verbatim>\<open>shared/src/queue_op.c\<close> and \<^verbatim>\<open>remoted/src/queue.c\<close>). A
  worker decrypts a message and hands an event to the round-robin queue of all agents (\<open>Batch_Queue\<close> and \<open>Batch_System\<close>,
  \<^verbatim>\<open>shared/src/batch_queue_op.c\<close>), which keeps a ring per agent and finds it with a hash map (\<open>Hash_Map\<close>,
  \<^verbatim>\<open>shared/src/hashmap_op.c\<close>), and a control message to the queue of the saving thread (\<open>Control_Queue\<close>,
  \<^verbatim>\<open>remoted/src/secure.c\<close>). That one is a linked queue (\<open>Linked_Queue\<close>, \<^verbatim>\<open>shared/src/queue_linked_op.c\<close>) with an index
  (\<open>Indexed_Queue\<close>, \<^verbatim>\<open>shared/src/indexed_queue_op.c\<close>) in a red-black tree (\<open>RB_Tree\<close>, \<^verbatim>\<open>shared/src/rbtree_op.c\<close>). The same
  daemons share a chained hash table (\<open>Os_Hash\<close>, \<^verbatim>\<open>shared/src/hash_op.c\<close>), the simple pattern language (\<open>Os_Match\<close>,
  \<^verbatim>\<open>shared/os_regex\<close>) and the splitting of strings (\<open>Str_Break\<close>).

  \<^bold>\<open>How the code is modelled.\<close> A struct is a record, an enumeration a datatype, and every function a definition of
  the same name (a leading underscore of the source is a trailing quote), composed as the code composes them; the parts of a long
  function, and the passes of a loop, have definitions of their own. Machine integers that can wrap are words, sizes that
  cannot reach their limit natural numbers. An array access out of bounds, the dereference of a bad pointer, a division by zero
  and a loop that does not end are the value \<open>None\<close>, so a theorem that an operation returns excludes them. Linked structures are
  objects of an explicit heap, a map from addresses to records. A function that waits on a condition variable is one pass of its
  loop, with an outcome that tells a result from a wait (\<^typ>\<open>('r, 's) outcome\<close> of \<open>Prelude\<close>). Threads are interleavings of steps, a
  step being what a thread does between two points where another can run (\<open>Batch_System\<close>, \<open>Control_Queue\<close>). Data handed to a
  disposal callback is part of the result of the operation. The byte order and the signedness of \<^verbatim>\<open>char\<close> are parameters, as
  are the cipher, digest and compression functions of the external libraries, with what they promise as hypotheses.

  \<^bold>\<open>Interfaces.\<close> Clients are proved once against locales: \<open>bounded_fifo\<close> and \<open>byte_stream\<close> (\<open>Prelude\<close>), \<open>str_map\<close> (\<open>Str_Map\<close>) and
  \<open>ordered_map\<close> (\<open>Ordered_Map\<close>). They are interpreted on the ring queue and the agent buffer, the byte ring, the two hash
  tables, and the red-black tree.

  \<^bold>\<open>What is shown.\<close> The theorem of this theory joins transport, network buffer and message queue; the others are in the
  theories of the components.

    \<^item> Queues and buffers: over any sequence of calls the ring queue, the byte ring, the agent buffer, the linked queue and
    the indexed queue behave as lists, with exact counts, bounds and return codes.

    \<^item> Threads: for any interleaving the round-robin queue delivers each agent's events in order, holds no more than its
    capacity, never leaves an agent with events out of the ring and serves every agent within one round; the control
    queue loses and duplicates no object.

    \<^item> Transport: the frames an agent sends are what the message handlers get, whatever the segmentation and the byte
    orders; a header is refused exactly when it is corrupt.

    \<^item> Messages: what is encrypted for a key is read back by its holder, fits a frame, is accepted only once, and counters
    are not reused after a restart.

    \<^item> Containers: the hash maps and the red-black tree refine maps; the tree stays balanced, growth and tombstones lose
    nothing, iteration visits every key once, and destruction disposes of every value once.

    \<^item> Patterns: compiled patterns match exactly the texts their alternatives describe; splitting undoes joining.

    \<^item> Defects: some theorems state precisely what goes wrong, such as a reload of the agent buffer that overruns or loses
    messages, an event disposed of twice, and a division by zero on an empty byte ring.


  \<^bold>\<open>Bounds and loops.\<close> There is no fuel: a loop with an obvious measure is a \<^theory_text>\<open>function\<close> with its termination proof, and a
  walk along pointers or a probe sequence a \<^theory_text>\<open>partial_function (option)\<close>, for which the theorems say that it returns. The rounding to powers of
  two returns exactly up to \<open>2\<^sup>63\<close>, which is a theorem of its own.

  \<^bold>\<open>Not modelled.\<close> Allocation failure, which ends the process; logging; the contents of system calls. Of the modelled
  files, the functions that only free memory or only lock around another one. The other daemons and libraries of the repository are
  left out: \<^verbatim>\<open>logcollector\<close>, \<^verbatim>\<open>syscheckd\<close>, \<^verbatim>\<open>rootcheck\<close>, \<^verbatim>\<open>os_execd\<close>, \<^verbatim>\<open>monitord\<close>, \<^verbatim>\<open>active-response\<close>, \<^verbatim>\<open>os_auth\<close> and \<^verbatim>\<open>addagent\<close>
  mostly drive files, processes and sockets; \<^verbatim>\<open>guardsarm_db\<close> and \<^verbatim>\<open>shared_modules\<close> work on SQLite databases and remote services; \<^verbatim>\<open>data_provider\<close> and
  \<^verbatim>\<open>win32\<close> query the operating system; \<^verbatim>\<open>config\<close> reads XML into settings; the \<^verbatim>\<open>engine\<close> and \<^verbatim>\<open>guardsarm_modules\<close> are built
  on libraries that are not in the repository; \<^verbatim>\<open>api\<close>, \<^verbatim>\<open>framework\<close> and \<^verbatim>\<open>wodles\<close> are Python services. The regular expressions of
  \<^verbatim>\<open>os_regex_execute.c\<close>, the table of agent keys in \<^verbatim>\<open>keys.c\<close> with the
  validation of addresses in \<^verbatim>\<open>validate_op.c\<close>, which rests on PCRE2, and the JSON, XML and file helpers of \<^verbatim>\<open>shared\<close> are not modelled either.
\<close>

subsection \<open>From an agent to the message handlers\<close>

text \<open>
  What an agent puts on the wire for its messages when every \<^verbatim>\<open>send\<close> takes the whole frame, and what
  the message handlers of \<^verbatim>\<open>remoted\<close> get when they pop \<open>k\<close> times.
\<close>

definition agent_wire :: "bool \<Rightarrow> byte list list \<Rightarrow> byte list" where
  "agent_wire big ms =
     concat (map (\<lambda>m. snd (OS_SendSecureTCP big (\<lambda>b. int (length b)) 0 (of_nat (length m)) m)) ms)"

definition rem_drain :: "nat \<Rightarrow> rem_state \<Rightarrow> message list" where
  "rem_drain k st = fst ((rem_step Rem_pop ^^ k) ([], st))"

lemma agent_wire_frames:
  "\<forall>m \<in> set ms. length m \<le> OS_MAXSTR \<Longrightarrow> agent_wire big ms = concat (map frame ms)"
proof -
  have "snd (OS_SendSecureTCP big (\<lambda>b. int (length b)) 0 (of_nat (length m)) m) = frame m"
    if "length m \<le> OS_MAXSTR" for m
  proof -
    have "unat (of_nat (length m) :: uint32) = length m"
      using that by (simp add: OS_MAXSTR_def unat_of_nat take_bit_eq_mod)
    then show ?thesis by (simp add: OS_SendSecureTCP_def header_write frame_def Let_def)
  qed
  moreover assume "\<forall>m \<in> set ms. length m \<le> OS_MAXSTR"
  ultimately show ?thesis by (auto simp: agent_wire_def intro!: arg_cong[of _ _ concat])
qed

lemma rem_msgpush_room:
  assumes "queue_inv (rem_queue st)" "queue_used (rem_queue st) + 1 < q_size (rem_queue st)"
  shows "\<exists>st' x. rem_msgpush st m (length m) peer sock = (0, st') \<and> queue_inv (rem_queue st')
    \<and> queue_list (rem_queue st') = queue_list (rem_queue st) @ [x] \<and> msg_buffer x = m
    \<and> msg_sock x = sock \<and> msg_addr x = peer
    \<and> q_size (rem_queue st') = q_size (rem_queue st) \<and> recv_discarded st' = recv_discarded st"
proof -
  define x where "x = \<lparr>msg_buffer = take (length m) m, msg_size = of_nat (length m), msg_addr = peer,
    msg_sock = sock, msg_counter = size_add (global_counter st) 1\<rparr>"
  obtain r q' where p: "queue_push (rem_queue st) (Some x) = (r, q')" by fastforce
  from queue_push_result[OF assms(1) p] assms(2)
  have "r = 0" "queue_inv q'" "queue_list q' = queue_list (rem_queue st) @ [x]" "q_size q' = q_size (rem_queue st)"
    by auto
  with p show ?thesis
    unfolding rem_msgpush_def Let_def x_def[symmetric] by (simp add: x_def)
qed

lemma rem_deliver_room:
  "queue_inv (rem_queue st) \<Longrightarrow> queue_used (rem_queue st) + length ms < q_size (rem_queue st) \<Longrightarrow>
   \<exists>xs. queue_inv (rem_queue (rem_deliver peer sock ms st))
    \<and> queue_list (rem_queue (rem_deliver peer sock ms st)) = queue_list (rem_queue st) @ xs
    \<and> map msg_buffer xs = ms \<and> (\<forall>x \<in> set xs. msg_sock x = int sock \<and> msg_addr x = peer)
    \<and> recv_discarded (rem_deliver peer sock ms st) = recv_discarded st"
proof (induction ms arbitrary: st)
  case Nil
  then show ?case by simp
next
  case (Cons m ms)
  from rem_msgpush_room[OF Cons.prems(1), of m peer "int sock"] Cons.prems(2) obtain st' x where
    st': "rem_msgpush st m (length m) peer (int sock) = (0, st')" "queue_inv (rem_queue st')"
    "queue_list (rem_queue st') = queue_list (rem_queue st) @ [x]" "msg_buffer x = m" "msg_sock x = int sock"
    "msg_addr x = peer" "q_size (rem_queue st') = q_size (rem_queue st)" "recv_discarded st' = recv_discarded st"
    by auto
  have "queue_used (rem_queue st') = queue_used (rem_queue st) + 1"
    using length_queue_list[of "rem_queue st'"] st'(3) by simp
  with Cons.IH[OF st'(2)] Cons.prems(2) st' obtain xs where
    "queue_inv (rem_queue (rem_deliver peer sock ms st'))" "map msg_buffer xs = ms"
    "queue_list (rem_queue (rem_deliver peer sock ms st')) = queue_list (rem_queue st') @ xs"
    "\<forall>x \<in> set xs. msg_sock x = int sock \<and> msg_addr x = peer"
    "recv_discarded (rem_deliver peer sock ms st') = recv_discarded st'" by auto
  then show ?case using st' by (auto intro!: exI[of _ "x # xs"])
qed

lemma rem_drain_all:
  "queue_inv (rem_queue st) \<Longrightarrow> queue_list (rem_queue st) = xs \<Longrightarrow>
   fst ((rem_step Rem_pop ^^ length xs) (outs, st)) = outs @ xs"
proof (induction xs arbitrary: st outs)
  case Nil
  then show ?case by simp
next
  case (Cons x xs)
  from queue_pop_result[OF Cons.prems(1)] Cons.prems(2) obtain q' where
    q': "queue_pop (rem_queue st) = (Some x, q')" "queue_inv q'" "queue_list q' = xs" by auto
  then have "rem_step Rem_pop (outs, st) = (outs @ [x], st\<lparr>rem_queue := q'\<rparr>)" by (simp add: rem_msgpop_def)
  with Cons.IH[of "st\<lparr>rem_queue := q'\<rparr>" "outs @ [x]"] q' show ?case by (simp add: funpow_swap1)
qed

text \<open>
  C3: end to end. The messages an agent sends with \<^verbatim>\<open>OS_SendSecureTCP\<close>, cut into reads of the
  server's socket in any way, come out of the queue of \<^verbatim>\<open>remoted\<close> exactly as sent and in order,
  marked with the socket and the address of the agent, and none is counted as discarded, as long
  as the queue has room; agent and server may differ in byte order.
\<close>

theorem transport_end_to_end:
  assumes "nb_config_ok cfg" "nb_array nb" "length ms < n" "\<forall>m \<in> set ms. length m \<le> OS_MAXSTR"
    and "concat cs = agent_wire big1 ms" "\<forall>c \<in> set cs. c \<noteq> [] \<and> length c \<le> receive_chunk cfg"
  shows "\<exists>nb' st. nb_recv_all cfg big2 sock cs (nb_open cfg nb sock peer, rem_msginit n) = Some (nb', st)
    \<and> map msg_buffer (rem_drain (length ms) st) = ms \<and> recv_discarded st = 0
    \<and> (\<forall>x \<in> set (rem_drain (length ms) st). msg_sock x = int sock \<and> msg_addr x = peer)"
proof -
  let ?sb = "sb_zero\<lparr>peer_info := peer, sb_bqueue := bqueue_init (send_buffer_size cfg) BQUEUE_SHRINK\<rparr>"
  let ?st = "rem_deliver peer sock ms (rem_msginit n)"
  have slot: "nb_slot (nb_open cfg nb sock peer) sock = Some ?sb" using nb_open_slots[OF assms(2)] by blast
  have fresh: "sb_inv cfg ?sb" "sb_pending ?sb = []" "peer_info ?sb = peer"
    by (simp_all add: sb_inv_def sb_zero_def OS_MAXSTR_def sb_pending_def)
  have nil: "parse_frames [] = ([], [], False)" by (subst parse_frames.simps) simp
  have "parse_frames (sb_pending ?sb @ concat cs) = (ms, [], False)"
    using parse_frames_all[OF assms(4) nil] assms(5) agent_wire_frames[OF assms(4)] fresh(2) by simp
  from nb_recv_all_parse[OF assms(1,6) slot fresh(1) _ this, of big2 "rem_msginit n"] nil fresh obtain nb' where
    run: "nb_recv_all cfg big2 sock cs (nb_open cfg nb sock peer, rem_msginit n) = Some (nb', ?st)" by auto
  have "queue_inv (queue_init n :: message w_queue) \<and> queue_list (queue_init n :: message w_queue) = []"
    using assms(3) by (intro queue_init_inv) simp
  then have init: "queue_inv (rem_queue (rem_msginit n))" "queue_list (rem_queue (rem_msginit n)) = []"
      "q_size (rem_queue (rem_msginit n)) = n" "recv_discarded (rem_msginit n) = 0"
    by (simp_all add: rem_msginit_def) (simp add: queue_init_def)
  then have "queue_used (rem_queue (rem_msginit n)) = 0"
    using length_queue_list[of "rem_queue (rem_msginit n)"] by simp
  with rem_deliver_room[OF init(1), of ms peer sock] init assms(3) obtain xs where
    "queue_inv (rem_queue ?st)" and xs: "queue_list (rem_queue ?st) = xs" "map msg_buffer xs = ms"
    "\<forall>x \<in> set xs. msg_sock x = int sock \<and> msg_addr x = peer" "recv_discarded ?st = 0" by auto
  from rem_drain_all[OF this(1,2), of "[]"] have "rem_drain (length ms) ?st = xs"
    using arg_cong[OF xs(2), of length] by (simp add: rem_drain_def)
  then show ?thesis using run xs by auto
qed

theorem transport_end_to_end_witness:
  "\<exists>nb' st. nb_recv_all nb_demo_config True 2 [[2, 0, 0], [0, 65], [66, 1, 0, 0, 0, 67]] (nb_demo, rem_msginit 4)
      = Some (nb', st) \<and> map msg_buffer (rem_drain 2 st) = [[65, 66], [67]]"
proof -
  have "agent_wire False [[65, 66], [67]] = [2, 0, 0, 0, 65, 66, 1, 0, 0, 0, 67]" by code_simp
  then show ?thesis
    using transport_end_to_end[OF nb_demo_ok(1), of "\<lparr>max_fd = 0, nb_buffers = []\<rparr>" "[[65, 66], [67]]" 4
        "[[2, 0, 0], [0, 65], [66, 1, 0, 0, 0, 67]]" False True 2 9]
    by (auto simp: nb_array_def OS_MAXSTR_def nb_demo_config_def nb_demo_def numeral_2_eq_2)
qed

end
